(* ===== verification/Chronix_Prelude.thy ===== *)
theory Chronix_Prelude
  imports Main "HOL-Library.Word" "HOL-Library.Monad_Syntax"
begin

text \<open>
  Shared vocabulary of the development: the machine integers of the two 64-bit targets,
  the reading of Rust results and panics, the collections of simplification facts the
  component theories extend, and generic lemmas on lists and association lists.

  Conventions. The kernel is built with \<^verbatim>\<open>--release\<close> (\<^verbatim>\<open>mk/kernel.mk\<close>), so arithmetic on
  \<^verbatim>\<open>usize\<close> wraps and \<^verbatim>\<open>debug_assert!\<close> is not compiled in, whereas \<^verbatim>\<open>assert!\<close>, \<^verbatim>\<open>unwrap\<close> on
  \<^verbatim>\<open>None\<close> and slice indexing out of range panic. A function that can panic returns an
  \<open>option\<close> whose \<open>None\<close> is the panic. \<^verbatim>\<open>Result<T, E>\<close> is \<open>'e + 't\<close> with \<open>Inl\<close> for
  \<^verbatim>\<open>Err\<close>; Rust's \<^verbatim>\<open>Option\<close> is \<open>option\<close>. A \<^verbatim>\<open>&mut self\<close> method takes the old value and
  returns the new one. Lengths of collections, which never reach \<open>2 ^ 63\<close>, are \<open>nat\<close>;
  addresses, page numbers, bit sets and counters whose wrap-around is visible are words.
\<close>

section \<open>Machine integers\<close>

type_synonym u8 = "8 word"
type_synonym u16 = "16 word"
type_synonym u32 = "32 word"
type_synonym i32 = "32 word"
type_synonym u64 = "64 word"
type_synonym usize = "64 word"

section \<open>Panics and results\<close>

abbreviation (input) panic :: "'a option" where
  "panic \<equiv> None"

definition assert_that :: "bool \<Rightarrow> unit option" where
  "assert_that b = (if b then Some () else panic)"

lemma assert_that_Some [simp]: "assert_that b = Some u \<longleftrightarrow> b"
  by (simp add: assert_that_def)

lemma assert_that_True [simp]: "assert_that True = Some ()"
  by (simp add: assert_that_def)

lemma assert_that_False [simp]: "assert_that False = None"
  by (simp add: assert_that_def)

section \<open>Collections of facts\<close>

named_theorems range_map_simps \<open>unfolding rules of the range map's operations\<close>
named_theorems range_set_simps \<open>unfolding rules of the range set's operations\<close>
named_theorems ring_simps \<open>unfolding rules of the ring buffer's operations\<close>
named_theorems addr_simps \<open>unfolding rules of address and page number conversions\<close>
named_theorems pte_simps \<open>unfolding rules of page table entries\<close>
named_theorems sig_simps \<open>unfolding rules of the signal manager\<close>

section \<open>Lists\<close>

definition last_opt :: "'a list \<Rightarrow> 'a option" where
  "last_opt xs = (if xs = [] then None else Some (last xs))"

definition hd_opt :: "'a list \<Rightarrow> 'a option" where
  "hd_opt xs = (case xs of [] \<Rightarrow> None | x # _ \<Rightarrow> Some x)"

lemma last_opt_simps [simp]:
  "last_opt [] = None" "last_opt (xs @ [x]) = Some x"
  by (auto simp: last_opt_def)

lemma last_opt_eq_None [simp]: "last_opt xs = None \<longleftrightarrow> xs = []"
  by (simp add: last_opt_def)

lemma last_opt_SomeD: "last_opt xs = Some x \<Longrightarrow> \<exists>ys. xs = ys @ [x]"
  by (metis append_butlast_last_id last_opt_def option.distinct(1) option.inject)

lemma hd_opt_simps [simp]:
  "hd_opt [] = None" "hd_opt (x # xs) = Some x"
  by (auto simp: hd_opt_def)

lemma hd_opt_eq_None [simp]: "hd_opt xs = None \<longleftrightarrow> xs = []"
  by (auto simp: hd_opt_def split: list.splits)

lemma find_SomeD: "find P xs = Some x \<Longrightarrow> x \<in> set xs \<and> P x"
  by (induction xs) (auto split: if_splits)

lemma hd_opt_in_set: "hd_opt xs = Some x \<Longrightarrow> x \<in> set xs"
  by (auto simp: hd_opt_def split: list.splits)

section \<open>Slices\<close>

text \<open>
  \<^verbatim>\<open>&xs[a..b]\<close> panics when the bounds are out of order or out of range;
  \<^verbatim>\<open>xs[a..a + len].copy_from_slice(ys)\<close> panics when the target range does.
\<close>

definition slice :: "'a list \<Rightarrow> nat \<Rightarrow> nat \<Rightarrow> 'a list option" where
  "slice xs a b = (if a \<le> b \<and> b \<le> length xs then Some (take (b - a) (drop a xs)) else panic)"

definition copy_at :: "'a list \<Rightarrow> nat \<Rightarrow> 'a list \<Rightarrow> 'a list option" where
  "copy_at xs a ys =
     (if a + length ys \<le> length xs then Some (take a xs @ ys @ drop (a + length ys) xs) else panic)"

definition rem_nat :: "nat \<Rightarrow> nat \<Rightarrow> nat option" where
  "rem_nat a n = (if n = 0 then panic else Some (a mod n))"

definition index_at :: "'a list \<Rightarrow> nat \<Rightarrow> 'a option" where
  "index_at xs i = (if i < length xs then Some (xs ! i) else panic)"

lemma slice_Some [simp]: "a \<le> b \<Longrightarrow> b \<le> length xs \<Longrightarrow> slice xs a b = Some (take (b - a) (drop a xs))"
  by (simp add: slice_def)

lemma copy_at_Some:
  "a + length ys \<le> length xs \<Longrightarrow> copy_at xs a ys = Some (take a xs @ ys @ drop (a + length ys) xs)"
  by (simp add: copy_at_def)

lemma length_copy_at: "copy_at xs a ys = Some zs \<Longrightarrow> length zs = length xs"
  by (auto simp: copy_at_def split: if_splits)

lemma nth_copy_at:
  "copy_at xs a ys = Some zs \<Longrightarrow> j < length xs \<Longrightarrow>
    zs ! j = (if a \<le> j \<and> j < a + length ys then ys ! (j - a) else xs ! j)"
  by (auto simp: copy_at_def nth_append min_def split: if_splits)

end
