(* ===== verification/Ordered_Map.thy ===== *)
theory Ordered_Map
  imports Chronix_Prelude
begin

text \<open>
  The ordered maps of the standard library (\<^verbatim>\<open>BTreeMap\<close>) that the kernel's containers are
  built on: an association list in strictly ascending key order. The operations are the
  ones the sources call; \<^verbatim>\<open>range(a..b)\<close> panics when \<open>b < a\<close>, as the library documents.
\<close>

type_synonym ('k, 'v) btree = "('k \<times> 'v) list"

definition bt_wf :: "('k::linorder, 'v) btree \<Rightarrow> bool" where
  "bt_wf m \<longleftrightarrow> sorted_wrt (<) (map fst m)"

definition bt_get :: "('k, 'v) btree \<Rightarrow> 'k \<Rightarrow> 'v option" where
  "bt_get m k = map_of m k"

fun bt_insert :: "'k::linorder \<Rightarrow> 'v \<Rightarrow> ('k, 'v) btree \<Rightarrow> ('k, 'v) btree" where
  "bt_insert k v [] = [(k, v)]"
| "bt_insert k v ((x, w) # m) =
     (if k < x then (k, v) # (x, w) # m
      else if k = x then (k, v) # m
      else (x, w) # bt_insert k v m)"

definition bt_remove :: "'k \<Rightarrow> ('k, 'v) btree \<Rightarrow> ('k, 'v) btree" where
  "bt_remove k m = filter (\<lambda>(x, _). x \<noteq> k) m"

definition bt_get_mut :: "'k \<Rightarrow> ('v \<Rightarrow> 'v) \<Rightarrow> ('k, 'v) btree \<Rightarrow> ('k, 'v) btree" where
  "bt_get_mut k f m = map (\<lambda>(x, v). (x, if x = k then f v else v)) m"

definition bt_last_lt :: "'k::linorder \<Rightarrow> ('k, 'v) btree \<Rightarrow> ('k \<times> 'v) option" where
  "bt_last_lt k m = last_opt (filter (\<lambda>(x, _). x < k) m)"

definition bt_last_le :: "'k::linorder \<Rightarrow> ('k, 'v) btree \<Rightarrow> ('k \<times> 'v) option" where
  "bt_last_le k m = last_opt (filter (\<lambda>(x, _). x \<le> k) m)"

definition bt_range :: "'k::linorder \<Rightarrow> 'k \<Rightarrow> ('k, 'v) btree \<Rightarrow> ('k \<times> 'v) list option" where
  "bt_range lo hi m = (if hi < lo then panic else Some (filter (\<lambda>(x, _). lo \<le> x \<and> x < hi) m))"

definition bt_split_off :: "'k::linorder \<Rightarrow> ('k, 'v) btree \<Rightarrow> ('k, 'v) btree \<times> ('k, 'v) btree" where
  "bt_split_off p m = (filter (\<lambda>(x, _). x < p) m, filter (\<lambda>(x, _). p \<le> x) m)"

section \<open>Well-formedness\<close>

lemma bt_wf_Nil [simp]: "bt_wf []"
  by (simp add: bt_wf_def)

lemma bt_wf_Cons [simp]: "bt_wf ((k, v) # m) \<longleftrightarrow> bt_wf m \<and> (\<forall>p \<in> set m. k < fst p)"
  by (auto simp: bt_wf_def)

lemma bt_wf_append:
  "bt_wf (m @ m') \<longleftrightarrow> bt_wf m \<and> bt_wf m' \<and> (\<forall>p \<in> set m. \<forall>q \<in> set m'. fst p < fst q)"
  by (auto simp: bt_wf_def sorted_wrt_append)

lemma bt_wf_filter [intro]: "bt_wf m \<Longrightarrow> bt_wf (filter P m)"
  by (induction m) auto

lemma bt_wf_distinct: "bt_wf m \<Longrightarrow> distinct (map fst m)"
  by (simp add: bt_wf_def strict_sorted_iff)

lemma bt_wf_unique: "bt_wf m \<Longrightarrow> (k, v) \<in> set m \<Longrightarrow> (k, w) \<in> set m \<Longrightarrow> v = w"
  by (metis bt_wf_distinct eq_key_imp_eq_value)

lemma bt_get_iff: "bt_wf m \<Longrightarrow> bt_get m k = Some v \<longleftrightarrow> (k, v) \<in> set m"
  by (simp add: bt_get_def bt_wf_distinct map_of_eq_Some_iff)

lemma bt_get_None: "bt_get m k = None \<longleftrightarrow> (\<forall>v. (k, v) \<notin> set m)"
  by (force simp: bt_get_def map_of_eq_None_iff)

section \<open>Insertion and removal\<close>

lemma set_bt_insert:
  "bt_wf m \<Longrightarrow> set (bt_insert k v m) = insert (k, v) {p \<in> set m. fst p \<noteq> k}"
  by (induction k v m rule: bt_insert.induct) auto

lemma bt_wf_insert [intro]: "bt_wf m \<Longrightarrow> bt_wf (bt_insert k v m)"
proof (induction k v m rule: bt_insert.induct)
  case (2 k v x w m)
  then show ?case by (auto simp: set_bt_insert)
qed auto

lemma set_bt_remove [simp]: "set (bt_remove k m) = {p \<in> set m. fst p \<noteq> k}"
  by (auto simp: bt_remove_def)

lemma bt_wf_remove [intro]: "bt_wf m \<Longrightarrow> bt_wf (bt_remove k m)"
  by (auto simp: bt_remove_def)

lemma bt_get_insert: "bt_get (bt_insert k v m) = (bt_get m)(k \<mapsto> v)"
  unfolding bt_get_def by (induction k v m rule: bt_insert.induct) auto

lemma bt_get_remove: "bt_get (bt_remove k m) = (bt_get m)(k := None)"
proof (rule ext)
  fix x
  show "bt_get (bt_remove k m) x = ((bt_get m)(k := None)) x"
    unfolding bt_get_def bt_remove_def by (induction m) auto
qed

lemma keys_bt_get_mut [simp]: "map fst (bt_get_mut k f m) = map fst m"
  by (simp add: bt_get_mut_def case_prod_beta')

lemma bt_wf_get_mut [intro]: "bt_wf m \<Longrightarrow> bt_wf (bt_get_mut k f m)"
  by (simp add: bt_wf_def)

lemma bt_get_get_mut: "bt_get (bt_get_mut k f m) x = (if x = k then map_option f (bt_get m x) else bt_get m x)"
  unfolding bt_get_def bt_get_mut_def by (induction m) auto

lemma set_bt_get_mut:
  assumes "bt_wf m" "(k, v) \<in> set m"
  shows "set (bt_get_mut k f m) = insert (k, f v) {p \<in> set m. fst p \<noteq> k}"
proof -
  have "(x, w) \<in> set (bt_get_mut k f m) \<longleftrightarrow>
      (x, w) \<in> insert (k, f v) {p \<in> set m. fst p \<noteq> k}" for x w
    using assms
    by (simp flip: bt_get_iff [OF bt_wf_get_mut [OF assms(1)]] bt_get_iff [OF assms(1)]
        add: bt_get_get_mut) auto
  then show ?thesis by auto
qed

section \<open>The contract of an ordered map\<close>

locale ordered_map =
  fixes wf :: "'m \<Rightarrow> bool"
    and get :: "'m \<Rightarrow> 'k \<Rightarrow> 'v option"
    and ins :: "'k \<Rightarrow> 'v \<Rightarrow> 'm \<Rightarrow> 'm"
    and rem :: "'k \<Rightarrow> 'm \<Rightarrow> 'm"
  assumes wf_ins: "wf m \<Longrightarrow> wf (ins k v m)"
    and wf_rem: "wf m \<Longrightarrow> wf (rem k m)"
    and get_ins: "wf m \<Longrightarrow> get (ins k v m) = (get m)(k \<mapsto> v)"
    and get_rem: "wf m \<Longrightarrow> get (rem k m) = (get m)(k := None)"
begin

lemma get_ins_same: "wf m \<Longrightarrow> get (ins k v m) k = Some v"
  by (simp add: get_ins)

lemma get_ins_other: "wf m \<Longrightarrow> k \<noteq> k' \<Longrightarrow> get (ins k v m) k' = get m k'"
  by (simp add: get_ins)

lemma rem_ins: "wf m \<Longrightarrow> get m k = None \<Longrightarrow> get (rem k (ins k v m)) = get m"
  by (auto simp: get_ins get_rem wf_ins)

lemma dom_ins: "wf m \<Longrightarrow> dom (get (ins k v m)) = insert k (dom (get m))"
  by (simp add: get_ins)

lemma dom_rem: "wf m \<Longrightarrow> dom (get (rem k m)) = dom (get m) - {k}"
  by (auto simp: get_rem)

end

interpretation bt: ordered_map bt_wf bt_get bt_insert bt_remove
  by unfold_locales (auto simp: bt_get_insert bt_get_remove)

section \<open>Neighbours of a key\<close>

lemma bt_last_lt_None: "bt_last_lt k m = None \<longleftrightarrow> (\<forall>p \<in> set m. k \<le> fst p)"
  by (auto simp: bt_last_lt_def filter_empty_conv not_less)

lemma bt_last_le_None: "bt_last_le k m = None \<longleftrightarrow> (\<forall>p \<in> set m. k < fst p)"
  by (auto simp: bt_last_le_def filter_empty_conv not_le)

lemma bt_last_Some:
  assumes wf: "bt_wf m" and last: "last_opt (filter (\<lambda>(x, _). P x) m) = Some (x, v)"
  shows "(x, v) \<in> set m \<and> P x \<and> (\<forall>p \<in> set m. P (fst p) \<longrightarrow> fst p \<le> x)"
proof -
  obtain ys where ys: "filter (\<lambda>(x, _). P x) m = ys @ [(x, v)]"
    using last_opt_SomeD [OF last] by blast
  have mem: "p \<in> set m \<and> P (fst p) \<longleftrightarrow> p \<in> set (ys @ [(x, v)])" for p
    unfolding ys [symmetric] by (cases p) auto
  have "bt_wf (ys @ [(x, v)])"
    using bt_wf_filter [OF wf] unfolding ys [symmetric] .
  then have "\<forall>p \<in> set ys. fst p < x"
    by (simp add: bt_wf_append)
  then have "\<forall>p \<in> set (ys @ [(x, v)]). fst p \<le> x"
    by auto
  moreover have "(x, v) \<in> set m \<and> P x"
    using mem [of "(x, v)"] by simp
  ultimately show ?thesis
    using mem by blast
qed

lemma bt_last_lt_Some:
  assumes "bt_wf m" and "bt_last_lt k m = Some (x, v)"
  shows "(x, v) \<in> set m" and "x < k" and "\<forall>p \<in> set m. fst p < k \<longrightarrow> fst p \<le> x"
  using bt_last_Some [OF assms(1), of "\<lambda>x. x < k" x v] assms(2)
  unfolding bt_last_lt_def by blast+

lemma bt_last_le_Some:
  assumes "bt_wf m" and "bt_last_le k m = Some (x, v)"
  shows "(x, v) \<in> set m" and "x \<le> k" and "\<forall>p \<in> set m. fst p \<le> k \<longrightarrow> fst p \<le> x"
  using bt_last_Some [OF assms(1), of "\<lambda>x. x \<le> k" x v] assms(2)
  unfolding bt_last_le_def by blast+

lemma bt_range_Some: "lo \<le> hi \<Longrightarrow> bt_range lo hi m = Some (filter (\<lambda>(x, _). lo \<le> x \<and> x < hi) m)"
  by (simp add: bt_range_def not_less)

lemma bt_split_off_sets:
  "bt_split_off p m = (a, b) \<Longrightarrow> set a = {q \<in> set m. fst q < p} \<and> set b = {q \<in> set m. p \<le> fst q}"
  by (auto simp: bt_split_off_def)

lemma bt_split_off_wf: "bt_wf m \<Longrightarrow> bt_split_off p m = (a, b) \<Longrightarrow> bt_wf a \<and> bt_wf b"
  by (auto simp: bt_split_off_def)

end
