(* ===== verification/Range_Map.thy ===== *)
theory Range_Map
  imports Ordered_Map
begin

text \<open>
  The range map of \<^verbatim>\<open>utils/range-map/src/lib.rs\<close>: a map from disjoint half-open ranges to
  values, kept as an ordered map from the start of a range to a node that holds its end
  and its value. It indexes the memory areas of an address space and the blocks of the
  slab allocator. The model is generic in the key type; key addition, which for page
  numbers is masked to the width of a page number, is a parameter of the one operation
  that uses it. A method that returns \<^verbatim>\<open>&mut V\<close> is the map in which that value is
  replaced by the image under the update the caller performs.
\<close>

record ('u, 'v) node =
  node_end :: 'u
  node_value :: 'v

type_synonym ('u, 'v) range_map = "('u, ('u, 'v) node) btree"
type_synonym 'u rng = "'u \<times> 'u"

definition rng_is_empty :: "'u::linorder rng \<Rightarrow> bool" where
  "rng_is_empty r \<longleftrightarrow> \<not> (fst r < snd r)"

section \<open>Operations\<close>

definition rm_new :: "('u, 'v) range_map" where
  "rm_new = []"

definition rm_try_insert ::
  "'u::linorder rng \<Rightarrow> 'v \<Rightarrow> ('u, 'v) range_map \<Rightarrow> ('v + ('u, 'v) range_map) option" where
  "rm_try_insert r v m =
     (let insert_node =
        (case bt_get m (fst r) of
           Some _ \<Rightarrow> panic
         | None \<Rightarrow> Some (Inr (bt_insert (fst r) \<lparr>node_end = snd r, node_value = v\<rparr> m)))
      in case bt_last_lt (snd r) m of
           Some (_, n) \<Rightarrow> if node_end n > fst r then Some (Inl v) else insert_node
         | None \<Rightarrow> insert_node)"

definition rm_get_key_value :: "'u::linorder \<Rightarrow> ('u, 'v) range_map \<Rightarrow> ('u rng \<times> 'v) option" where
  "rm_get_key_value key m =
     (case bt_last_le key m of
        None \<Rightarrow> None
      | Some (s, n) \<Rightarrow> if node_end n > key then Some ((s, node_end n), node_value n) else None)"

definition rm_get :: "'u::linorder \<Rightarrow> ('u, 'v) range_map \<Rightarrow> 'v option" where
  "rm_get key m =
     (case bt_last_le key m of
        None \<Rightarrow> None
      | Some (_, n) \<Rightarrow> if node_end n > key then Some (node_value n) else None)"

definition rm_set_value :: "'u \<Rightarrow> ('v \<Rightarrow> 'v) \<Rightarrow> ('u, 'v) range_map \<Rightarrow> ('u, 'v) range_map" where
  "rm_set_value s f m = bt_get_mut s (\<lambda>n. n\<lparr>node_value := f (node_value n)\<rparr>) m"

definition rm_get_mut ::
  "'u::linorder \<Rightarrow> ('v \<Rightarrow> 'v) \<Rightarrow> ('u, 'v) range_map \<Rightarrow> ('u, 'v) range_map option" where
  "rm_get_mut key f m =
     (case bt_last_le key m of
        None \<Rightarrow> None
      | Some (s, n) \<Rightarrow> if node_end n > key then Some (rm_set_value s f m) else None)"

definition rm_get_key_value_mut ::
  "'u::linorder \<Rightarrow> ('v \<Rightarrow> 'v) \<Rightarrow> ('u, 'v) range_map \<Rightarrow> ('u rng \<times> ('u, 'v) range_map) option" where
  "rm_get_key_value_mut key f m =
     (case bt_last_le key m of
        None \<Rightarrow> None
      | Some (s, n) \<Rightarrow>
          if node_end n > key then Some ((s, node_end n), rm_set_value s f m) else None)"

text \<open>
  The loop of \<^verbatim>\<open>find_free_range\<close> over the nodes that start in the searched range:
  \<open>None\<close> is the early \<^verbatim>\<open>return None\<close>, \<open>Some e\<close> the value of \<^verbatim>\<open>last_end\<close> after the loop.
\<close>

fun free_scan ::
  "('u::linorder \<Rightarrow> nat \<Rightarrow> 'u) \<Rightarrow> nat \<Rightarrow> 'u \<Rightarrow> 'u \<Rightarrow> ('u, 'v) range_map \<Rightarrow> 'u option" where
  "free_scan add sz hi last_end [] = Some last_end"
| "free_scan add sz hi last_end ((n_start, n) # ns) =
     (if add last_end sz \<le> n_start then Some last_end
      else if add (node_end n) sz > hi then None
      else free_scan add sz hi (node_end n) ns)"

definition scan_start :: "'u::linorder \<Rightarrow> ('u, 'v) range_map \<Rightarrow> 'u" where
  "scan_start a m =
     (case bt_last_le a m of
        Some (n_start, n) \<Rightarrow> if node_end n > a then min a n_start else a
      | None \<Rightarrow> a)"

definition rm_find_free_range ::
  "('u::linorder \<Rightarrow> nat \<Rightarrow> 'u) \<Rightarrow> 'u rng \<Rightarrow> nat \<Rightarrow> ('u, 'v) range_map \<Rightarrow> 'u rng option option" where
  "rm_find_free_range add r sz m =
     (if add (fst r) sz > snd r then Some None
      else
        let start = scan_start (fst r) m
        in case bt_range start (snd r) m of
             None \<Rightarrow> panic
           | Some ns \<Rightarrow>
               Some (map_option (\<lambda>e. (e, add e sz)) (free_scan add sz (snd r) start ns)))"

definition rm_is_range_free :: "'u::linorder rng \<Rightarrow> ('u, 'v) range_map \<Rightarrow> unit + unit" where
  "rm_is_range_free r m =
     (if rng_is_empty r then Inl ()
      else if (case bt_last_le (fst r) m of Some (_, n) \<Rightarrow> node_end n > fst r | None \<Rightarrow> False)
      then Inl ()
      else case bt_range (fst r) (snd r) m of
             Some (_ # _) \<Rightarrow> Inl ()
           | _ \<Rightarrow> Inr ())"

definition rm_range_contain_key_value ::
  "'u::linorder rng \<Rightarrow> ('u, 'v) range_map \<Rightarrow> ('u rng \<times> 'v) option" where
  "rm_range_contain_key_value r m =
     (case bt_last_le (fst r) m of
        None \<Rightarrow> None
      | Some (s, n) \<Rightarrow> if node_end n \<ge> snd r then Some ((s, node_end n), node_value n) else None)"

definition rm_range_contain :: "'u::linorder rng \<Rightarrow> ('u, 'v) range_map \<Rightarrow> 'v option" where
  "rm_range_contain r m =
     (case bt_last_le (fst r) m of
        None \<Rightarrow> None
      | Some (_, n) \<Rightarrow> if node_end n \<ge> snd r then Some (node_value n) else None)"

definition rm_range_contain_mut ::
  "'u::linorder rng \<Rightarrow> ('v \<Rightarrow> 'v) \<Rightarrow> ('u, 'v) range_map \<Rightarrow> ('u, 'v) range_map option" where
  "rm_range_contain_mut r f m =
     (case bt_last_le (fst r) m of
        None \<Rightarrow> None
      | Some (s, n) \<Rightarrow> if node_end n \<ge> snd r then Some (rm_set_value s f m) else None)"

definition rm_range_contain_key_value_mut ::
  "'u::linorder rng \<Rightarrow> ('v \<Rightarrow> 'v) \<Rightarrow> ('u, 'v) range_map \<Rightarrow> ('u rng \<times> ('u, 'v) range_map) option" where
  "rm_range_contain_key_value_mut r f m =
     (case bt_last_le (fst r) m of
        None \<Rightarrow> None
      | Some (s, n) \<Rightarrow>
          if node_end n \<ge> snd r then Some ((s, node_end n), rm_set_value s f m) else None)"

definition rm_range_match :: "'u::linorder rng \<Rightarrow> ('u, 'v) range_map \<Rightarrow> 'v option" where
  "rm_range_match r m =
     (case bt_last_le (fst r) m of
        None \<Rightarrow> None
      | Some (s, n) \<Rightarrow>
          if s = fst r \<and> node_end n = snd r then Some (node_value n) else None)"

definition rm_force_remove_one ::
  "'u rng \<Rightarrow> ('u, 'v) range_map \<Rightarrow> ('v \<times> ('u, 'v) range_map) option" where
  "rm_force_remove_one r m =
     (case bt_get m (fst r) of
        None \<Rightarrow> panic
      | Some n \<Rightarrow>
          if node_end n = snd r then Some (node_value n, bt_remove (fst r) m) else panic)"

definition rm_set_end :: "'u \<Rightarrow> 'u \<Rightarrow> ('u, 'v) range_map \<Rightarrow> ('u, 'v) range_map" where
  "rm_set_end s e m = bt_get_mut s (\<lambda>n. n\<lparr>node_end := e\<rparr>) m"

definition rm_extend_back ::
  "'u::linorder rng \<Rightarrow> ('u, 'v) range_map \<Rightarrow> (unit + ('u, 'v) range_map) option" where
  "rm_extend_back r m =
     (case bt_get m (fst r) of
        None \<Rightarrow> panic
      | Some n \<Rightarrow>
          (case rm_is_range_free (node_end n, snd r) m of
             Inl _ \<Rightarrow> Some (Inl ())
           | Inr _ \<Rightarrow> Some (Inr (rm_set_end (fst r) (snd r) m))))"

definition rm_reduce_back ::
  "'u::linorder rng \<Rightarrow> ('u, 'v) range_map \<Rightarrow> (unit + ('u, 'v) range_map) option" where
  "rm_reduce_back r m =
     (case bt_get m (fst r) of
        None \<Rightarrow> panic
      | Some n \<Rightarrow>
          if fst r \<le> snd r \<and> snd r < node_end n then
            (if fst r = snd r then Some (Inr (bt_remove (fst r) m))
             else Some (Inr (rm_set_end (fst r) (snd r) m)))
          else Some (Inl ()))"

definition rm_range_intersect_key_value ::
  "'u::linorder rng \<Rightarrow> ('u, 'v) range_map \<Rightarrow> ('u rng \<times> 'v) option" where
  "rm_range_intersect_key_value r m =
     (case bt_last_lt (snd r) m of
        Some (s, n) \<Rightarrow>
          if node_end n > fst r then Some ((s, node_end n), node_value n) else None
      | None \<Rightarrow> None)"

definition rm_range_intersect :: "'u::linorder rng \<Rightarrow> ('u, 'v) range_map \<Rightarrow> 'v option" where
  "rm_range_intersect r m =
     (case bt_last_lt (snd r) m of
        Some (_, n) \<Rightarrow> if node_end n > fst r then Some (node_value n) else None
      | None \<Rightarrow> None)"

definition rm_range_intersect_mut ::
  "'u::linorder rng \<Rightarrow> ('v \<Rightarrow> 'v) \<Rightarrow> ('u, 'v) range_map \<Rightarrow> ('u, 'v) range_map option" where
  "rm_range_intersect_mut r f m =
     (case bt_last_lt (snd r) m of
        Some (s, n) \<Rightarrow> if node_end n > fst r then Some (rm_set_value s f m) else None
      | None \<Rightarrow> None)"

definition rm_range_intersect_key_value_mut ::
  "'u::linorder rng \<Rightarrow> ('v \<Rightarrow> 'v) \<Rightarrow> ('u, 'v) range_map \<Rightarrow> ('u rng \<times> ('u, 'v) range_map) option" where
  "rm_range_intersect_key_value_mut r f m =
     (case bt_last_lt (snd r) m of
        Some (s, n) \<Rightarrow>
          if node_end n > fst r then Some ((s, node_end n), rm_set_value s f m) else None
      | None \<Rightarrow> None)"

definition rm_iter :: "('u, 'v) range_map \<Rightarrow> ('u rng \<times> 'v) list" where
  "rm_iter m = map (\<lambda>(s, n). ((s, node_end n), node_value n)) m"

definition rm_iter_mut :: "('u rng \<Rightarrow> 'v \<Rightarrow> 'v) \<Rightarrow> ('u, 'v) range_map \<Rightarrow> ('u, 'v) range_map" where
  "rm_iter_mut f m = map (\<lambda>(s, n). (s, n\<lparr>node_value := f (s, node_end n) (node_value n)\<rparr>)) m"

definition rm_range ::
  "'u::linorder rng \<Rightarrow> ('u, 'v) range_map \<Rightarrow> ('u rng \<times> 'v) list option" where
  "rm_range r m = map_option rm_iter (bt_range (fst r) (snd r) m)"

definition rm_range_mut ::
  "'u::linorder rng \<Rightarrow> ('u rng \<Rightarrow> 'v \<Rightarrow> 'v) \<Rightarrow> ('u, 'v) range_map \<Rightarrow> ('u, 'v) range_map option" where
  "rm_range_mut r f m =
     (if snd r < fst r then panic
      else Some (map (\<lambda>(s, n). if fst r \<le> s \<and> s < snd r
                        then (s, n\<lparr>node_value := f (s, node_end n) (node_value n)\<rparr>)
                        else (s, n)) m))"

section \<open>Invariant and abstraction\<close>

text \<open>
  Ranges are non-empty and pairwise disjoint; the abstract value of a range map is the
  partial function that sends each key to the value of the range that covers it.
\<close>

definition rm_inv :: "('u::linorder, 'v) range_map \<Rightarrow> bool" where
  "rm_inv m \<longleftrightarrow>
     bt_wf m \<and> (\<forall>p \<in> set m. fst p < node_end (snd p)) \<and>
     (\<forall>p \<in> set m. \<forall>q \<in> set m. fst p < fst q \<longrightarrow> node_end (snd p) \<le> fst q)"

definition rm_abs :: "('u::linorder, 'v) range_map \<Rightarrow> 'u \<Rightarrow> 'v option" where
  "rm_abs m k =
     map_option (node_value \<circ> snd) (find (\<lambda>(s, n). s \<le> k \<and> k < node_end n) m)"

definition rm_overlaps :: "'u::linorder rng \<Rightarrow> ('u, 'v) range_map \<Rightarrow> bool" where
  "rm_overlaps r m \<longleftrightarrow> (\<exists>p \<in> set m. fst p < snd r \<and> fst r < node_end (snd p))"

lemma rm_invD:
  assumes "rm_inv m"
  shows "bt_wf m"
    and "p \<in> set m \<Longrightarrow> fst p < node_end (snd p)"
    and "p \<in> set m \<Longrightarrow> q \<in> set m \<Longrightarrow> fst p < fst q \<Longrightarrow> node_end (snd p) \<le> fst q"
  using assms by (auto simp: rm_inv_def)

lemma rm_inv_new [simp]: "rm_inv rm_new"
  by (simp add: rm_inv_def rm_new_def)

lemma rm_inv_subset: "rm_inv m \<Longrightarrow> bt_wf m' \<Longrightarrow> set m' \<subseteq> set m \<Longrightarrow> rm_inv m'"
  unfolding rm_inv_def by blast

lemma rm_inv_same_node:
  assumes "rm_inv m" "p \<in> set m" "q \<in> set m" "fst p \<le> k" "k < node_end (snd p)"
    "fst q \<le> k" "k < node_end (snd q)"
  shows "p = q"
proof -
  have "fst p = fst q"
    using rm_invD(3) [OF assms(1), of p q] rm_invD(3) [OF assms(1), of q p] assms(2-7)
    by (cases "fst p" "fst q" rule: linorder_cases) auto
  then show ?thesis
    using bt_wf_unique [OF rm_invD(1) [OF assms(1)]] assms(2,3) by (cases p, cases q) auto
qed

lemma rm_abs_Some:
  assumes "rm_inv m"
  shows "rm_abs m k = Some v \<longleftrightarrow>
    (\<exists>s n. (s, n) \<in> set m \<and> s \<le> k \<and> k < node_end n \<and> node_value n = v)"
proof
  assume "rm_abs m k = Some v"
  then show "\<exists>s n. (s, n) \<in> set m \<and> s \<le> k \<and> k < node_end n \<and> node_value n = v"
    by (auto simp: rm_abs_def dest!: find_SomeD)
next
  assume "\<exists>s n. (s, n) \<in> set m \<and> s \<le> k \<and> k < node_end n \<and> node_value n = v"
  then obtain s n where sn: "(s, n) \<in> set m" "s \<le> k" "k < node_end n" "node_value n = v"
    by blast
  obtain p where p: "find (\<lambda>(s, n). s \<le> k \<and> k < node_end n) m = Some p"
    using sn by (cases "find (\<lambda>(s, n). s \<le> k \<and> k < node_end n) m")
      (auto simp: find_None_iff)
  then have "p \<in> set m" "fst p \<le> k" "k < node_end (snd p)"
    by (auto dest!: find_SomeD)
  then have "p = (s, n)"
    using rm_inv_same_node [OF assms _ sn(1), of p k] sn by simp
  then show "rm_abs m k = Some v"
    using p sn(4) by (simp add: rm_abs_def)
qed

lemma rm_abs_None:
  "rm_abs m k = None \<longleftrightarrow> (\<forall>p \<in> set m. \<not> (fst p \<le> k \<and> k < node_end (snd p)))"
  by (auto simp: rm_abs_def find_None_iff)

section \<open>Queries\<close>

lemma last_le_covers:
  assumes "rm_inv m"
  shows "(case bt_last_le k m of Some (_, n) \<Rightarrow> k < node_end n | None \<Rightarrow> False) \<longleftrightarrow>
    (\<exists>p \<in> set m. fst p \<le> k \<and> k < node_end (snd p))"
proof (cases "bt_last_le k m")
  case None
  moreover have "\<forall>p \<in> set m. k < fst p" using None bt_last_le_None by blast
  ultimately show ?thesis by fastforce
next
  case (Some sn)
  obtain s n where sn: "sn = (s, n)" by (cases sn)
  note last = bt_last_le_Some [OF rm_invD(1) [OF assms] Some [unfolded sn]]
  have "k < node_end n" if p: "p \<in> set m" "fst p \<le> k" "k < node_end (snd p)" for p
  proof (cases "fst p = s")
    case True
    then show ?thesis
      using bt_wf_unique [OF rm_invD(1) [OF assms]] last(1) p by (cases p) auto
  next
    case False
    then have "node_end (snd p) \<le> s"
      using last p rm_invD(3) [OF assms p(1) last(1)] by fastforce
    then show ?thesis using last(2) p(3) by simp
  qed
  then show ?thesis
    using Some sn last(1,2) by force
qed

lemma last_lt_overlaps:
  assumes "rm_inv m"
  shows "(case bt_last_lt b m of Some (_, n) \<Rightarrow> a < node_end n | None \<Rightarrow> False) \<longleftrightarrow>
    rm_overlaps (a, b) m"
proof (cases "bt_last_lt b m")
  case None
  moreover have "\<forall>p \<in> set m. b \<le> fst p" using None bt_last_lt_None by blast
  ultimately show ?thesis by (fastforce simp: rm_overlaps_def)
next
  case (Some sn)
  obtain s n where sn: "sn = (s, n)" by (cases sn)
  note last = bt_last_lt_Some [OF rm_invD(1) [OF assms] Some [unfolded sn]]
  have "a < node_end n" if p: "p \<in> set m" "fst p < b" "a < node_end (snd p)" for p
  proof (cases "fst p = s")
    case True
    then show ?thesis
      using bt_wf_unique [OF rm_invD(1) [OF assms]] last(1) p by (cases p) auto
  next
    case False
    then have "node_end (snd p) \<le> s"
      using last p rm_invD(3) [OF assms p(1) last(1)] by fastforce
    then show ?thesis using rm_invD(2) [OF assms last(1)] p(3) by simp
  qed
  then show ?thesis
    using Some sn last(1,2) by (force simp: rm_overlaps_def)
qed

lemma rm_get_abs: "rm_inv m \<Longrightarrow> rm_get k m = rm_abs m k"
proof (cases "bt_last_le k m")
  case None
  assume "rm_inv m"
  with None show ?thesis
    using last_le_covers [of m k] by (simp add: rm_get_def) (metis rm_abs_None)
next
  case (Some sn)
  assume inv: "rm_inv m"
  obtain s n where sn: "sn = (s, n)" by (cases sn)
  note last = bt_last_le_Some [OF rm_invD(1) [OF inv] Some [unfolded sn]]
  show ?thesis
  proof (cases "k < node_end n")
    case True
    then have "rm_abs m k = Some (node_value n)"
      using rm_abs_Some [OF inv] last by blast
    with True Some sn show ?thesis by (simp add: rm_get_def)
  next
    case False
    then have "rm_abs m k = None"
      using last_le_covers [OF inv, of k] Some sn rm_abs_None [of m k] by simp
    with False Some sn show ?thesis by (simp add: rm_get_def)
  qed
qed

lemma node_eta [simp]: "\<lparr>node_end = node_end n, node_value = node_value n\<rparr> = n"
  by (cases n) simp

lemma rm_get_key_value_iff:
  assumes "rm_inv m"
  shows "rm_get_key_value k m = Some ((s, e), v) \<longleftrightarrow>
    (s, \<lparr>node_end = e, node_value = v\<rparr>) \<in> set m \<and> s \<le> k \<and> k < e"
proof -
  have fwd: "(s, \<lparr>node_end = e, node_value = v\<rparr>) \<in> set m \<and> s \<le> k \<and> k < e"
    if "rm_get_key_value k m = Some ((s, e), v)" for s e v
    using that bt_last_le_Some [OF rm_invD(1) [OF assms]]
    by (auto simp: rm_get_key_value_def split: option.splits if_splits)
  have total: "\<exists>s' e' v'. rm_get_key_value k m = Some ((s', e'), v')"
    if "(s, \<lparr>node_end = e, node_value = v\<rparr>) \<in> set m" "s \<le> k" "k < e"
    using last_le_covers [OF assms, of k] that
    by (force simp: rm_get_key_value_def split: option.splits)
  show ?thesis
    using fwd total rm_inv_same_node [OF assms, of _ _ k] by fastforce
qed

lemma rm_is_range_free_iff:
  assumes "rm_inv m"
  shows "rm_is_range_free (a, b) m = Inr () \<longleftrightarrow> a < b \<and> \<not> rm_overlaps (a, b) m"
proof (cases "a < b")
  case False
  then show ?thesis by (simp add: rm_is_range_free_def rng_is_empty_def)
next
  case True
  have first: "(\<exists>p \<in> set m. fst p \<le> a \<and> a < node_end (snd p)) \<or>
      (\<exists>p \<in> set m. a \<le> fst p \<and> fst p < b) \<longleftrightarrow> rm_overlaps (a, b) m"
  proof
    assume "(\<exists>p \<in> set m. fst p \<le> a \<and> a < node_end (snd p)) \<or>
      (\<exists>p \<in> set m. a \<le> fst p \<and> fst p < b)"
    then show "rm_overlaps (a, b) m"
      using True rm_invD(2) [OF assms] unfolding rm_overlaps_def by force
  next
    assume "rm_overlaps (a, b) m"
    then show "(\<exists>p \<in> set m. fst p \<le> a \<and> a < node_end (snd p)) \<or>
      (\<exists>p \<in> set m. a \<le> fst p \<and> fst p < b)"
      unfolding rm_overlaps_def by (metis fst_conv snd_conv linear)
  qed
  have rest: "filter (\<lambda>(x, _). a \<le> x \<and> x < b) m = [] \<longleftrightarrow>
      \<not> (\<exists>p \<in> set m. a \<le> fst p \<and> fst p < b)"
    by (auto simp: filter_empty_conv)
  show ?thesis
    unfolding first [symmetric] last_le_covers [OF assms, of a, symmetric]
    unfolding rm_is_range_free_def fst_conv snd_conv
    using True rest
    by (cases "filter (\<lambda>(x, _). a \<le> x \<and> x < b) m")
      (auto simp: rng_is_empty_def bt_range_Some)
qed

section \<open>Insertion\<close>

lemma rm_abs_insert:
  fixes v :: 'v and m :: "('u::linorder, 'v) range_map"
  assumes inv: "rm_inv m" and ab: "a < b" and free: "\<not> rm_overlaps (a, b) m"
  defines "m' \<equiv> bt_insert a \<lparr>node_end = b, node_value = v\<rparr> m"
  shows "rm_inv m'" and "rm_abs m' k = (if a \<le> k \<and> k < b then Some v else rm_abs m k)"
proof -
  have disj: "b \<le> fst p \<or> node_end (snd p) \<le> a" if "p \<in> set m" for p
    using free that by (auto simp: rm_overlaps_def not_less)
  have sets: "set m' = insert (a, \<lparr>node_end = b, node_value = v\<rparr>) (set m)"
    using set_bt_insert [OF rm_invD(1) [OF inv]] disj ab rm_invD(2) [OF inv]
    unfolding m'_def by fastforce
  have wf: "bt_wf m'"
    using rm_invD(1) [OF inv] by (auto simp: m'_def)
  show inv': "rm_inv m'"
    unfolding rm_inv_def sets using wf ab rm_invD(2,3) [OF inv] disj by fastforce
  show "rm_abs m' k = (if a \<le> k \<and> k < b then Some v else rm_abs m k)"
  proof (cases "a \<le> k \<and> k < b")
    case True
    then have "rm_abs m' k = Some v"
      unfolding rm_abs_Some [OF inv']
      by (intro exI [of _ a] exI [of _ "\<lparr>node_end = b, node_value = v\<rparr>"]) (simp add: sets)
    with True show ?thesis by simp
  next
    case False
    then have "rm_abs m' k = Some w \<longleftrightarrow> rm_abs m k = Some w" for w
      unfolding rm_abs_Some [OF inv'] rm_abs_Some [OF inv] sets by auto
    with False show ?thesis by (metis (full_types) not_None_eq)
  qed
qed

lemma rm_try_insert_free:
  assumes "rm_inv m" "a < b" "\<not> rm_overlaps (a, b) m"
  shows "rm_try_insert (a, b) v m = Some (Inr (bt_insert a \<lparr>node_end = b, node_value = v\<rparr> m))"
proof -
  have "bt_get m a = None"
    using assms rm_invD(2) [OF assms(1)] by (fastforce simp: bt_get_None rm_overlaps_def)
  then show ?thesis
    using last_lt_overlaps [OF assms(1), where a = a and b = b] assms(3)
    by (auto simp: rm_try_insert_def Let_def split: option.splits)
qed

lemma rm_try_insert_overlap:
  assumes "rm_inv m" "rm_overlaps (a, b) m"
  shows "rm_try_insert (a, b) v m = Some (Inl v)"
  using last_lt_overlaps [OF assms(1), where a = a and b = b] assms(2)
  by (auto simp: rm_try_insert_def Let_def split: option.splits)

lemma rm_overlaps_abs:
  assumes "rm_inv m" "a < b"
  shows "rm_overlaps (a, b) m \<longleftrightarrow> (\<exists>k. a \<le> k \<and> k < b \<and> rm_abs m k \<noteq> None)"
proof
  assume "rm_overlaps (a, b) m"
  then obtain p where p: "p \<in> set m" "fst p < b" "a < node_end (snd p)"
    by (auto simp: rm_overlaps_def)
  have "rm_abs m (max a (fst p)) \<noteq> None"
    unfolding rm_abs_None using p rm_invD(2) [OF assms(1) p(1)] by auto
  moreover have "a \<le> max a (fst p)" "max a (fst p) < b"
    using p(2) assms(2) by simp_all
  ultimately show "\<exists>k. a \<le> k \<and> k < b \<and> rm_abs m k \<noteq> None"
    by blast
next
  assume "\<exists>k. a \<le> k \<and> k < b \<and> rm_abs m k \<noteq> None"
  then obtain k where k: "a \<le> k" "k < b" "rm_abs m k \<noteq> None"
    by blast
  then obtain p where p: "p \<in> set m" "fst p \<le> k" "k < node_end (snd p)"
    unfolding rm_abs_None by blast
  then have "fst p < b" "a < node_end (snd p)" using k by auto
  with p(1) show "rm_overlaps (a, b) m"
    unfolding rm_overlaps_def fst_conv snd_conv by blast
qed

section \<open>Removal and resizing\<close>

lemma rm_abs_eqI:
  assumes "rm_inv m" "rm_inv m'" "\<And>v. rm_abs m k = Some v \<longleftrightarrow> rm_abs m' k = Some v"
  shows "rm_abs m k = rm_abs m' k"
  using assms(3) by (metis (full_types) not_None_eq)

lemma rm_remove_node:
  assumes inv: "rm_inv m" and sn: "(s, n) \<in> set m"
  shows "rm_inv (bt_remove s m)"
    and "rm_abs (bt_remove s m) k = (if s \<le> k \<and> k < node_end n then None else rm_abs m k)"
proof -
  show inv': "rm_inv (bt_remove s m)"
    using rm_inv_subset [OF inv bt_wf_remove [OF rm_invD(1) [OF inv]]] by auto
  show "rm_abs (bt_remove s m) k = (if s \<le> k \<and> k < node_end n then None else rm_abs m k)"
  proof (cases "s \<le> k \<and> k < node_end n")
    case True
    then have "fst p = s" if "p \<in> set m" "fst p \<le> k" "k < node_end (snd p)" for p
      using rm_inv_same_node [OF inv sn that(1), of k] that(2,3) by auto
    then have "rm_abs (bt_remove s m) k = None"
      unfolding rm_abs_None by auto
    with True show ?thesis by simp
  next
    case False
    have "q = n" if "(s, q) \<in> set m" for q
      using bt_wf_unique [OF rm_invD(1) [OF inv]] sn that by blast
    with False have "rm_abs (bt_remove s m) k = rm_abs m k"
      by (intro rm_abs_eqI [OF inv' inv]) (auto simp: rm_abs_Some [OF inv'] rm_abs_Some [OF inv])
    with False show ?thesis by auto
  qed
qed

lemma rm_force_remove_one_ok:
  "rm_inv m \<Longrightarrow> (s, n) \<in> set m \<Longrightarrow>
    rm_force_remove_one (s, node_end n) m = Some (node_value n, bt_remove s m)"
  by (simp add: rm_force_remove_one_def rm_invD(1) bt_get_iff [THEN iffD2])

lemma set_rm_set_end:
  "bt_wf m \<Longrightarrow> (s, n) \<in> set m \<Longrightarrow>
    set (rm_set_end s e m) = insert (s, n\<lparr>node_end := e\<rparr>) {p \<in> set m. fst p \<noteq> s}"
  unfolding rm_set_end_def by (rule set_bt_get_mut)

lemma set_rm_set_value:
  "bt_wf m \<Longrightarrow> (s, n) \<in> set m \<Longrightarrow>
    set (rm_set_value s f m) =
      insert (s, n\<lparr>node_value := f (node_value n)\<rparr>) {p \<in> set m. fst p \<noteq> s}"
  unfolding rm_set_value_def by (rule set_bt_get_mut)

lemma rm_set_end_ok:
  assumes inv: "rm_inv m" and sn: "(s, n) \<in> set m" and e: "s < e"
    and free: "node_end n < e \<Longrightarrow> \<not> rm_overlaps (node_end n, e) m"
  shows "rm_inv (rm_set_end s e m)"
    and "rm_abs (rm_set_end s e m) k =
      (if s \<le> k \<and> k < e then Some (node_value n)
       else if s \<le> k \<and> k < node_end n then None else rm_abs m k)"
proof -
  note sets = set_rm_set_end [OF rm_invD(1) [OF inv] sn, of e]
  have after: "e \<le> fst p" if "p \<in> set m" "s < fst p" for p
  proof (cases "node_end n < e")
    case True
    have "node_end n \<le> fst p" using rm_invD(3) [OF inv sn that(1)] that(2) by simp
    then show ?thesis
      using free [OF True] that rm_invD(2) [OF inv that(1)]
      by (auto simp: rm_overlaps_def not_less)
  next
    case False
    then show ?thesis using rm_invD(3) [OF inv sn that(1)] that(2) by simp
  qed
  have wf: "bt_wf (rm_set_end s e m)"
    using rm_invD(1) [OF inv] by (auto simp: rm_set_end_def)
  show inv': "rm_inv (rm_set_end s e m)"
    unfolding rm_inv_def sets
  proof (intro conjI ballI impI)
    fix p q
    assume "p \<in> insert (s, n\<lparr>node_end := e\<rparr>) {p \<in> set m. fst p \<noteq> s}"
      and "q \<in> insert (s, n\<lparr>node_end := e\<rparr>) {p \<in> set m. fst p \<noteq> s}" and "fst p < fst q"
    then show "node_end (snd p) \<le> fst q"
      using after [of q] rm_invD(3) [OF inv, of p q] rm_invD(3) [OF inv _ sn, of p] by auto
  qed (use wf e rm_invD(2) [OF inv] in auto)
  have uniq: "q = n" if "(s, q) \<in> set m" for q
    using bt_wf_unique [OF rm_invD(1) [OF inv]] sn that by blast
  show "rm_abs (rm_set_end s e m) k =
      (if s \<le> k \<and> k < e then Some (node_value n)
       else if s \<le> k \<and> k < node_end n then None else rm_abs m k)"
  proof (cases "s \<le> k \<and> k < e")
    case True
    then have "rm_abs (rm_set_end s e m) k = Some (node_value n)"
      unfolding rm_abs_Some [OF inv']
      by (intro exI [of _ s] exI [of _ "n\<lparr>node_end := e\<rparr>"]) (simp add: sets)
    with True show ?thesis by simp
  next
    case notin: False
    show ?thesis
    proof (cases "s \<le> k \<and> k < node_end n")
      case True
      then have "fst p = s" if "p \<in> set m" "fst p \<le> k" "k < node_end (snd p)" for p
        using rm_inv_same_node [OF inv sn that(1), of k] that(2,3) by auto
      then have "rm_abs (rm_set_end s e m) k = None"
        using notin unfolding rm_abs_None sets by fastforce
      with True notin show ?thesis by auto
    next
      case False
      then have "rm_abs (rm_set_end s e m) k = rm_abs m k"
        using notin uniq
        by (intro rm_abs_eqI [OF inv' inv])
          (auto simp: rm_abs_Some [OF inv'] rm_abs_Some [OF inv] sets)
      with False notin show ?thesis by auto
    qed
  qed
qed

lemma rm_set_value_ok:
  assumes inv: "rm_inv m" and sn: "(s, n) \<in> set m"
  shows "rm_inv (rm_set_value s f m)"
    and "rm_abs (rm_set_value s f m) k =
      (if s \<le> k \<and> k < node_end n then Some (f (node_value n)) else rm_abs m k)"
proof -
  note sets = set_rm_set_value [OF rm_invD(1) [OF inv] sn, of f]
  have wf: "bt_wf (rm_set_value s f m)"
    using rm_invD(1) [OF inv] by (auto simp: rm_set_value_def)
  show inv': "rm_inv (rm_set_value s f m)"
    unfolding rm_inv_def sets
  proof (intro conjI ballI impI)
    fix p q
    assume "p \<in> insert (s, n\<lparr>node_value := f (node_value n)\<rparr>) {p \<in> set m. fst p \<noteq> s}"
      and "q \<in> insert (s, n\<lparr>node_value := f (node_value n)\<rparr>) {p \<in> set m. fst p \<noteq> s}"
      and "fst p < fst q"
    then show "node_end (snd p) \<le> fst q"
      using rm_invD(3) [OF inv sn, of q] rm_invD(3) [OF inv, of p q] rm_invD(3) [OF inv _ sn, of p]
      by auto
  qed (use wf sn rm_invD(2) [OF inv] in auto)
  have uniq: "q = n" if "(s, q) \<in> set m" for q
    using bt_wf_unique [OF rm_invD(1) [OF inv]] sn that by blast
  show "rm_abs (rm_set_value s f m) k =
      (if s \<le> k \<and> k < node_end n then Some (f (node_value n)) else rm_abs m k)"
  proof (cases "s \<le> k \<and> k < node_end n")
    case True
    then have "rm_abs (rm_set_value s f m) k = Some (f (node_value n))"
      unfolding rm_abs_Some [OF inv']
      by (intro exI [of _ s] exI [of _ "n\<lparr>node_value := f (node_value n)\<rparr>"]) (simp add: sets)
    with True show ?thesis by simp
  next
    case False
    then have "rm_abs (rm_set_value s f m) k = rm_abs m k"
      using uniq
      by (intro rm_abs_eqI [OF inv' inv])
        (auto simp: rm_abs_Some [OF inv'] rm_abs_Some [OF inv] sets)
    with False show ?thesis by auto
  qed
qed

section \<open>First-fit search\<close>

definition rm_fits ::
  "('u::linorder \<Rightarrow> nat \<Rightarrow> 'u) \<Rightarrow> 'u rng \<Rightarrow> nat \<Rightarrow> ('u, 'v) range_map \<Rightarrow> 'u \<Rightarrow> bool" where
  "rm_fits add r sz m lo \<longleftrightarrow>
     fst r \<le> lo \<and> lo \<le> snd r \<and> add lo sz \<le> snd r \<and> \<not> rm_overlaps (lo, add lo sz) m"

text \<open>
  Adding the wanted size does not wrap around on keys up to \<open>B\<close>: it is increasing and
  monotone there.
\<close>

definition wrap_free :: "('u::linorder \<Rightarrow> nat \<Rightarrow> 'u) \<Rightarrow> nat \<Rightarrow> 'u \<Rightarrow> bool" where
  "wrap_free add sz B \<longleftrightarrow>
     (\<forall>x. x \<le> B \<longrightarrow> x < add x sz) \<and> (\<forall>x y. x \<le> y \<longrightarrow> y \<le> B \<longrightarrow> add x sz \<le> add y sz)"

lemma wrap_freeD:
  assumes "wrap_free add sz B"
  shows "x \<le> B \<Longrightarrow> x < add x sz" and "x \<le> y \<Longrightarrow> y \<le> B \<Longrightarrow> add x sz \<le> add y sz"
  using assms by (auto simp: wrap_free_def)

lemma rm_overlaps_Cons:
  "rm_overlaps (a, b) ((s, n) # m) \<longleftrightarrow> s < b \<and> a < node_end n \<or> rm_overlaps (a, b) m"
  by (auto simp: rm_overlaps_def)

lemma rm_inv_ConsD:
  assumes "rm_inv ((s, n) # m)"
  shows "rm_inv m" and "s < node_end n" and "p \<in> set m \<Longrightarrow> node_end n \<le> fst p"
proof -
  show "rm_inv m"
    using rm_inv_subset [OF assms, of m] rm_invD(1) [OF assms] by auto
  show "s < node_end n"
    using rm_invD(2) [OF assms, of "(s, n)"] by simp
  show "node_end n \<le> fst p" if "p \<in> set m"
    using rm_invD(3) [OF assms, of "(s, n)" p] rm_invD(1) [OF assms] that by auto
qed

lemma free_scan_ok:
  assumes wrap: "wrap_free add sz B" and hi: "hi \<le> B"
  shows "rm_inv ns \<Longrightarrow> \<forall>p \<in> set ns. le \<le> fst p \<and> fst p < hi \<and> node_end (snd p) \<le> B \<Longrightarrow>
    le \<le> B \<Longrightarrow> add le sz \<le> hi \<Longrightarrow>
    (case free_scan add sz hi le ns of
       Some e \<Rightarrow> le \<le> e \<and> e \<le> B \<and> add e sz \<le> hi \<and> \<not> rm_overlaps (e, add e sz) ns \<and>
         (\<forall>lo. le \<le> lo \<longrightarrow> lo \<le> B \<longrightarrow> add lo sz \<le> hi \<longrightarrow> \<not> rm_overlaps (lo, add lo sz) ns \<longrightarrow> e \<le> lo)
     | None \<Rightarrow> \<forall>lo. le \<le> lo \<longrightarrow> lo \<le> B \<longrightarrow> add lo sz \<le> hi \<longrightarrow> rm_overlaps (lo, add lo sz) ns)"
proof (induction ns arbitrary: le)
  case Nil
  then show ?case by (simp add: rm_overlaps_def)
next
  case (Cons sn ns)
  obtain s n where sn: "sn = (s, n)" by (cases sn)
  note inv = Cons.prems(1) [unfolded sn]
  have bounds: "le \<le> s" "s < hi" "node_end n \<le> B"
    using Cons.prems(2) by (auto simp: sn)
  show ?case
  proof (cases "add le sz \<le> s")
    case True
    have "\<not> rm_overlaps (le, add le sz) ((s, n) # ns)"
      using True rm_inv_ConsD(2,3) [OF inv] by (force simp: rm_overlaps_def)
    with True Cons.prems(3,4) show ?thesis by (simp add: sn)
  next
    case no_gap: False
    have reach: "s < add lo sz" if "le \<le> lo" "lo \<le> B" for lo
      using no_gap wrap_freeD(2) [OF wrap that] by simp
    show ?thesis
    proof (cases "hi < add (node_end n) sz")
      case True
      have "lo < node_end n" if "lo \<le> B" "add lo sz \<le> hi" for lo
        using wrap_freeD(2) [OF wrap _ that(1), of "node_end n"] True that(2) by force
      with True no_gap reach show ?thesis
        by (simp add: sn rm_overlaps_Cons)
    next
      case False
      have IH: "case free_scan add sz hi (node_end n) ns of
         Some e \<Rightarrow> node_end n \<le> e \<and> e \<le> B \<and> add e sz \<le> hi \<and> \<not> rm_overlaps (e, add e sz) ns \<and>
           (\<forall>lo. node_end n \<le> lo \<longrightarrow> lo \<le> B \<longrightarrow> add lo sz \<le> hi \<longrightarrow>
             \<not> rm_overlaps (lo, add lo sz) ns \<longrightarrow> e \<le> lo)
       | None \<Rightarrow> \<forall>lo. node_end n \<le> lo \<longrightarrow> lo \<le> B \<longrightarrow> add lo sz \<le> hi \<longrightarrow>
           rm_overlaps (lo, add lo sz) ns"
        using Cons.IH [of "node_end n"] rm_inv_ConsD [OF inv] Cons.prems(2) bounds(3) False
        by (auto simp: sn)
      have step: "free_scan add sz hi le ((s, n) # ns) = free_scan add sz hi (node_end n) ns"
        using no_gap False by (simp add: sn)
      have "le \<le> node_end n"
        using bounds(1) rm_inv_ConsD(2) [OF inv] by simp
      then show ?thesis
        using IH reach unfolding sn step
        by (cases "free_scan add sz hi (node_end n) ns") (auto simp: rm_overlaps_Cons not_less, meson leI)
    qed
  qed
qed

text \<open>The start of the scan covers the node that straddles the start of the range, if any.\<close>

lemma scan_start_cases:
  assumes inv: "rm_inv m"
  obtains "scan_start a m = a" "\<forall>p \<in> set m. fst p < a \<longrightarrow> node_end (snd p) \<le> a"
  | n where "scan_start a m \<le> a" "(scan_start a m, n) \<in> set m" "a < node_end n"
proof (cases "bt_last_le a m")
  case None
  moreover have "\<forall>p \<in> set m. a < fst p" using None bt_last_le_None by blast
  ultimately show ?thesis using that(1) by (fastforce simp: scan_start_def)
next
  case (Some sn)
  obtain s n where sn: "sn = (s, n)" by (cases sn)
  note last = bt_last_le_Some [OF rm_invD(1) [OF inv] Some [unfolded sn]]
  show ?thesis
  proof (cases "a < node_end n")
    case True
    then have "scan_start a m = s"
      using Some last(2) by (simp add: scan_start_def sn min_def)
    with True last that(2) show ?thesis by blast
  next
    case False
    then have "\<not> (\<exists>p \<in> set m. fst p \<le> a \<and> a < node_end (snd p))"
      using last_le_covers [OF inv, of a] Some sn by simp
    moreover have "scan_start a m = a" using False Some by (simp add: scan_start_def sn)
    ultimately show ?thesis using that(1) by fastforce
  qed
qed

lemma scan_start_ok:
  assumes inv: "rm_inv m"
  shows "scan_start a m \<le> a"
    and "p \<in> set m \<Longrightarrow> fst p < scan_start a m \<Longrightarrow> node_end (snd p) \<le> scan_start a m"
    and "scan_start a m \<le> lo \<Longrightarrow> lo < b \<Longrightarrow> lo < a \<Longrightarrow> rm_overlaps (lo, b) m"
proof -
  show "scan_start a m \<le> a"
    by (rule scan_start_cases [OF inv, of a]) auto
  show "node_end (snd p) \<le> scan_start a m" if "p \<in> set m" "fst p < scan_start a m"
    using rm_invD(3) [OF inv that(1)] that by (rule_tac scan_start_cases [OF inv, of a]) auto
  show "rm_overlaps (lo, b) m" if "scan_start a m \<le> lo" "lo < b" "lo < a"
    using that by (rule_tac scan_start_cases [OF inv, of a]) (force simp: rm_overlaps_def)+
qed

text \<open>Nodes outside the scanned window cannot overlap a candidate inside it.\<close>

lemma rm_overlaps_window:
  assumes "rm_inv m" and "scan_start a m \<le> lo" and "b \<le> hi"
  shows "rm_overlaps (lo, b) (filter (\<lambda>(x, _). scan_start a m \<le> x \<and> x < hi) m) \<longleftrightarrow>
    rm_overlaps (lo, b) m"
  using scan_start_ok(2) [OF assms(1), of _ a] assms(2,3)
  by (force simp: rm_overlaps_def not_le)

lemma rm_find_free_range_spec:
  assumes inv: "rm_inv m" and wrap: "wrap_free add sz B" and a: "a \<le> hi" and hi: "hi \<le> B"
    and ends: "\<forall>p \<in> set m. fst p < hi \<longrightarrow> node_end (snd p) \<le> B"
  shows "\<exists>res. rm_find_free_range add (a, hi) sz m = Some res \<and>
    (case res of
       Some r \<Rightarrow> snd r = add (fst r) sz \<and> rm_fits add (a, hi) sz m (fst r) \<and>
         (\<forall>lo. rm_fits add (a, hi) sz m lo \<longrightarrow> fst r \<le> lo)
     | None \<Rightarrow> \<forall>lo. \<not> rm_fits add (a, hi) sz m lo)"
proof (cases "hi < add a sz")
  case True
  have "hi < add lo sz" if "a \<le> lo" "lo \<le> hi" for lo
    using wrap_freeD(2) [OF wrap that(1)] that(2) hi True by (meson less_le_trans order_trans)
  with True show ?thesis by (force simp: rm_find_free_range_def rm_fits_def not_le)
next
  case fits: False
  let ?st = "scan_start a m"
  let ?ns = "filter (\<lambda>(x, _). ?st \<le> x \<and> x < hi) m"
  have st: "?st \<le> a" by (rule scan_start_ok(1) [OF inv])
  then have st_hi: "?st \<le> hi" "?st \<le> B" "add ?st sz \<le> hi"
    using a hi fits wrap_freeD(2) [OF wrap st order_trans [OF a hi]] by (auto simp: not_less)
  moreover have "rm_inv ?ns"
    using rm_inv_subset [OF inv, of ?ns] rm_invD(1) [OF inv] by auto
  moreover have "\<forall>p \<in> set ?ns. ?st \<le> fst p \<and> fst p < hi \<and> node_end (snd p) \<le> B"
    using ends by auto
  ultimately have scan: "case free_scan add sz hi ?st ?ns of
     Some e \<Rightarrow> ?st \<le> e \<and> e \<le> B \<and> add e sz \<le> hi \<and> \<not> rm_overlaps (e, add e sz) m \<and>
       (\<forall>lo. ?st \<le> lo \<longrightarrow> lo \<le> B \<longrightarrow> add lo sz \<le> hi \<longrightarrow> \<not> rm_overlaps (lo, add lo sz) m \<longrightarrow> e \<le> lo)
   | None \<Rightarrow> \<forall>lo. ?st \<le> lo \<longrightarrow> lo \<le> B \<longrightarrow> add lo sz \<le> hi \<longrightarrow> rm_overlaps (lo, add lo sz) m"
    using free_scan_ok [OF wrap hi, of ?ns ?st] rm_overlaps_window [OF inv, of a _ _ hi]
    by (auto split: option.splits)
  have run: "rm_find_free_range add (a, hi) sz m =
      Some (map_option (\<lambda>e. (e, add e sz)) (free_scan add sz hi ?st ?ns))"
    using fits bt_range_Some [OF st_hi(1), of m] by (simp add: rm_find_free_range_def Let_def)
  show ?thesis
  proof (cases "free_scan add sz hi ?st ?ns")
    case None
    then show ?thesis using scan run st hi by (force simp: rm_fits_def)
  next
    case (Some e)
    then have e: "?st \<le> e" "e \<le> B" "add e sz \<le> hi" "\<not> rm_overlaps (e, add e sz) m"
      using scan by auto
    have "a \<le> e"
      using scan_start_ok(3) [OF inv e(1) wrap_freeD(1) [OF wrap e(2)]] e(4) by fastforce
    moreover have "e \<le> hi"
      using wrap_freeD(1) [OF wrap e(2)] e(3) by simp
    ultimately have "rm_fits add (a, hi) sz m e" using e by (simp add: rm_fits_def)
    moreover have "e \<le> lo" if "rm_fits add (a, hi) sz m lo" for lo
      using that scan Some st hi by (force simp: rm_fits_def)
    ultimately show ?thesis using run Some by simp
  qed
qed

section \<open>Growing and shrinking a range at its end\<close>

lemma rm_extend_back_ok:
  assumes inv: "rm_inv m" and sn: "(s, n) \<in> set m"
  shows "rm_extend_back (s, e) m =
    (if node_end n < e \<and> \<not> rm_overlaps (node_end n, e) m
     then Some (Inr (rm_set_end s e m)) else Some (Inl ()))"
proof -
  have get: "bt_get m s = Some n" using bt_get_iff [OF rm_invD(1) [OF inv]] sn by blast
  have free: "rm_is_range_free (node_end n, e) m = Inr () \<longleftrightarrow>
      node_end n < e \<and> \<not> rm_overlaps (node_end n, e) m"
    by (rule rm_is_range_free_iff [OF inv])
  show ?thesis
  proof (cases "rm_is_range_free (node_end n, e) m = Inr ()")
    case True
    then show ?thesis using free get by (simp add: rm_extend_back_def)
  next
    case False
    then have "rm_is_range_free (node_end n, e) m = Inl ()"
      by (cases "rm_is_range_free (node_end n, e) m") simp_all
    then show ?thesis using free get by (simp add: rm_extend_back_def)
  qed
qed

lemma rm_reduce_back_ok:
  assumes inv: "rm_inv m" and sn: "(s, n) \<in> set m"
  shows "rm_reduce_back (s, e) m =
    (if s \<le> e \<and> e < node_end n
     then Some (Inr (if s = e then bt_remove s m else rm_set_end s e m)) else Some (Inl ()))"
proof -
  have "bt_get m s = Some n" using bt_get_iff [OF rm_invD(1) [OF inv]] sn by blast
  then show ?thesis by (simp add: rm_reduce_back_def)
qed

lemma rm_extend_back_get:
  assumes inv: "rm_inv m" and sn: "(s, n) \<in> set m"
    and e: "node_end n < e" "\<not> rm_overlaps (node_end n, e) m"
  shows "\<exists>m'. rm_extend_back (s, e) m = Some (Inr m') \<and> rm_inv m' \<and>
    (\<forall>k. rm_get k m' = (if s \<le> k \<and> k < e then Some (node_value n) else rm_get k m))"
proof -
  have se: "s < e" using rm_invD(2) [OF inv sn] e(1) by simp
  note set_end = rm_set_end_ok [OF inv sn se e(2)]
  have "rm_get k (rm_set_end s e m) = (if s \<le> k \<and> k < e then Some (node_value n) else rm_get k m)" for k
    using set_end(2) [of k] e(1) by (auto simp: rm_get_abs inv set_end(1))
  with set_end(1) e show ?thesis by (simp add: rm_extend_back_ok [OF inv sn])
qed

lemma rm_reduce_back_get:
  assumes inv: "rm_inv m" and sn: "(s, n) \<in> set m" and e: "s \<le> e" "e < node_end n"
  shows "\<exists>m'. rm_reduce_back (s, e) m = Some (Inr m') \<and> rm_inv m' \<and>
    (\<forall>k. rm_get k m' = (if e \<le> k \<and> k < node_end n then None else rm_get k m))"
proof (cases "s = e")
  case True
  have "rm_get k (bt_remove s m) = (if e \<le> k \<and> k < node_end n then None else rm_get k m)" for k
    using rm_remove_node(1) [OF inv sn] rm_remove_node(2) [OF inv sn, of k] True by (simp add: rm_get_abs inv)
  moreover have "rm_reduce_back (s, e) m = Some (Inr (bt_remove s m))"
    unfolding rm_reduce_back_ok [OF inv sn] using True e by simp
  ultimately show ?thesis using rm_remove_node(1) [OF inv sn] by blast
next
  case False
  then have se: "s < e" using e(1) by simp
  have no: "node_end n < e \<Longrightarrow> \<not> rm_overlaps (node_end n, e) m" using e(2) by simp
  note set_end = rm_set_end_ok [OF inv sn se no]
  have old: "rm_abs m k = Some (node_value n)" if "s \<le> k" "k < node_end n" for k
    unfolding rm_abs_Some [OF inv] using sn that by blast
  have "rm_get k (rm_set_end s e m) = (if e \<le> k \<and> k < node_end n then None else rm_get k m)" for k
    using set_end(2) [of k] old [of k] e se by (auto simp: rm_get_abs inv set_end(1))
  with False set_end(1) e show ?thesis by (simp add: rm_reduce_back_ok [OF inv sn])
qed

section \<open>The interface to clients\<close>

text \<open>
  What the address-space code relies on: inserting into a free range succeeds and updates
  the lookup function on exactly that range; inserting over an occupied key is refused and
  hands the value back. Copying an address space re-inserts the areas of the old one in
  order; that this succeeds and reproduces the lookup function is proved once from the
  two laws.
\<close>

fun ins_all :: "('u rng \<Rightarrow> 'v \<Rightarrow> 'm \<Rightarrow> ('v + 'm) option) \<Rightarrow> ('u rng \<times> 'v) list \<Rightarrow> 'm \<Rightarrow> 'm option" where
  "ins_all ins [] m = Some m"
| "ins_all ins ((r, v) # xs) m =
     (case ins r v m of Some (Inr m') \<Rightarrow> ins_all ins xs m' | _ \<Rightarrow> panic)"

definition item_at :: "'u::linorder \<Rightarrow> ('u rng \<times> 'v) list \<Rightarrow> 'v option" where
  "item_at k xs = map_option snd (find (\<lambda>(r, _). fst r \<le> k \<and> k < snd r) xs)"

lemma item_at_simps [simp]:
  "item_at k [] = None"
  "item_at k ((r, v) # xs) = (if fst r \<le> k \<and> k < snd r then Some v else item_at k xs)"
  by (auto simp: item_at_def)

locale interval_map =
  fixes inv :: "'m \<Rightarrow> bool"
    and lookup :: "'m \<Rightarrow> 'u::linorder \<Rightarrow> 'v option"
    and ins :: "'u rng \<Rightarrow> 'v \<Rightarrow> 'm \<Rightarrow> ('v + 'm) option"
    and occupied :: "'u rng \<Rightarrow> 'm \<Rightarrow> bool"
  assumes ins_free: "inv m \<Longrightarrow> a < b \<Longrightarrow> \<not> occupied (a, b) m \<Longrightarrow>
      \<exists>m'. ins (a, b) v m = Some (Inr m') \<and> inv m' \<and>
        (\<forall>k. lookup m' k = (if a \<le> k \<and> k < b then Some v else lookup m k)) \<and>
        (\<forall>c d. occupied (c, d) m' \<longleftrightarrow> a < d \<and> c < b \<or> occupied (c, d) m)"
    and ins_taken: "inv m \<Longrightarrow> occupied (a, b) m \<Longrightarrow> ins (a, b) v m = Some (Inl v)"
begin

lemma ins_never_panics: "inv m \<Longrightarrow> a < b \<Longrightarrow> ins (a, b) v m \<noteq> None"
  using ins_free [of m a b v] ins_taken [of m a b v] by (cases "occupied (a, b) m") auto

lemma ins_all_ok:
  assumes "inv m" "sorted_wrt (\<lambda>x y. snd (fst x) \<le> fst (fst y)) xs"
    and "\<forall>x \<in> set xs. fst (fst x) < snd (fst x) \<and> \<not> occupied (fst x) m"
  shows "\<exists>m'. ins_all ins xs m = Some m' \<and> inv m' \<and>
    (\<forall>k. lookup m' k = (case item_at k xs of Some v \<Rightarrow> Some v | None \<Rightarrow> lookup m k))"
  using assms
proof (induction xs arbitrary: m)
  case Nil
  then show ?case by simp
next
  case (Cons x xs)
  obtain a b v where x: "x = ((a, b), v)" by (metis surj_pair)
  from Cons.prems have "a < b" "\<not> occupied (a, b) m" by (auto simp: x)
  from ins_free [OF Cons.prems(1) this] obtain m1 where m1: "ins (a, b) v m = Some (Inr m1)" "inv m1"
    "\<And>k. lookup m1 k = (if a \<le> k \<and> k < b then Some v else lookup m k)"
    "\<And>c d. occupied (c, d) m1 \<longleftrightarrow> a < d \<and> c < b \<or> occupied (c, d) m"
    by blast
  have "\<forall>y \<in> set xs. fst (fst y) < snd (fst y) \<and> \<not> occupied (fst y) m1"
  proof
    fix y assume y: "y \<in> set xs"
    obtain c d w where yy: "y = ((c, d), w)" by (metis surj_pair)
    have "b \<le> c" using Cons.prems(2) y by (auto simp: x yy)
    then show "fst (fst y) < snd (fst y) \<and> \<not> occupied (fst y) m1"
      using Cons.prems(3) y m1(4) [of c d] by (auto simp: yy)
  qed
  moreover have "sorted_wrt (\<lambda>x y. snd (fst x) \<le> fst (fst y)) xs" using Cons.prems(2) by simp
  moreover have later: "item_at k xs = None" if "k < b" for k
  proof -
    have "\<forall>y \<in> set xs. k < fst (fst y)"
      using Cons.prems(2) that by (auto simp: x intro: less_le_trans)
    then show ?thesis by (fastforce simp: item_at_def find_None_iff)
  qed
  ultimately obtain m' where m': "ins_all ins xs m1 = Some m'" "inv m'"
    "\<And>k. lookup m' k = (case item_at k xs of Some v \<Rightarrow> Some v | None \<Rightarrow> lookup m1 k)"
    using Cons.IH [OF m1(2)] by blast
  moreover have "lookup m' k = (case item_at k (x # xs) of Some v \<Rightarrow> Some v | None \<Rightarrow> lookup m k)" for k
    using m'(3) [of k] m1(3) [of k] later [of k] by (cases "a \<le> k \<and> k < b") (auto simp: x split: option.split)
  ultimately show ?case using m1(1) by (simp add: x)
qed

end

lemma set_insert_node:
  assumes "rm_inv m" "a < b" "\<not> rm_overlaps (a, b) m"
  shows "set (bt_insert a \<lparr>node_end = b, node_value = v\<rparr> m) =
    insert (a, \<lparr>node_end = b, node_value = v\<rparr>) (set m)"
  using set_bt_insert [OF rm_invD(1) [OF assms(1)]] assms(2,3) rm_invD(2) [OF assms(1)]
  by (fastforce simp: rm_overlaps_def)

lemma rm_ins_free:
  assumes "rm_inv m" "a < b" "\<not> rm_overlaps (a, b) m"
  shows "\<exists>m'. rm_try_insert (a, b) v m = Some (Inr m') \<and> rm_inv m' \<and>
    (\<forall>k. rm_abs m' k = (if a \<le> k \<and> k < b then Some v else rm_abs m k)) \<and>
    (\<forall>c d. rm_overlaps (c, d) m' \<longleftrightarrow> a < d \<and> c < b \<or> rm_overlaps (c, d) m)"
proof (intro exI conjI allI)
  show "rm_try_insert (a, b) v m = Some (Inr (bt_insert a \<lparr>node_end = b, node_value = v\<rparr> m))"
    by (rule rm_try_insert_free [OF assms])
qed (use rm_abs_insert [OF assms, of v] set_insert_node [OF assms, of v] in \<open>simp_all add: rm_overlaps_def\<close>)

interpretation rm: interval_map rm_inv rm_abs rm_try_insert rm_overlaps
  by (rule interval_map.intro) (rule rm_ins_free rm_try_insert_overlap; assumption)+

lemma rm_iter_sorted:
  assumes "rm_inv m"
  shows "sorted_wrt (\<lambda>x y. snd (fst x) \<le> fst (fst y)) (rm_iter m)"
    and "\<forall>x \<in> set (rm_iter m). fst (fst x) < snd (fst x)"
    and "item_at k (rm_iter m) = rm_abs m k"
proof -
  show "sorted_wrt (\<lambda>x y. snd (fst x) \<le> fst (fst y)) (rm_iter m)"
    using assms
  proof (induction m)
    case (Cons sn m)
    obtain s n where "sn = (s, n)" by (cases sn)
    with Cons rm_inv_ConsD(1,3) [of s n m] show ?case by (auto simp: rm_iter_def)
  qed (simp add: rm_iter_def)
  show "\<forall>x \<in> set (rm_iter m). fst (fst x) < snd (fst x)"
    using rm_invD(2) [OF assms] by (auto simp: rm_iter_def)
  show "item_at k (rm_iter m) = rm_abs m k"
    by (induction m) (auto simp: rm_iter_def rm_abs_def split: if_splits)
qed

lemma rm_abs_new [simp]: "rm_abs rm_new k = None"
  by (simp add: rm_abs_def rm_new_def)

lemma rm_reinsert_all:
  assumes "rm_inv m"
  shows "\<exists>m'. ins_all rm_try_insert (rm_iter m) rm_new = Some m' \<and> rm_inv m' \<and> rm_abs m' = rm_abs m"
proof -
  have "\<forall>x \<in> set (rm_iter m). fst (fst x) < snd (fst x) \<and> \<not> rm_overlaps (fst x) rm_new"
    using rm_iter_sorted(2) [OF assms] by (simp add: rm_overlaps_def rm_new_def)
  from rm.ins_all_ok [OF rm_inv_new rm_iter_sorted(1) [OF assms] this]
  obtain m' where m': "ins_all rm_try_insert (rm_iter m) rm_new = Some m'" "rm_inv m'"
    "\<And>k. rm_abs m' k = (case rm_abs m k of Some v \<Rightarrow> Some v | None \<Rightarrow> rm_abs rm_new k)"
    unfolding rm_iter_sorted(3) [OF assms] by blast
  have "rm_abs m' k = rm_abs m k" for k
    unfolding m'(3) by (cases "rm_abs m k") simp_all
  with m'(1,2) show ?thesis by blast
qed

section \<open>Histories of a range map\<close>

text \<open>
  The maps a program can build: the mutating methods, each applied with the arguments its
  callers may pass (a non-empty range for an insertion), and only where it returns.
\<close>

inductive rm_step :: "('u::linorder, 'v) range_map \<Rightarrow> ('u, 'v) range_map \<Rightarrow> bool" where
  insert: "a < b \<Longrightarrow> rm_try_insert (a, b) v m = Some (Inr m') \<Longrightarrow> rm_step m m'"
| remove: "rm_force_remove_one r m = Some (v, m') \<Longrightarrow> rm_step m m'"
| extend: "rm_extend_back r m = Some (Inr m') \<Longrightarrow> rm_step m m'"
| reduce: "rm_reduce_back r m = Some (Inr m') \<Longrightarrow> rm_step m m'"
| get_mut: "rm_get_mut k f m = Some m' \<Longrightarrow> rm_step m m'"
| contain_mut: "rm_range_contain_mut r f m = Some m' \<Longrightarrow> rm_step m m'"
| intersect_mut: "rm_range_intersect_mut r f m = Some m' \<Longrightarrow> rm_step m m'"

lemma rm_set_value_last:
  assumes "rm_inv m"
  shows "bt_last_le k m = Some (s, n) \<Longrightarrow> rm_inv (rm_set_value s f m)"
    and "bt_last_lt k m = Some (s, n) \<Longrightarrow> rm_inv (rm_set_value s f m)"
  using bt_last_le_Some(1) [OF rm_invD(1) [OF assms], of k s n]
    bt_last_lt_Some(1) [OF rm_invD(1) [OF assms], of k s n] rm_set_value_ok(1) [OF assms, of s n f]
  by blast+

lemma rm_step_inv:
  assumes "rm_step m m'" "rm_inv m"
  shows "rm_inv m'"
  using assms
proof (cases rule: rm_step.cases)
  case (insert a b v)
  then have "\<not> rm_overlaps (a, b) m"
    using rm_try_insert_overlap [OF assms(2), of a b v] by auto
  with insert show ?thesis
    using rm_try_insert_free [OF assms(2)] rm_abs_insert(1) [OF assms(2)] by auto
next
  case (remove r v)
  then obtain n where "(fst r, n) \<in> set m" "m' = bt_remove (fst r) m"
    using bt_get_iff [OF rm_invD(1) [OF assms(2)]]
    by (auto simp: rm_force_remove_one_def split: option.splits if_splits)
  then show ?thesis using rm_remove_node(1) [OF assms(2)] by simp
next
  case (extend r)
  then obtain n where n: "(fst r, n) \<in> set m"
    using bt_get_iff [OF rm_invD(1) [OF assms(2)]]
    by (auto simp: rm_extend_back_def split: option.splits)
  have "fst r < node_end n" using rm_invD(2) [OF assms(2) n] by simp
  with extend rm_extend_back_ok [OF assms(2) n, of "snd r"] rm_set_end_ok(1) [OF assms(2) n, of "snd r"]
  show ?thesis by (auto split: if_splits)
next
  case (reduce r)
  then obtain n where n: "(fst r, n) \<in> set m"
    using bt_get_iff [OF rm_invD(1) [OF assms(2)]]
    by (auto simp: rm_reduce_back_def split: option.splits)
  from reduce rm_reduce_back_ok [OF assms(2) n, of "snd r"] rm_set_end_ok(1) [OF assms(2) n, of "snd r"]
    rm_remove_node(1) [OF assms(2) n]
  show ?thesis by (auto split: if_splits)
next
  case (get_mut k f)
  then show ?thesis
    by (auto intro: rm_set_value_last [OF assms(2)] simp: rm_get_mut_def split: option.splits if_splits)
next
  case (contain_mut r f)
  then show ?thesis
    by (auto intro: rm_set_value_last [OF assms(2)] simp: rm_range_contain_mut_def split: option.splits if_splits)
next
  case (intersect_mut r f)
  then show ?thesis
    by (auto intro: rm_set_value_last [OF assms(2)] simp: rm_range_intersect_mut_def split: option.splits if_splits)
qed

lemma rm_reach_inv: "rm_step\<^sup>*\<^sup>* rm_new m \<Longrightarrow> rm_inv m"
  by (induction rule: rtranclp_induct) (auto intro: rm_step_inv)

section \<open>Correctness of the range map\<close>

text \<open>
  C14. On every range map a program can build, inserting a value at a non-empty range never
  panics. It is refused, handing the value back, exactly when some key of the range is
  already mapped; otherwise the new map is again well formed and looks up the value on
  exactly the keys of that range and every other key as before.
\<close>

theorem rm_try_insert_correct:
  assumes "rm_step\<^sup>*\<^sup>* rm_new m" and "a < b"
  shows "(\<exists>k. a \<le> k \<and> k < b \<and> rm_get k m \<noteq> None) \<and> rm_try_insert (a, b) v m = Some (Inl v) \<or>
    (\<forall>k. a \<le> k \<and> k < b \<longrightarrow> rm_get k m = None) \<and>
      (\<exists>m'. rm_try_insert (a, b) v m = Some (Inr m') \<and> rm_inv m' \<and>
        (\<forall>k. rm_get k m' = (if a \<le> k \<and> k < b then Some v else rm_get k m)))"
proof -
  have inv: "rm_inv m" by (rule rm_reach_inv [OF assms(1)])
  show ?thesis
  proof (cases "rm_overlaps (a, b) m")
    case True
    then show ?thesis
      using rm_try_insert_overlap [OF inv] rm_overlaps_abs [OF inv assms(2)] rm_get_abs [OF inv]
      by simp
  next
    case False
    from rm.ins_free [OF inv assms(2) False, of v] obtain m' where m':
      "rm_try_insert (a, b) v m = Some (Inr m')" "rm_inv m'"
      "\<And>k. rm_abs m' k = (if a \<le> k \<and> k < b then Some v else rm_abs m k)"
      by blast
    have "\<forall>k. a \<le> k \<and> k < b \<longrightarrow> rm_get k m = None"
      using rm_overlaps_abs [OF inv assms(2)] False rm_get_abs [OF inv] by auto
    with m' show ?thesis by (auto simp: rm_get_abs inv)
  qed
qed

theorem rm_try_insert_correct_witness:
  "\<exists>m'. rm_try_insert (3, 7) True (rm_new :: (nat, bool) range_map) = Some (Inr m') \<and> rm_inv m' \<and>
    rm_get 6 m' = Some True \<and> rm_get 7 m' = None"
proof -
  have get: "rm_get k (rm_new :: (nat, bool) range_map) = None" for k
    by (simp add: rm_get_abs)
  have "rm_step\<^sup>*\<^sup>* rm_new (rm_new :: (nat, bool) range_map)" "(3::nat) < 7" by simp_all
  from rm_try_insert_correct [OF this, of True] show ?thesis by (auto simp: get)
qed

text \<open>
  C15. The search for a free range never panics on a well-formed map and is an exact
  leftmost first fit, provided that adding the size does not wrap around up to the end of
  the searched window and of the nodes in it: the range it returns starts inside the
  window, ends inside it, meets no node, and no earlier start would do; it answers that
  there is none only if no start fits.
\<close>

theorem rm_find_free_range_first_fit:
  assumes "rm_inv m" and "wrap_free add sz B" and "a \<le> hi" and "hi \<le> B"
    and "\<forall>p \<in> set m. fst p < hi \<longrightarrow> node_end (snd p) \<le> B"
  shows "\<exists>res. rm_find_free_range add (a, hi) sz m = Some res \<and>
    (case res of
       Some r \<Rightarrow> snd r = add (fst r) sz \<and> rm_fits add (a, hi) sz m (fst r) \<and>
         (\<forall>lo. rm_fits add (a, hi) sz m lo \<longrightarrow> fst r \<le> lo)
     | None \<Rightarrow> \<forall>lo. \<not> rm_fits add (a, hi) sz m lo)"
  by (rule rm_find_free_range_spec [OF assms])

theorem rm_find_free_range_first_fit_witness:
  "rm_find_free_range (+) (2, 20) 4 [(0, \<lparr>node_end = 5, node_value = ()\<rparr>), (8, \<lparr>node_end = 9, node_value = ()\<rparr>)]
     = Some (Some (9, 13::nat)) \<and>
   rm_fits (+) (2, 20) 4 [(0, \<lparr>node_end = 5, node_value = ()\<rparr>), (8, \<lparr>node_end = 9, node_value = ()\<rparr>)] (9::nat) \<and>
   \<not> rm_fits (+) (2, 20) 4 [(0, \<lparr>node_end = 5, node_value = ()\<rparr>), (8, \<lparr>node_end = 9, node_value = ()\<rparr>)] (6::nat)"
proof -
  let ?m = "[(0, \<lparr>node_end = 5, node_value = ()\<rparr>), (8, \<lparr>node_end = 9, node_value = ()\<rparr>)] :: (nat, unit) range_map"
  have run: "rm_find_free_range (+) (2, 20) 4 ?m = Some (Some (9, 13))"
    by code_simp
  have "rm_inv ?m" by (simp add: rm_inv_def)
  from rm_find_free_range_first_fit [OF this, of "(+)" 4 20 2 20]
  have "rm_fits (+) (2, 20) 4 ?m 9" "\<forall>lo. rm_fits (+) (2, 20) 4 ?m lo \<longrightarrow> 9 \<le> lo"
    unfolding run by (simp_all add: wrap_free_def)
  then show ?thesis using run by fastforce
qed

text \<open>
  C16. Extending the range that starts at a key of the map succeeds exactly when the new
  end lies behind the old one and the extension is free, and shrinking it succeeds exactly
  when the new end lies inside the range (a shrink to nothing removes it). After either,
  the map is well formed, the keys of the resized range look up its value, the keys
  given up look up nothing, and all other keys are untouched.
\<close>

theorem rm_resize_correct:
  assumes "rm_inv m" and "(s, n) \<in> set m"
  shows "(if node_end n < e \<and> \<not> rm_overlaps (node_end n, e) m
      then \<exists>m'. rm_extend_back (s, e) m = Some (Inr m') \<and> rm_inv m' \<and>
        (\<forall>k. rm_get k m' = (if s \<le> k \<and> k < e then Some (node_value n) else rm_get k m))
      else rm_extend_back (s, e) m = Some (Inl ())) \<and>
    (if s \<le> e \<and> e < node_end n
      then \<exists>m'. rm_reduce_back (s, e) m = Some (Inr m') \<and> rm_inv m' \<and>
        (\<forall>k. rm_get k m' = (if e \<le> k \<and> k < node_end n then None else rm_get k m))
      else rm_reduce_back (s, e) m = Some (Inl ()))"
  using rm_extend_back_get [OF assms] rm_reduce_back_get [OF assms]
    rm_extend_back_ok [OF assms] rm_reduce_back_ok [OF assms]
  by simp

theorem rm_resize_correct_witness:
  "rm_reduce_back (2, 4) [(2, \<lparr>node_end = 9, node_value = True\<rparr>)] =
     Some (Inr [(2::nat, \<lparr>node_end = 4, node_value = True\<rparr>)]) \<and>
   rm_get 3 [(2::nat, \<lparr>node_end = 4, node_value = True\<rparr>)] = Some True \<and>
   rm_get 4 [(2::nat, \<lparr>node_end = 4, node_value = True\<rparr>)] = None"
proof -
  let ?m = "[(2, \<lparr>node_end = 9, node_value = True\<rparr>)] :: (nat, bool) range_map"
  have run: "rm_reduce_back (2, 4) ?m = Some (Inr [(2, \<lparr>node_end = 4, node_value = True\<rparr>)])"
    by code_simp
  have old: "rm_get 3 ?m = Some True" by code_simp
  have "rm_inv ?m" by (simp add: rm_inv_def)
  from rm_resize_correct [OF this, of 2 "\<lparr>node_end = 9, node_value = True\<rparr>" 4] old
  show ?thesis by (simp add: run)
qed

end
