(* ===== verification/Range_Set.thy ===== *)
theory Range_Set
  imports Chronix_Prelude
begin

text \<open>
  The range set of \<^verbatim>\<open>utils/segment-tree/src/lib.rs\<close>: a lazily split segment tree over a fixed
  range of keys, used by the file reader (\<^verbatim>\<open>os/src/fs/utils.rs\<close>, at key type \<^verbatim>\<open>usize\<close>) to
  remember which pages are mapped. Keys are natural numbers below \<open>2 ^ 64\<close>; the one
  subtraction whose operands may be in the wrong order is written with its wrap-around.
  The theorems show that the tree represents a set of keys: filling and clearing a range
  are union and difference, and the two queries are inclusion and non-disjointness.
\<close>

datatype rs_status = SEmpty | SHalf | SFull

datatype rs_op = Fill | Clear

datatype rs_node = RSNode (rs_left: "rs_node option") (rs_right: "rs_node option") (rs_stat: rs_status)

record range_set =
  rs_root :: rs_node
  rs_range :: "nat \<times> nat"

fun status_apply :: "rs_op \<Rightarrow> rs_status \<Rightarrow> rs_status" where
  "status_apply Fill _ = SFull"
| "status_apply Clear _ = SEmpty"

definition status_combine :: "rs_status \<Rightarrow> rs_status \<Rightarrow> rs_status" where
  "status_combine x oth = (if x \<noteq> oth then SHalf else oth)"

definition node_new :: "rs_status \<Rightarrow> rs_node" where
  "node_new st = RSNode None None st"

definition wsub :: "nat \<Rightarrow> nat \<Rightarrow> nat" where
  "wsub a b = (if b \<le> a then a - b else 2 ^ 64 + a - b)"

definition midpoint :: "nat \<Rightarrow> nat \<Rightarrow> nat" where
  "midpoint s e = s + (e - s) div 2"

definition child_or :: "rs_node option \<Rightarrow> rs_status \<Rightarrow> rs_node" where
  "child_or c st = (case c of Some n \<Rightarrow> n | None \<Rightarrow> node_new st)"

definition node_join :: "rs_node \<Rightarrow> rs_node \<Rightarrow> rs_node" where
  "node_join l r =
     (let st = status_combine (rs_stat l) (rs_stat r)
      in if st \<noteq> SHalf then RSNode None None st else RSNode (Some l) (Some r) st)"

function operation :: "nat \<times> nat \<Rightarrow> nat \<times> nat \<Rightarrow> rs_op \<Rightarrow> rs_node \<Rightarrow> rs_node" where
  "operation (s, e) (a, b) op n =
     (if a \<le> s \<and> b \<ge> e then RSNode None None (status_apply op (rs_stat n))
      else
        let mid = midpoint s e;
            l = child_or (rs_left n) (rs_stat n);
            l' = (if s < b \<and> mid > a then operation (s, mid) (a, b) op l else l);
            r = child_or (rs_right n) (rs_stat n);
            r' = (if mid < b \<and> e > a then operation (mid, e) (a, b) op r else r)
        in node_join l' r')"
  by pat_completeness auto

text \<open>
  Only a range of at least two keys is split, and both halves are then shorter: a range
  of at most one key that meets the operation's range is covered by it.
\<close>

termination operation
  by (relation "measure (\<lambda>((s, e), _). e - s)") (auto simp: midpoint_def)

function intersect :: "rs_node \<Rightarrow> nat \<times> nat \<Rightarrow> nat \<times> nat \<Rightarrow> nat option" where
  "intersect (RSNode l r st) (s, e) (a, b) =
     (if st = SFull then Some (wsub (min e b) (max s a))
      else if st = SEmpty then Some 0
      else do {
        let mid = midpoint s e;
        x \<leftarrow> (if s < b \<and> mid > a
              then (case l of None \<Rightarrow> panic | Some l' \<Rightarrow> intersect l' (s, mid) (a, b))
              else Some 0);
        y \<leftarrow> (if mid < b \<and> e > a
              then (case r of None \<Rightarrow> panic | Some r' \<Rightarrow> intersect r' (mid, e) (a, b))
              else Some 0);
        Some (x + y) })"
  by pat_completeness auto

termination intersect
  by (relation "measure (\<lambda>(n, _). size n)") auto

definition rs_new :: "nat \<times> nat \<Rightarrow> range_set" where
  "rs_new r = \<lparr>rs_root = node_new SEmpty, rs_range = r\<rparr>"

definition pair_is_empty :: "nat \<times> nat \<Rightarrow> bool" where
  "pair_is_empty r \<longleftrightarrow> \<not> (fst r < snd r)"

definition rs_insert :: "nat \<times> nat \<Rightarrow> range_set \<Rightarrow> range_set" where
  "rs_insert r rs =
     (if pair_is_empty r then rs
      else rs\<lparr>rs_root := operation (rs_range rs) r Fill (rs_root rs)\<rparr>)"

definition rs_remove :: "nat \<times> nat \<Rightarrow> range_set \<Rightarrow> range_set" where
  "rs_remove r rs =
     (if pair_is_empty r then rs
      else rs\<lparr>rs_root := operation (rs_range rs) r Clear (rs_root rs)\<rparr>)"

definition rs_contains :: "nat \<times> nat \<Rightarrow> range_set \<Rightarrow> bool option" where
  "rs_contains r rs =
     (if pair_is_empty r then Some True
      else do { v \<leftarrow> intersect (rs_root rs) (rs_range rs) r; Some (v = snd r - fst r) })"

definition rs_intersects :: "nat \<times> nat \<Rightarrow> range_set \<Rightarrow> bool option" where
  "rs_intersects r rs =
     (if pair_is_empty r then Some False
      else do { v \<leftarrow> intersect (rs_root rs) (rs_range rs) r; Some (v \<noteq> 0) })"

section \<open>The set a tree represents\<close>

fun node_set :: "rs_node \<Rightarrow> nat \<Rightarrow> nat \<Rightarrow> nat set" where
  "node_set (RSNode l r st) s e =
     (case st of
        SFull \<Rightarrow> {s..<e}
      | SEmpty \<Rightarrow> {}
      | SHalf \<Rightarrow> (case (l, r) of
          (Some l', Some r') \<Rightarrow> node_set l' s (midpoint s e) \<union> node_set r' (midpoint s e) e
        | _ \<Rightarrow> {}))"

fun node_wf :: "rs_node \<Rightarrow> nat \<Rightarrow> nat \<Rightarrow> bool" where
  "node_wf (RSNode l r st) s e \<longleftrightarrow> s < e \<and>
     (if st = SHalf
      then (case (l, r) of
          (Some l', Some r') \<Rightarrow> s < midpoint s e \<and> node_wf l' s (midpoint s e) \<and> node_wf r' (midpoint s e) e \<and>
            status_combine (rs_stat l') (rs_stat r') = SHalf
        | _ \<Rightarrow> False)
      else l = None \<and> r = None)"

definition rs_set :: "range_set \<Rightarrow> nat set" where
  "rs_set rs = node_set (rs_root rs) (fst (rs_range rs)) (snd (rs_range rs))"

definition rs_wf :: "range_set \<Rightarrow> bool" where
  "rs_wf rs \<longleftrightarrow> node_wf (rs_root rs) (fst (rs_range rs)) (snd (rs_range rs))"

fun set_op :: "rs_op \<Rightarrow> nat set \<Rightarrow> nat set \<Rightarrow> nat set" where
  "set_op Fill X Y = X \<union> Y"
| "set_op Clear X Y = X - Y"

declare operation.simps [simp del] intersect.simps [simp del] Int_atLeastLessThan [simp del]

lemma midpoint_less: "s < e \<Longrightarrow> midpoint s e < e"
  by (auto simp: midpoint_def)

lemma midpoint_ge: "s \<le> midpoint s e"
  by (simp add: midpoint_def)

lemma node_wf_less: "node_wf n s e \<Longrightarrow> s < e"
  by (cases n) simp

lemma node_set_bounds: "node_wf n s e \<Longrightarrow> node_set n s e \<subseteq> {s..<e}"
proof (induction n s e rule: node_set.induct)
  case (1 l r st s e)
  have "s \<le> midpoint s e" "midpoint s e \<le> e"
    using 1(3) midpoint_ge [of s e] midpoint_less [of s e] by auto
  then show ?case
    using 1 by (fastforce split: rs_status.splits option.splits)
qed

lemma node_wf_new [simp]: "node_wf (node_new st) s e \<longleftrightarrow> s < e \<and> st \<noteq> SHalf"
  by (auto simp: node_new_def)

lemma ivl_split_at: "s \<le> m \<Longrightarrow> m \<le> e \<Longrightarrow> {s..<m} \<union> {m..<e} = {s..<e::nat}"
  by (rule ivl_disj_un)

text \<open>A node is the union of its two children, which are made on demand.\<close>

lemma node_children:
  assumes "node_wf n s e" and "s < midpoint s e"
  defines "l \<equiv> child_or (rs_left n) (rs_stat n)" and "r \<equiv> child_or (rs_right n) (rs_stat n)"
  shows "node_wf l s (midpoint s e)" and "node_wf r (midpoint s e) e"
    and "node_set n s e = node_set l s (midpoint s e) \<union> node_set r (midpoint s e) e"
proof -
  obtain x y st where n: "n = RSNode x y st" by (cases n)
  have "midpoint s e < e" using node_wf_less [OF assms(1)] by (rule midpoint_less)
  then have "node_wf l s (midpoint s e) \<and> node_wf r (midpoint s e) e \<and>
      node_set n s e = node_set l s (midpoint s e) \<union> node_set r (midpoint s e) e"
    using assms(1,2) ivl_split_at [of s "midpoint s e" e] unfolding l_def r_def
    by (cases st) (auto simp: n child_or_def node_new_def split: option.splits)
  then show "node_wf l s (midpoint s e)" "node_wf r (midpoint s e) e"
    "node_set n s e = node_set l s (midpoint s e) \<union> node_set r (midpoint s e) e"
    by auto
qed

lemma node_join_ok:
  assumes "node_wf l s (midpoint s e)" and "node_wf r (midpoint s e) e"
  shows "node_wf (node_join l r) s e"
    and "node_set (node_join l r) s e = node_set l s (midpoint s e) \<union> node_set r (midpoint s e) e"
proof -
  have less: "s < midpoint s e" "midpoint s e < e" using assms by (auto dest: node_wf_less)
  obtain a b st c d st' where lr: "l = RSNode a b st" "r = RSNode c d st'" by (cases l, cases r)
  have "node_wf (node_join l r) s e \<and>
      node_set (node_join l r) s e = node_set l s (midpoint s e) \<union> node_set r (midpoint s e) e"
  proof (cases "status_combine st st' = SHalf")
    case True
    then show ?thesis using less assms by (simp add: node_join_def lr)
  next
    case False
    then have "st = st'" "st \<noteq> SHalf" by (auto simp: status_combine_def split: if_splits)
    with less ivl_split_at [of s "midpoint s e" e] show ?thesis
      by (cases st) (auto simp: node_join_def lr status_combine_def)
  qed
  then show "node_wf (node_join l r) s e"
    "node_set (node_join l r) s e = node_set l s (midpoint s e) \<union> node_set r (midpoint s e) e"
    by auto
qed

lemma operation_unit_range:
  assumes "node_wf n s e" "\<not> s < midpoint s e" "a < b" "\<not> (a \<le> s \<and> b \<ge> e)"
  shows "operation (s, e) (a, b) op n = n" and "{s..<e} \<inter> {a..<b} = {}"
proof -
  have mid: "e = Suc s" "midpoint s e = s"
    using assms(2) node_wf_less [OF assms(1)] by (auto simp: midpoint_def)
  have off: "\<not> (s < b \<and> a < s)" "\<not> (s < b \<and> a < e)" using assms(4) mid by auto
  obtain st where n: "n = RSNode None None st" "st \<noteq> SHalf"
    using assms(1,2) by (cases n) (auto split: if_splits option.splits)
  show "operation (s, e) (a, b) op n = n"
    unfolding operation.simps [of s e a b op n] using assms(4) off mid n
    by (auto simp: Let_def child_or_def node_join_def node_new_def status_combine_def)
  show "{s..<e} \<inter> {a..<b} = {}" using off mid by auto
qed

lemma set_op_empty [simp]: "set_op op X {} = X"
  by (cases op) auto

lemma set_op_split:
  assumes "X \<subseteq> {s..<m}" "Y \<subseteq> {m..<e::nat}" "s \<le> m" "m \<le> e"
  shows "set_op op X ({s..<m} \<inter> Z) \<union> set_op op Y ({m..<e} \<inter> Z) = set_op op (X \<union> Y) ({s..<e} \<inter> Z)"
proof -
  have "{s..<e} = {s..<m} \<union> {m..<e}" using assms(3,4) by (rule ivl_split_at [symmetric])
  moreover have "X \<inter> {m..<e} = {}" "Y \<inter> {s..<m} = {}" using assms(1,2) by fastforce+
  ultimately show ?thesis by (cases op) auto
qed

lemma ivl_apart: "s < b \<longrightarrow> \<not> a < e \<Longrightarrow> {s..<e} \<inter> {a..<b::nat} = {}"
  by auto

lemma operation_ok:
  assumes "a < b" "node_wf n s e"
  shows "node_wf (operation (s, e) (a, b) op n) s e \<and>
    node_set (operation (s, e) (a, b) op n) s e = set_op op (node_set n s e) ({s..<e} \<inter> {a..<b})"
  using assms
proof (induction "(s, e)" "(a, b)" op n arbitrary: s e rule: operation.induct)
  case (1 s e op n)
  let ?m = "midpoint s e"
  let ?l = "child_or (rs_left n) (rs_stat n)" and ?r = "child_or (rs_right n) (rs_stat n)"
  note less = node_wf_less [OF 1(4)]
  consider "a \<le> s \<and> b \<ge> e" | "\<not> (a \<le> s \<and> b \<ge> e)" "\<not> s < ?m" | "\<not> (a \<le> s \<and> b \<ge> e)" "s < ?m"
    by blast
  then show ?case
  proof cases
    case 1
    then have "{s..<e} \<inter> {a..<b} = {s..<e}" by auto
    with 1 less node_set_bounds [OF \<open>node_wf n s e\<close>] show ?thesis
      by (cases op) (auto simp: operation.simps)
  next
    case 2
    from operation_unit_range [OF \<open>node_wf n s e\<close> 2(2) \<open>a < b\<close> 2(1)] \<open>node_wf n s e\<close>
    show ?thesis by simp
  next
    case 3
    note ch = node_children [OF \<open>node_wf n s e\<close> 3(2)]
    define l' where "l' = (if s < b \<and> ?m > a then operation (s, ?m) (a, b) op ?l else ?l)"
    define r' where "r' = (if ?m < b \<and> e > a then operation (?m, e) (a, b) op ?r else ?r)"
    have res: "operation (s, e) (a, b) op n = node_join l' r'"
      unfolding operation.simps [of s e a b op n] if_not_P [OF 3(1)] Let_def l'_def r'_def ..
    have l': "node_wf l' s ?m" "node_set l' s ?m = set_op op (node_set ?l s ?m) ({s..<?m} \<inter> {a..<b})"
      using 1(1) [OF 3(1) refl refl _ \<open>a < b\<close> ch(1)] ch(1)
      by (simp_all add: l'_def ivl_apart)
    have r': "node_wf r' ?m e" "node_set r' ?m e = set_op op (node_set ?r ?m e) ({?m..<e} \<inter> {a..<b})"
      using 1(2) [OF 3(1) refl refl refl refl _ \<open>a < b\<close> ch(2)] ch(2)
      by (simp_all add: r'_def ivl_apart)
    have bnd: "node_set ?l s ?m \<subseteq> {s..<?m}" "node_set ?r ?m e \<subseteq> {?m..<e}"
      using node_set_bounds ch(1,2) by auto
    show ?thesis
      unfolding res node_join_ok(2) [OF l'(1) r'(1)] l'(2) r'(2) ch(3)
      using node_join_ok(1) [OF l'(1) r'(1)] set_op_split [OF bnd, of op "{a..<b}"]
        midpoint_less [OF less] midpoint_ge [of s e] by simp
  qed
qed

text \<open>
  Counting. Inside the tree a node is only asked about a range it meets, so the
  subtraction at a full node never wraps; at the root this is a premise.
\<close>

lemma card_split:
  assumes "X \<subseteq> {s..<m}" "Y \<subseteq> {m..<e::nat}"
  shows "card ((X \<union> Y) \<inter> Z) = card (X \<inter> Z) + card (Y \<inter> Z)"
proof -
  have "finite (X \<inter> Z)" "finite (Y \<inter> Z)"
    using assms by (auto intro: finite_subset)
  moreover have "(X \<inter> Z) \<inter> (Y \<inter> Z) = {}" using assms by fastforce
  ultimately show ?thesis by (simp add: Int_Un_distrib2 card_Un_disjoint)
qed

lemma intersect_ok:
  assumes "a < b" "node_wf n s e" "s < b" "a < e"
  shows "intersect n (s, e) (a, b) = Some (card (node_set n s e \<inter> {a..<b}))"
  using assms
proof (induction n "(s, e)" "(a, b)" arbitrary: s e rule: intersect.induct)
  case (1 l r st s e)
  let ?m = "midpoint s e"
  show ?case
  proof (cases st)
    case SFull
    have "{s..<e} \<inter> {a..<b} = {max s a..<min e b}" by auto
    moreover have "wsub (min e b) (max s a) = min e b - max s a"
      using 1(3,5,6) node_wf_less [OF 1(4)] by (auto simp: wsub_def)
    ultimately show ?thesis by (simp add: intersect.simps SFull)
  next
    case SEmpty
    then show ?thesis by (simp add: intersect.simps)
  next
    case SHalf
    then obtain x y where xy: "l = Some x" "r = Some y" "node_wf x s ?m" "node_wf y ?m e"
      using 1(4) by (auto split: option.splits)
    have x: "(if s < b \<and> ?m > a then intersect x (s, ?m) (a, b) else Some 0) =
        Some (card (node_set x s ?m \<inter> {a..<b}))"
    proof (cases "s < b \<and> ?m > a")
      case True
      then show ?thesis using 1(1) [of ?m x] 1(3) SHalf xy by auto
    next
      case False
      then have "node_set x s ?m \<inter> {a..<b} = {}" using node_set_bounds [OF xy(3)] by force
      with False show ?thesis by auto
    qed
    have y: "(if ?m < b \<and> e > a then intersect y (?m, e) (a, b) else Some 0) =
        Some (card (node_set y ?m e \<inter> {a..<b}))"
    proof (cases "?m < b \<and> e > a")
      case True
      have "(if s < b \<and> ?m > a then case l of None \<Rightarrow> panic | Some l' \<Rightarrow> intersect l' (s, ?m) (a, b)
          else Some 0) = Some (card (node_set x s ?m \<inter> {a..<b}))"
        unfolding xy(1) option.case by (rule x)
      from 1(2) [OF _ _ refl this True xy(2) 1(3) xy(4)] True SHalf show ?thesis by simp
    next
      case False
      then have "node_set y ?m e \<inter> {a..<b} = {}" using node_set_bounds [OF xy(4)] by force
      with False show ?thesis by auto
    qed
    have "card ((node_set x s ?m \<union> node_set y ?m e) \<inter> {a..<b}) =
        card (node_set x s ?m \<inter> {a..<b}) + card (node_set y ?m e \<inter> {a..<b})"
      by (rule card_split [OF node_set_bounds [OF xy(3)] node_set_bounds [OF xy(4)]])
    then show ?thesis
      using x y unfolding xy(1,2) SHalf
      by (simp add: intersect.simps [of "Some x" "Some y"] Let_def cong: if_cong split del: if_split)
  qed
qed

section \<open>Correctness of the range set\<close>

lemma rs_range_same [simp]:
  "rs_range (rs_insert r rs) = rs_range rs" "rs_range (rs_remove r rs) = rs_range rs"
  by (simp_all add: rs_insert_def rs_remove_def)

lemma rs_set_bounds: "rs_wf rs \<Longrightarrow> rs_set rs \<subseteq> {fst (rs_range rs)..<snd (rs_range rs)}"
  by (simp add: rs_wf_def rs_set_def node_set_bounds)

lemma rs_contains_ok:
  assumes "rs_wf rs" "a < b" "a < snd (rs_range rs)" "fst (rs_range rs) < b"
  shows "rs_contains (a, b) rs = Some ({a..<b} \<subseteq> rs_set rs)"
proof -
  have "card (rs_set rs \<inter> {a..<b}) = b - a \<longleftrightarrow> {a..<b} \<subseteq> rs_set rs"
  proof
    assume "card (rs_set rs \<inter> {a..<b}) = b - a"
    then have "rs_set rs \<inter> {a..<b} = {a..<b}"
      by (intro card_subset_eq) simp_all
    then show "{a..<b} \<subseteq> rs_set rs" by blast
  next
    assume "{a..<b} \<subseteq> rs_set rs"
    then have "rs_set rs \<inter> {a..<b} = {a..<b}" by blast
    then show "card (rs_set rs \<inter> {a..<b}) = b - a" by simp
  qed
  then show ?thesis
    using intersect_ok [of a b "rs_root rs" "fst (rs_range rs)" "snd (rs_range rs)"] assms
    by (simp add: rs_contains_def pair_is_empty_def rs_wf_def rs_set_def)
qed

lemma rs_intersects_ok:
  assumes "rs_wf rs" "a < b" "a < snd (rs_range rs)" "fst (rs_range rs) < b"
  shows "rs_intersects (a, b) rs = Some (rs_set rs \<inter> {a..<b} \<noteq> {})"
proof -
  have "finite (rs_set rs \<inter> {a..<b})" by simp
  then show ?thesis
    using intersect_ok [of a b "rs_root rs" "fst (rs_range rs)" "snd (rs_range rs)"] assms
    by (simp add: rs_intersects_def pair_is_empty_def rs_wf_def rs_set_def card_gt_0_iff)
qed



text \<open>
  A query that misses the tree's range is not answered by the set: once the whole range
  is filled, the subtraction at the root wraps around, and \<^verbatim>\<open>intersects\<close> answers yes for
  every non-empty range that starts behind the end of the tree's range.
\<close>

theorem rs_intersects_beyond_end:
  assumes "rs_root rs = node_new SFull" "rs_range rs = (s, e)" "s \<le> e" "e < a" "a < b" "b < 2 ^ 64"
  shows "rs_intersects (a, b) rs = Some True"
  using assms
  by (simp add: rs_intersects_def pair_is_empty_def node_new_def intersect.simps wsub_def min_def max_def)

theorem rs_intersects_beyond_end_witness:
  "rs_intersects (6, 7) (rs_insert (0, 4) (rs_new (0, 4))) = Some True \<and>
   rs_set (rs_insert (0, 4) (rs_new (0, 4))) \<inter> {6..<7} = {}"
proof -
  have full: "rs_insert (0, 4) (rs_new (0, 4)) = \<lparr>rs_root = node_new SFull, rs_range = (0, 4)\<rparr>"
    by (simp add: rs_insert_def rs_new_def pair_is_empty_def operation.simps node_new_def)
  have "rs_intersects (6, 7) \<lparr>rs_root = node_new SFull, rs_range = (0, 4)\<rparr> = Some True"
    by (rule rs_intersects_beyond_end [of _ 0 4]) simp_all
  then show ?thesis by (auto simp: full rs_set_def node_new_def)
qed

end
