(* ===== verification/Ring_Buffer.thy ===== *)
theory Ring_Buffer
  imports Chronix_Prelude
begin

text \<open>
  The byte ring buffer of \<^verbatim>\<open>os/src/utils/ring_buffer.rs\<close>, the store behind pipes and the
  serial driver. Indices are natural numbers: every intermediate value is below twice the
  capacity. A buffer handed to \<^verbatim>\<open>read\<close> is a list of bytes, returned with its front
  overwritten.
\<close>

datatype rb_state = EMPTY | FULL | NORMAL

record ring_buffer =
  rb_arr :: "u8 list"
  rb_head :: nat
  rb_tail :: nat
  rb_st :: rb_state

definition rb_new :: "nat \<Rightarrow> ring_buffer" where
  "rb_new len = \<lparr>rb_arr = replicate len 0, rb_head = 0, rb_tail = 0, rb_st = EMPTY\<rparr>"

definition rb_is_empty :: "ring_buffer \<Rightarrow> bool" where
  "rb_is_empty rb \<longleftrightarrow> rb_st rb = EMPTY"

definition rb_is_full :: "ring_buffer \<Rightarrow> bool" where
  "rb_is_full rb \<longleftrightarrow> rb_st rb = FULL"

definition rb_copy_out :: "u8 list \<Rightarrow> ring_buffer \<Rightarrow> (nat \<times> u8 list) option" where
  "rb_copy_out buf rb =
     (let n = length (rb_arr rb) in
      if rb_head rb < rb_tail rb
      then do {
        let ret_len = min (rb_tail rb - rb_head rb) (length buf);
        d \<leftarrow> slice (rb_arr rb) (rb_head rb) (rb_head rb + ret_len);
        b \<leftarrow> copy_at buf 0 d;
        Some (ret_len, b) }
      else do {
        let ret_len = min (n - rb_head rb + rb_tail rb) (length buf);
        if ret_len \<le> n - rb_head rb
        then do {
          d \<leftarrow> slice (rb_arr rb) (rb_head rb) (rb_head rb + ret_len);
          b \<leftarrow> copy_at buf 0 d;
          Some (ret_len, b) }
        else do {
          let right_len = n - rb_head rb;
          d1 \<leftarrow> slice (rb_arr rb) (rb_head rb) n;
          b1 \<leftarrow> copy_at buf 0 d1;
          d2 \<leftarrow> slice (rb_arr rb) 0 (ret_len - right_len);
          b2 \<leftarrow> copy_at b1 right_len d2;
          Some (ret_len, b2) } })"

definition rb_read :: "u8 list \<Rightarrow> ring_buffer \<Rightarrow> (nat \<times> u8 list \<times> ring_buffer) option" where
  "rb_read buf rb =
     (if rb_st rb = EMPTY \<or> buf = [] then Some (0, buf, rb)
      else do {
        (ret_len, buf') \<leftarrow> rb_copy_out buf rb;
        head' \<leftarrow> rem_nat (rb_head rb + ret_len) (length (rb_arr rb));
        Some (ret_len, buf',
          rb\<lparr>rb_head := head', rb_st := if head' = rb_tail rb then EMPTY else NORMAL\<rparr>) })"

definition rb_copy_in :: "u8 list \<Rightarrow> ring_buffer \<Rightarrow> (nat \<times> u8 list) option" where
  "rb_copy_in buf rb =
     (let n = length (rb_arr rb) in
      if rb_head rb \<le> rb_tail rb
      then do {
        let ret_len = min (n - (rb_tail rb - rb_head rb)) (length buf);
        if ret_len \<le> n - rb_tail rb
        then do {
          d \<leftarrow> slice buf 0 ret_len;
          arr' \<leftarrow> copy_at (rb_arr rb) (rb_tail rb) d;
          Some (ret_len, arr') }
        else do {
          d1 \<leftarrow> slice buf 0 (n - rb_tail rb);
          arr1 \<leftarrow> copy_at (rb_arr rb) (rb_tail rb) d1;
          d2 \<leftarrow> slice buf (n - rb_tail rb) ret_len;
          arr2 \<leftarrow> copy_at arr1 0 d2;
          Some (ret_len, arr2) } }
      else do {
        let ret_len = min (rb_head rb - rb_tail rb) (length buf);
        d \<leftarrow> slice buf 0 ret_len;
        arr' \<leftarrow> copy_at (rb_arr rb) (rb_tail rb) d;
        Some (ret_len, arr') })"

definition rb_write :: "u8 list \<Rightarrow> ring_buffer \<Rightarrow> (nat \<times> ring_buffer) option" where
  "rb_write buf rb =
     (if rb_st rb = FULL \<or> buf = [] then Some (0, rb)
      else do {
        (ret_len, arr') \<leftarrow> rb_copy_in buf rb;
        tail' \<leftarrow> rem_nat (rb_tail rb + ret_len) (length (rb_arr rb));
        Some (ret_len,
          rb\<lparr>rb_arr := arr', rb_tail := tail',
             rb_st := if rb_head rb = tail' then FULL else NORMAL\<rparr>) })"

definition rb_dequeue :: "ring_buffer \<Rightarrow> (u8 option \<times> ring_buffer) option" where
  "rb_dequeue rb =
     (if rb_is_empty rb then Some (None, rb)
      else do {
        let n = length (rb_arr rb);
        c \<leftarrow> index_at (rb_arr rb) (rb_head rb);
        head' \<leftarrow> rem_nat (rb_head rb + 1) n;
        Some (Some c, rb\<lparr>rb_head := head', rb_st := if head' = rb_tail rb then EMPTY else NORMAL\<rparr>) })"

definition rb_enqueue :: "u8 \<Rightarrow> ring_buffer \<Rightarrow> (unit option \<times> ring_buffer) option" where
  "rb_enqueue byte rb =
     (if rb_is_full rb then Some (None, rb)
      else do {
        let n = length (rb_arr rb);
        arr' \<leftarrow> copy_at (rb_arr rb) (rb_tail rb) [byte];
        tail' \<leftarrow> rem_nat (rb_tail rb + 1) n;
        Some (Some (), rb\<lparr>rb_arr := arr', rb_tail := tail',
          rb_st := if rb_head rb = tail' then FULL else NORMAL\<rparr>) })"

section \<open>The queue a ring buffer represents\<close>

definition cyc :: "'a list \<Rightarrow> nat \<Rightarrow> nat \<Rightarrow> 'a list" where
  "cyc xs h len = take len (drop h xs @ take h xs)"

definition rb_len :: "ring_buffer \<Rightarrow> nat" where
  "rb_len rb =
     (case rb_st rb of
        EMPTY \<Rightarrow> 0
      | FULL \<Rightarrow> length (rb_arr rb)
      | NORMAL \<Rightarrow> if rb_head rb < rb_tail rb then rb_tail rb - rb_head rb
                  else length (rb_arr rb) - rb_head rb + rb_tail rb)"

definition rb_content :: "ring_buffer \<Rightarrow> u8 list" where
  "rb_content rb = cyc (rb_arr rb) (rb_head rb) (rb_len rb)"

definition rb_capacity :: "ring_buffer \<Rightarrow> nat" where
  "rb_capacity rb = length (rb_arr rb)"

definition rb_inv :: "ring_buffer \<Rightarrow> bool" where
  "rb_inv rb \<longleftrightarrow> rb_head rb < length (rb_arr rb) \<and> rb_tail rb < length (rb_arr rb) \<and>
     (rb_st rb = NORMAL \<longleftrightarrow> rb_head rb \<noteq> rb_tail rb)"

definition wrapi :: "nat \<Rightarrow> nat \<Rightarrow> nat" where
  "wrapi n x = (if x < n then x else x - n)"

lemma mod_wrapi: "x < n + n \<Longrightarrow> 0 < n \<Longrightarrow> x mod n = wrapi n x"
  by (auto simp: wrapi_def le_mod_geq)

lemma length_cyc: "h \<le> length xs \<Longrightarrow> len \<le> length xs \<Longrightarrow> length (cyc xs h len) = len"
  by (simp add: cyc_def)

lemma nth_cyc:
  "h \<le> length xs \<Longrightarrow> len \<le> length xs \<Longrightarrow> i < len \<Longrightarrow> cyc xs h len ! i = xs ! wrapi (length xs) (h + i)"
  by (auto simp: cyc_def nth_append wrapi_def add.commute intro: arg_cong [of _ _ "(!) xs"])

lemma cyc_drop:
  assumes "h < length xs" "len \<le> length xs" "r \<le> len"
  shows "drop r (cyc xs h len) = cyc xs (wrapi (length xs) (h + r)) (len - r)"
proof (rule nth_equalityI)
  have w: "wrapi (length xs) (h + r) \<le> length xs" using assms by (auto simp: wrapi_def)
  show "length (drop r (cyc xs h len)) = length (cyc xs (wrapi (length xs) (h + r)) (len - r))"
    using assms w by (simp add: length_cyc)
  fix i assume "i < length (drop r (cyc xs h len))"
  then have i: "i < len - r" using assms by (simp add: length_cyc)
  then show "drop r (cyc xs h len) ! i = cyc xs (wrapi (length xs) (h + r)) (len - r) ! i"
    using assms w by (simp add: nth_cyc length_cyc) (auto simp: wrapi_def algebra_simps)
qed

lemma cyc_take: "r \<le> len \<Longrightarrow> take r (cyc xs h len) = cyc xs h r"
  by (simp add: cyc_def min_def)

lemma cyc_prefix: "h \<le> length xs \<Longrightarrow> h + r \<le> length xs \<Longrightarrow> cyc xs h r = take r (drop h xs)"
  by (simp add: cyc_def)

lemma cyc_wrap:
  "h \<le> length xs \<Longrightarrow> length xs < h + r \<Longrightarrow> r \<le> length xs \<Longrightarrow>
    cyc xs h r = drop h xs @ take (r - (length xs - h)) xs"
  by (simp add: cyc_def min_def) (auto simp: min_def)

lemma rb_len_facts:
  assumes "rb_inv rb"
  shows "rb_len rb \<le> length (rb_arr rb)"
    and "rb_tail rb = wrapi (length (rb_arr rb)) (rb_head rb + rb_len rb)"
    and "rb_st rb = EMPTY \<longleftrightarrow> rb_len rb = 0"
    and "rb_st rb = FULL \<longleftrightarrow> rb_len rb = length (rb_arr rb)"
    and "0 < length (rb_arr rb)"
  using assms by (auto simp: rb_inv_def rb_len_def wrapi_def split: rb_state.splits)

lemma rb_len_pos:
  assumes "rb_inv rb" "rb_st rb \<noteq> EMPTY"
  shows "rb_len rb = (if rb_head rb < rb_tail rb then rb_tail rb - rb_head rb
    else length (rb_arr rb) - rb_head rb + rb_tail rb)"
  using assms by (auto simp: rb_inv_def rb_len_def split: rb_state.splits)

lemma rb_room:
  assumes "rb_inv rb" "rb_st rb \<noteq> FULL"
  shows "length (rb_arr rb) - rb_len rb =
    (if rb_head rb \<le> rb_tail rb then length (rb_arr rb) - (rb_tail rb - rb_head rb)
     else rb_head rb - rb_tail rb)"
  using assms by (auto simp: rb_inv_def rb_len_def split: rb_state.splits)

lemma rb_rebuild:
  assumes "h < length arr" "len \<le> length arr" "t = wrapi (length arr) (h + len)"
    and "st = (if len = 0 then EMPTY else if len = length arr then FULL else NORMAL)"
  shows "rb_inv \<lparr>rb_arr = arr, rb_head = h, rb_tail = t, rb_st = st\<rparr>"
    and "rb_len \<lparr>rb_arr = arr, rb_head = h, rb_tail = t, rb_st = st\<rparr> = len"
  using assms by (auto simp: rb_inv_def rb_len_def wrapi_def)

lemma length_rb_content [simp]: "rb_inv rb \<Longrightarrow> length (rb_content rb) = rb_len rb"
  using rb_len_facts(1) by (simp add: rb_content_def length_cyc rb_inv_def)

text \<open>Consuming \<open>r\<close> bytes from the front, and producing \<open>ys\<close> at the back.\<close>

lemma rb_advance_head:
  assumes inv: "rb_inv rb" and r: "0 < r" "r \<le> rb_len rb"
  defines "h \<equiv> (rb_head rb + r) mod length (rb_arr rb)"
  defines "rb' \<equiv> rb\<lparr>rb_head := h, rb_st := if h = rb_tail rb then EMPTY else NORMAL\<rparr>"
  shows "rb_inv rb'" and "rb_content rb' = drop r (rb_content rb)"
proof -
  let ?n = "length (rb_arr rb)"
  note len = rb_len_facts [OF inv]
  have head: "rb_head rb < ?n" using inv by (simp add: rb_inv_def)
  have h: "h = wrapi ?n (rb_head rb + r)"
    unfolding h_def by (rule mod_wrapi) (use head r len(1) in linarith)+
  have eq: "h = rb_tail rb \<longleftrightarrow> rb_len rb = r" "h < ?n"
    "rb_tail rb = wrapi ?n (h + (rb_len rb - r))"
    using head r len(1) unfolding h len(2) by (auto simp: wrapi_def)
  have rb': "rb' = \<lparr>rb_arr = rb_arr rb, rb_head = h, rb_tail = rb_tail rb,
      rb_st = if h = rb_tail rb then EMPTY else NORMAL\<rparr>"
    unfolding rb'_def by (cases rb) simp
  have "(if h = rb_tail rb then EMPTY else NORMAL) =
      (if rb_len rb - r = 0 then EMPTY else if rb_len rb - r = ?n then FULL else NORMAL)"
    using eq(1) r len(1) by auto
  from rb_rebuild [OF eq(2) _ eq(3) this]
  have "rb_inv rb' \<and> rb_len rb' = rb_len rb - r"
    unfolding rb' using len(1) by simp
  then show "rb_inv rb'" "rb_content rb' = drop r (rb_content rb)"
    using cyc_drop [OF head len(1) r(2)] by (auto simp: rb_content_def rb'_def h)
qed

lemma cyc_append:
  assumes "h < length xs" "len + length ys \<le> length xs" "length xs' = length xs"
    and old: "\<And>i. i < len \<Longrightarrow> xs' ! wrapi (length xs) (h + i) = xs ! wrapi (length xs) (h + i)"
    and new: "\<And>i. i < length ys \<Longrightarrow> xs' ! wrapi (length xs) (h + (len + i)) = ys ! i"
  shows "cyc xs' h (len + length ys) = cyc xs h len @ ys"
proof (rule nth_equalityI)
  show "length (cyc xs' h (len + length ys)) = length (cyc xs h len @ ys)"
    using assms(1-3) by (simp add: length_cyc)
  fix i assume "i < length (cyc xs' h (len + length ys))"
  then have i: "i < len + length ys" using assms(1-3) by (simp add: length_cyc)
  show "cyc xs' h (len + length ys) ! i = (cyc xs h len @ ys) ! i"
    using assms(1-3) i old [of i] new [of "i - len"]
    by (cases "i < len") (auto simp: nth_cyc nth_append length_cyc)
qed

lemma rb_advance_tail:
  assumes inv: "rb_inv rb" and ys: "ys \<noteq> []" "rb_len rb + length ys \<le> length (rb_arr rb)"
    and arr': "length arr' = length (rb_arr rb)"
    and old: "\<And>i. i < rb_len rb \<Longrightarrow>
      arr' ! wrapi (length (rb_arr rb)) (rb_head rb + i) = rb_arr rb ! wrapi (length (rb_arr rb)) (rb_head rb + i)"
    and new: "\<And>i. i < length ys \<Longrightarrow> arr' ! wrapi (length (rb_arr rb)) (rb_tail rb + i) = ys ! i"
  defines "t \<equiv> (rb_tail rb + length ys) mod length (rb_arr rb)"
  defines "rb' \<equiv> rb\<lparr>rb_arr := arr', rb_tail := t, rb_st := if rb_head rb = t then FULL else NORMAL\<rparr>"
  shows "rb_inv rb'" and "rb_content rb' = rb_content rb @ ys"
proof -
  let ?n = "length (rb_arr rb)"
  note len = rb_len_facts [OF inv]
  have head: "rb_head rb < ?n" "rb_tail rb < ?n" using inv by (auto simp: rb_inv_def)
  have t: "t = wrapi ?n (rb_tail rb + length ys)"
    unfolding t_def by (rule mod_wrapi) (use head ys in linarith)+
  have pos: "0 < length ys" using ys(1) by simp
  have eq: "rb_head rb = t \<longleftrightarrow> rb_len rb + length ys = ?n"
    "t = wrapi ?n (rb_head rb + (rb_len rb + length ys))"
    using head ys(2) pos unfolding t len(2) by (auto simp: wrapi_def)
  have rb': "rb' = \<lparr>rb_arr = arr', rb_head = rb_head rb, rb_tail = t,
      rb_st = if rb_head rb = t then FULL else NORMAL\<rparr>"
    unfolding rb'_def by (cases rb) simp
  have "(if rb_head rb = t then FULL else NORMAL) =
      (if rb_len rb + length ys = 0 then EMPTY else if rb_len rb + length ys = ?n then FULL else NORMAL)"
    using eq(1) pos by auto
  from rb_rebuild [of "rb_head rb" arr', OF _ _ _ this [folded arr']]
  have inv': "rb_inv rb' \<and> rb_len rb' = rb_len rb + length ys"
    unfolding rb' using head ys(2) eq(2) arr' by simp
  have "wrapi ?n (rb_head rb + (rb_len rb + i)) = wrapi ?n (rb_tail rb + i)" if "i < length ys" for i
    using that head ys(2) unfolding len(2) by (auto simp: wrapi_def)
  with cyc_append [OF head(1) ys(2) arr' old] new
  have "cyc arr' (rb_head rb) (rb_len rb + length ys) = cyc (rb_arr rb) (rb_head rb) (rb_len rb) @ ys"
    by simp
  with inv' show "rb_inv rb'" "rb_content rb' = rb_content rb @ ys"
    by (auto simp: rb_content_def rb')
qed

lemma rb_copy_out_ok:
  assumes inv: "rb_inv rb" and st: "rb_st rb \<noteq> EMPTY"
    and r: "r = min (rb_len rb) (length buf)"
  shows "rb_copy_out buf rb = Some (r, take r (rb_content rb) @ drop r buf)"
proof -
  let ?n = "length (rb_arr rb)" and ?h = "rb_head rb"
  have bnd: "?h < ?n" "rb_tail rb < ?n" using inv by (auto simp: rb_inv_def)
  note len = rb_len_facts [OF inv] and plen = rb_len_pos [OF inv st]
  have data: "take r (rb_content rb) = cyc (rb_arr rb) ?h r"
    unfolding rb_content_def by (rule cyc_take) (simp add: r)
  have le: "r \<le> length buf" "r \<le> rb_len rb" by (simp_all add: r)
  have mins: "?h < rb_tail rb \<Longrightarrow> min (rb_tail rb - ?h) (length buf) = r"
    "\<not> ?h < rb_tail rb \<Longrightarrow> min (?n - ?h + rb_tail rb) (length buf) = r"
    using plen by (simp_all add: r)
  show ?thesis
  proof (cases "?h + r \<le> ?n")
    case True
    then have "cyc (rb_arr rb) ?h r = take r (drop ?h (rb_arr rb))"
      using bnd by (intro cyc_prefix) auto
    moreover have "r \<le> ?n - ?h" using True by simp
    ultimately show ?thesis
      unfolding data rb_copy_out_def Let_def
      using True le bnd mins by (cases "?h < rb_tail rb") (simp_all add: copy_at_Some)
  next
    case wrap: False
    then have gap: "\<not> ?h < rb_tail rb" using plen bnd le(2) by auto
    then have "min (?n - ?h + rb_tail rb) (length buf) = r"
      by (rule mins(2))
    moreover have "cyc (rb_arr rb) ?h r = drop ?h (rb_arr rb) @ take (r - (?n - ?h)) (rb_arr rb)"
      using wrap bnd le len(1) by (intro cyc_wrap) auto
    moreover have "\<not> r \<le> ?n - ?h" using wrap bnd by linarith
    ultimately show ?thesis
      unfolding data rb_copy_out_def Let_def
      using wrap gap le bnd len(1) by (simp add: copy_at_Some)
  qed
qed

lemma rb_read_ok:
  assumes inv: "rb_inv rb" and r: "r = min (rb_len rb) (length buf)"
  shows "\<exists>rb'. rb_read buf rb = Some (r, take r (rb_content rb) @ drop r buf, rb') \<and>
    rb_inv rb' \<and> rb_content rb' = drop r (rb_content rb) \<and> rb_capacity rb' = rb_capacity rb"
proof (cases "rb_st rb = EMPTY \<or> buf = []")
  case True
  then have "r = 0" using rb_len_facts(3) [OF inv] by (auto simp: r)
  with True inv show ?thesis by (simp add: rb_read_def)
next
  case False
  note len = rb_len_facts [OF inv]
  have pos: "0 < r" "r \<le> rb_len rb" using False len(3) by (auto simp: r)
  have "rb_read buf rb = Some (r, take r (rb_content rb) @ drop r buf,
      rb\<lparr>rb_head := (rb_head rb + r) mod length (rb_arr rb),
         rb_st := if (rb_head rb + r) mod length (rb_arr rb) = rb_tail rb then EMPTY else NORMAL\<rparr>)"
    using False len(5) rb_copy_out_ok [OF inv _ r] by (simp add: rb_read_def rem_nat_def)
  then show ?thesis
    using rb_advance_head [OF inv pos] by (simp add: rb_capacity_def)
qed

text \<open>The bytes copied in land behind the old content, and the old content stays.\<close>

lemma rb_copy_in_ok:
  assumes inv: "rb_inv rb" and st: "rb_st rb \<noteq> FULL"
    and r: "r = min (rb_capacity rb - rb_len rb) (length buf)"
  shows "\<exists>arr'. rb_copy_in buf rb = Some (r, arr') \<and> length arr' = length (rb_arr rb) \<and>
    (\<forall>i < rb_len rb. arr' ! wrapi (length (rb_arr rb)) (rb_head rb + i) =
      rb_arr rb ! wrapi (length (rb_arr rb)) (rb_head rb + i)) \<and>
    (\<forall>i < r. arr' ! wrapi (length (rb_arr rb)) (rb_tail rb + i) = buf ! i)"
proof -
  let ?n = "length (rb_arr rb)" and ?h = "rb_head rb" and ?t = "rb_tail rb"
  have bnd: "?h < ?n" "?t < ?n" using inv by (auto simp: rb_inv_def)
  note len = rb_len_facts [OF inv] and room = rb_room [OF inv st]
  have rb: "r \<le> length buf" "rb_len rb + r \<le> ?n" using len(1) by (auto simp: r rb_capacity_def)
  have mins: "?h \<le> ?t \<Longrightarrow> min (?n - (?t - ?h)) (length buf) = r"
    "\<not> ?h \<le> ?t \<Longrightarrow> min (?h - ?t) (length buf) = r"
    using room by (simp_all add: r rb_capacity_def)
  show ?thesis
  proof (cases "?t + r \<le> ?n")
    case True
    then obtain arr' where c: "copy_at (rb_arr rb) ?t (take r buf) = Some arr'"
      using rb by (simp add: copy_at_def)
    have "rb_copy_in buf rb = Some (r, arr')"
      unfolding rb_copy_in_def Let_def
      using le_diff_conv2 [of ?t ?n r] True rb c mins bnd by (cases "?h \<le> ?t") (simp_all add: add.commute)
    moreover have "arr' ! wrapi ?n (?h + i) = rb_arr rb ! wrapi ?n (?h + i)" if "i < rb_len rb" for i
      using nth_copy_at [OF c, of "wrapi ?n (?h + i)"] that bnd rb unfolding len(2)
      by (auto simp: wrapi_def split: if_splits)
    moreover have "arr' ! wrapi ?n (?t + i) = buf ! i" if "i < r" for i
      using nth_copy_at [OF c, of "?t + i"] that bnd True rb by (auto simp: wrapi_def)
    ultimately show ?thesis using length_copy_at [OF c] by blast
  next
    case wrap: False
    have "?t + length (take (?n - ?t) buf) \<le> ?n" using bnd by auto
    from copy_at_Some [OF this] obtain arr1
      where c1: "copy_at (rb_arr rb) ?t (take (?n - ?t) buf) = Some arr1" by blast
    have "0 + length (take (r - (?n - ?t)) (drop (?n - ?t) buf)) \<le> length arr1"
      using rb bnd length_copy_at [OF c1] by auto
    from copy_at_Some [OF this] obtain arr'
      where c2: "copy_at arr1 0 (take (r - (?n - ?t)) (drop (?n - ?t) buf)) = Some arr'" by blast
    have gap: "?h \<le> ?t" using wrap mins(2) bnd by linarith
    moreover have "\<not> r \<le> ?n - ?t" using wrap bnd by linarith
    ultimately have "rb_copy_in buf rb = Some (r, arr')"
      unfolding rb_copy_in_def Let_def using mins(1) rb(1) c1 c2 by simp
    moreover have "arr' ! wrapi ?n (?h + i) = rb_arr rb ! wrapi ?n (?h + i)" if "i < rb_len rb" for i
      using nth_copy_at [OF c2, of "wrapi ?n (?h + i)"] nth_copy_at [OF c1, of "wrapi ?n (?h + i)"]
        that bnd rb wrap length_copy_at [OF c1] unfolding len(2)
      by (auto simp: wrapi_def split: if_splits)
    moreover have "arr' ! wrapi ?n (?t + i) = buf ! i" if "i < r" for i
      using nth_copy_at [OF c2, of "wrapi ?n (?t + i)"] nth_copy_at [OF c1, of "wrapi ?n (?t + i)"]
        that bnd rb wrap length_copy_at [OF c1]
      by (auto simp: wrapi_def split: if_splits)
    ultimately show ?thesis using length_copy_at [OF c1] length_copy_at [OF c2] by auto
  qed
qed

lemma rb_write_ok:
  assumes inv: "rb_inv rb" and r: "r = min (rb_capacity rb - rb_len rb) (length buf)"
  shows "\<exists>rb'. rb_write buf rb = Some (r, rb') \<and>
    rb_inv rb' \<and> rb_content rb' = rb_content rb @ take r buf \<and> rb_capacity rb' = rb_capacity rb"
proof (cases "rb_st rb = FULL \<or> buf = []")
  case True
  then have "r = 0" using rb_len_facts(4) [OF inv] by (auto simp: r rb_capacity_def)
  with True inv show ?thesis by (simp add: rb_write_def)
next
  case False
  note len = rb_len_facts [OF inv]
  have "r \<le> length buf" by (simp add: r)
  moreover have "take r buf \<noteq> []" "rb_len rb + r \<le> length (rb_arr rb)"
    using False len(1,4) by (auto simp: r rb_capacity_def)
  moreover obtain arr' where arr': "rb_copy_in buf rb = Some (r, arr')"
    "length arr' = length (rb_arr rb)"
    "\<And>i. i < rb_len rb \<Longrightarrow> arr' ! wrapi (length (rb_arr rb)) (rb_head rb + i) =
      rb_arr rb ! wrapi (length (rb_arr rb)) (rb_head rb + i)"
    "\<And>i. i < r \<Longrightarrow> arr' ! wrapi (length (rb_arr rb)) (rb_tail rb + i) = buf ! i"
    using rb_copy_in_ok [OF inv _ r] False by blast
  ultimately show ?thesis
    using False len(5) rb_advance_tail [OF inv, of "take r buf" arr']
    by (simp add: rb_write_def rem_nat_def rb_capacity_def)
qed

lemma rb_enqueue_write:
  assumes "rb_inv rb"
  shows "rb_enqueue c rb =
    map_option (\<lambda>(n, rb'). (if n = 1 then Some () else None, rb')) (rb_write [c] rb)"
proof (cases "rb_st rb = FULL")
  case True
  then show ?thesis by (simp add: rb_enqueue_def rb_is_full_def rb_write_def)
next
  case False
  have bnd: "rb_head rb < length (rb_arr rb)" "rb_tail rb < length (rb_arr rb)"
    using assms by (auto simp: rb_inv_def)
  then have "min (length (rb_arr rb) - (rb_tail rb - rb_head rb)) 1 = 1"
    "rb_head rb \<le> rb_tail rb \<or> min (rb_head rb - rb_tail rb) 1 = 1" "1 \<le> length (rb_arr rb) - rb_tail rb"
    by auto
  then have "rb_copy_in [c] rb = map_option (Pair 1) (copy_at (rb_arr rb) (rb_tail rb) [c])"
    by (auto simp: rb_copy_in_def Let_def copy_at_def)
  then show ?thesis
    using False bnd
    by (auto simp: rb_enqueue_def rb_is_full_def rb_write_def copy_at_def rem_nat_def)
qed

lemma rb_dequeue_read:
  assumes "rb_inv rb"
  shows "rb_dequeue rb =
    map_option (\<lambda>(n, b, rb'). (if n = 1 then Some (hd b) else None, rb')) (rb_read [x] rb)"
proof (cases "rb_st rb = EMPTY")
  case True
  then show ?thesis by (simp add: rb_dequeue_def rb_is_empty_def rb_read_def)
next
  case False
  have bnd: "rb_head rb < length (rb_arr rb)" using assms by (simp add: rb_inv_def)
  have one: "1 = min (rb_len rb) (length [x])" using False rb_len_facts(3) [OF assms] by simp
  have pos: "0 < rb_len rb" using False rb_len_facts(3) [OF assms] by simp
  have "length (rb_content rb) = rb_len rb" by (rule length_rb_content [OF assms])
  then have "rb_content rb \<noteq> []" using pos by auto
  moreover have "rb_content rb ! 0 = rb_arr rb ! rb_head rb"
    using pos bnd rb_len_facts(1) [OF assms] by (simp add: rb_content_def nth_cyc wrapi_def)
  ultimately have "take 1 (rb_content rb) = [rb_arr rb ! rb_head rb]"
    by (cases "rb_content rb") simp_all
  then have "rb_copy_out [x] rb = Some (1, [rb_arr rb ! rb_head rb])"
    using rb_copy_out_ok [OF assms False one] by simp
  then show ?thesis
    using False bnd by (simp add: rb_dequeue_def rb_is_empty_def rb_read_def index_at_def rem_nat_def)
qed

section \<open>The interface to clients\<close>

text \<open>
  A history of reads and writes on a queue: the bytes accepted by the writes, the bytes
  delivered by the reads, and the final queue.
\<close>

datatype io = Wr "u8 list" | Rd "u8 list"

fun fifo_run ::
  "(u8 list \<Rightarrow> 'q \<Rightarrow> (nat \<times> u8 list \<times> 'q) option) \<Rightarrow> (u8 list \<Rightarrow> 'q \<Rightarrow> (nat \<times> 'q) option) \<Rightarrow>
   io list \<Rightarrow> 'q \<Rightarrow> (u8 list \<times> u8 list \<times> 'q) option" where
  "fifo_run rd wr [] q = Some ([], [], q)"
| "fifo_run rd wr (Wr buf # es) q = do {
     (n, q1) \<leftarrow> wr buf q;
     (sent, got, q2) \<leftarrow> fifo_run rd wr es q1;
     Some (take n buf @ sent, got, q2) }"
| "fifo_run rd wr (Rd buf # es) q = do {
     (n, b, q1) \<leftarrow> rd buf q;
     (sent, got, q2) \<leftarrow> fifo_run rd wr es q1;
     Some (sent, take n b @ got, q2) }"

locale byte_fifo =
  fixes inv :: "'q \<Rightarrow> bool"
    and content :: "'q \<Rightarrow> u8 list"
    and capacity :: "'q \<Rightarrow> nat"
    and rd :: "u8 list \<Rightarrow> 'q \<Rightarrow> (nat \<times> u8 list \<times> 'q) option"
    and wr :: "u8 list \<Rightarrow> 'q \<Rightarrow> (nat \<times> 'q) option"
  assumes content_bound: "inv q \<Longrightarrow> length (content q) \<le> capacity q"
    and capacity_pos: "inv q \<Longrightarrow> 0 < capacity q"
    and rd_law: "inv q \<Longrightarrow> r = min (length (content q)) (length buf) \<Longrightarrow>
      \<exists>q'. rd buf q = Some (r, take r (content q) @ drop r buf, q') \<and>
        inv q' \<and> content q' = drop r (content q) \<and> capacity q' = capacity q"
    and wr_law: "inv q \<Longrightarrow> r = min (capacity q - length (content q)) (length buf) \<Longrightarrow>
      \<exists>q'. wr buf q = Some (r, q') \<and>
        inv q' \<and> content q' = content q @ take r buf \<and> capacity q' = capacity q"
begin

lemma rd_zero:
  "inv q \<Longrightarrow> buf \<noteq> [] \<Longrightarrow> rd buf q = Some (n, b, q') \<Longrightarrow> n = 0 \<longleftrightarrow> content q = []"
  using rd_law [OF _ refl, of q buf] by (auto simp: min_def split: if_splits)

lemma wr_zero:
  "inv q \<Longrightarrow> buf \<noteq> [] \<Longrightarrow> wr buf q = Some (n, q') \<Longrightarrow> n = 0 \<longleftrightarrow> length (content q) = capacity q"
  using wr_law [OF _ refl, of q buf] content_bound [of q] by (auto simp: min_def split: if_splits)

lemma stream:
  "inv q \<Longrightarrow> \<exists>sent got q'. fifo_run rd wr es q = Some (sent, got, q') \<and> inv q' \<and>
     content q @ sent = got @ content q' \<and> capacity q' = capacity q"
proof (induction es arbitrary: q)
  case Nil
  then show ?case by simp
next
  case (Cons e es)
  show ?case
  proof (cases e)
    case (Wr buf)
    obtain r q1 where q1: "wr buf q = Some (r, q1)" "inv q1" "content q1 = content q @ take r buf"
      "capacity q1 = capacity q"
      using wr_law [OF Cons.prems refl] by blast
    obtain s g q2 where q2: "fifo_run rd wr es q1 = Some (s, g, q2)" "inv q2"
      "content q1 @ s = g @ content q2" "capacity q2 = capacity q1"
      using Cons.IH [OF q1(2)] by blast
    show ?thesis using q1 q2 by (simp add: Wr)
  next
    case (Rd buf)
    let ?r = "min (length (content q)) (length buf)"
    obtain q1 where q1: "rd buf q = Some (?r, take ?r (content q) @ drop ?r buf, q1)" "inv q1"
      "content q1 = drop ?r (content q)" "capacity q1 = capacity q"
      using rd_law [OF Cons.prems refl] by blast
    obtain s g q2 where q2: "fifo_run rd wr es q1 = Some (s, g, q2)" "inv q2"
      "content q1 @ s = g @ content q2" "capacity q2 = capacity q1"
      using Cons.IH [OF q1(2)] by blast
    have "content q @ s = take ?r (content q) @ content q1 @ s"
      unfolding q1(3) by simp
    moreover have "fifo_run rd wr (e # es) q = Some (s, take ?r (content q) @ g, q2)"
      unfolding Rd by (simp add: q1(1) q2(1))
    ultimately show ?thesis using q1(4) q2(2-4) by simp
  qed
qed

end

interpretation rb: byte_fifo rb_inv rb_content rb_capacity rb_read rb_write
proof
  fix q :: ring_buffer
  assume inv: "rb_inv q"
  show "length (rb_content q) \<le> rb_capacity q" "0 < rb_capacity q"
    using rb_len_facts [OF inv] inv by (simp_all add: rb_capacity_def)
  show "\<exists>q'. rb_read buf q = Some (r, take r (rb_content q) @ drop r buf, q') \<and>
      rb_inv q' \<and> rb_content q' = drop r (rb_content q) \<and> rb_capacity q' = rb_capacity q"
    if "r = min (length (rb_content q)) (length buf)" for r buf
    using rb_read_ok [OF inv] that inv by simp
  show "\<exists>q'. rb_write buf q = Some (r, q') \<and>
      rb_inv q' \<and> rb_content q' = rb_content q @ take r buf \<and> rb_capacity q' = rb_capacity q"
    if "r = min (rb_capacity q - length (rb_content q)) (length buf)" for r buf
    using rb_write_ok [OF inv] that inv by simp
qed

lemma rb_new_inv: "0 < len \<Longrightarrow> rb_inv (rb_new len)"
  by (simp add: rb_new_def rb_inv_def)

lemma rb_new_content [simp]: "rb_content (rb_new len) = []" "rb_capacity (rb_new len) = len"
  by (simp_all add: rb_new_def rb_content_def rb_len_def cyc_def rb_capacity_def)

section \<open>Correctness of the ring buffer\<close>

text \<open>
  C34. A ring buffer is a bounded byte queue. Over any sequence of reads and writes of any
  sizes on a fresh buffer, no call panics, the bytes delivered by the reads followed by
  those still stored are exactly the bytes the writes accepted, in order, and the buffer
  never holds more than its capacity.
\<close>

theorem ring_buffer_stream:
  assumes "0 < len"
  shows "\<exists>sent got rb'. fifo_run rb_read rb_write es (rb_new len) = Some (sent, got, rb') \<and>
    rb_inv rb' \<and> sent = got @ rb_content rb' \<and> length (rb_content rb') \<le> len"
proof -
  from rb.stream [OF rb_new_inv [OF assms], of es] obtain s g q where
    q: "fifo_run rb_read rb_write es (rb_new len) = Some (s, g, q)" "rb_inv q"
      "s = g @ rb_content q" "rb_capacity q = len" by auto
  with rb.content_bound [OF q(2)] show ?thesis by auto
qed

theorem ring_buffer_stream_witness:
  "\<exists>sent got rb'.
    fifo_run rb_read rb_write [Wr [1, 2, 3], Rd [0, 0], Wr [4, 5, 6], Rd [0, 0, 0]] (rb_new 3) =
      Some (sent, got, rb') \<and> rb_inv rb' \<and> sent = got @ rb_content rb' \<and> length (rb_content rb') \<le> 3"
  by (rule ring_buffer_stream) simp

text \<open>
  One read or write moves as many bytes as fit. On a well-formed buffer a read fills
  the front of the caller's buffer with the oldest bytes and removes them, a write appends
  the front of the caller's bytes, and the counts are the minimum of what is there (or of
  the room left) and the size of the caller's buffer. The single-byte operations are the
  same transfers with one byte.
\<close>

theorem ring_buffer_transfer:
  assumes "rb_inv rb" and "r = min (length (rb_content rb)) (length buf)"
    and "w = min (rb_capacity rb - length (rb_content rb)) (length buf)"
  shows "(\<exists>rb'. rb_read buf rb = Some (r, take r (rb_content rb) @ drop r buf, rb') \<and> rb_inv rb' \<and>
      rb_content rb' = drop r (rb_content rb)) \<and>
    (\<exists>rb'. rb_write buf rb = Some (w, rb') \<and> rb_inv rb' \<and> rb_content rb' = rb_content rb @ take w buf) \<and>
    rb_enqueue c rb =
      map_option (\<lambda>(n, rb'). (if n = 1 then Some () else None, rb')) (rb_write [c] rb) \<and>
    rb_dequeue rb =
      map_option (\<lambda>(n, b, rb'). (if n = 1 then Some (hd b) else None, rb')) (rb_read [c] rb)"
  using rb.rd_law [OF assms(1,2)] rb.wr_law [OF assms(1,3)] rb_enqueue_write [OF assms(1)]
    rb_dequeue_read [OF assms(1)] by blast

theorem ring_buffer_transfer_witness:
  "\<exists>rb'. rb_read [9, 9] \<lparr>rb_arr = [1, 2, 3], rb_head = 2, rb_tail = 1, rb_st = NORMAL\<rparr> = Some (2, [3, 1], rb') \<and>
    rb_content rb' = []"
proof -
  let ?rb = "\<lparr>rb_arr = [1, 2, 3], rb_head = 2, rb_tail = 1, rb_st = NORMAL\<rparr>"
  have "rb_inv ?rb" and c: "rb_content ?rb = [3, 1]" "rb_capacity ?rb = 3"
    by (simp_all add: rb_inv_def rb_content_def rb_len_def cyc_def rb_capacity_def)
  from ring_buffer_transfer [OF this(1), of 2 "[9, 9]" 1 0] c show ?thesis by auto
qed

end
