(* ===== verification/Pipe.thy ===== *)
theory Pipe
  imports Ring_Buffer
begin

unbundle bit_operations_syntax

text \<open>
  Pipes, \<^verbatim>\<open>os/src/fs/pipefs.rs\<close>. The metadata record holds the two close flags, the ring
  buffer and the two queues of wakers; a waker is the identifier of the task it wakes.
  Every section of the source that runs under the metadata lock is one definition, so that
  a blocking read is a poll section, possibly repeated after a wake-up, followed by a
  transfer section. The step relation below interleaves the sections of one reader task
  and one writer task in every order, with spurious polls and with \<^verbatim>\<open>ppoll\<close> registrations,
  and the invariant gives stream integrity, correct end-of-file and absence of lost
  wake-ups.
\<close>

section \<open>Poll events\<close>

type_synonym poll_events = "16 word"

definition EV_IN :: poll_events where "EV_IN = 0x001"
definition EV_OUT :: poll_events where "EV_OUT = 0x004"
definition EV_ERR :: poll_events where "EV_ERR = 0x008"
definition EV_HUP :: poll_events where "EV_HUP = 0x010"

definition ev_contains :: "poll_events \<Rightarrow> poll_events \<Rightarrow> bool" where
  "ev_contains evs e \<longleftrightarrow> evs AND e = e"

datatype 'a poll = Ready 'a | Pending

section \<open>Pipe metadata\<close>

type_synonym task_id = nat

record pipe_meta =
  is_write_closed :: bool
  is_read_closed :: bool
  pipe_ring :: ring_buffer
  read_waker :: "task_id list"
  write_waker :: "task_id list"

datatype pipe_error = EPIPE

definition pipe_new :: "nat \<Rightarrow> pipe_meta" where
  "pipe_new len = \<lparr>is_write_closed = False, is_read_closed = False, pipe_ring = rb_new len,
     read_waker = [], write_waker = []\<rparr>"

definition pipe_write_poll :: "poll_events \<Rightarrow> task_id \<Rightarrow> pipe_meta \<Rightarrow> poll_events poll \<times> pipe_meta" where
  "pipe_write_poll events w meta =
     (if is_read_closed meta then (Ready (0 OR EV_ERR), meta)
      else if ev_contains events EV_OUT \<and> \<not> rb_is_full (pipe_ring meta)
      then (Ready (0 OR EV_OUT), meta)
      else (Pending, meta\<lparr>write_waker := write_waker meta @ [w]\<rparr>))"

definition pipe_read_poll :: "poll_events \<Rightarrow> task_id \<Rightarrow> pipe_meta \<Rightarrow> poll_events poll \<times> pipe_meta" where
  "pipe_read_poll events w meta =
     (if ev_contains events EV_IN \<and> \<not> rb_is_empty (pipe_ring meta)
      then (Ready (0 OR EV_IN), meta)
      else if is_write_closed meta then (Ready (0 OR EV_HUP), meta)
      else (Pending, meta\<lparr>read_waker := read_waker meta @ [w]\<rparr>))"

text \<open>
  The rest of \<^verbatim>\<open>read\<close> and \<^verbatim>\<open>write\<close> after the poll: the result, the new metadata and the
  task that is woken, if any.
\<close>

definition pop_front :: "'a list \<Rightarrow> 'a option \<times> 'a list" where
  "pop_front q = (case q of [] \<Rightarrow> (None, []) | x # xs \<Rightarrow> (Some x, xs))"

definition pipe_read_finish ::
  "poll_events \<Rightarrow> u8 list \<Rightarrow> pipe_meta \<Rightarrow> (nat \<times> u8 list \<times> pipe_meta \<times> task_id option) option" where
  "pipe_read_finish revents buf meta =
     (if ev_contains revents EV_HUP then Some (0, buf, meta, None)
      else do {
        assert_that (ev_contains revents EV_IN);
        (n, buf', rb') \<leftarrow> rb_read buf (pipe_ring meta);
        let (w, q) = pop_front (write_waker meta);
        Some (n, buf', meta\<lparr>pipe_ring := rb', write_waker := q\<rparr>, w) })"

definition pipe_write_finish ::
  "poll_events \<Rightarrow> u8 list \<Rightarrow> pipe_meta \<Rightarrow> ((pipe_error + nat) \<times> pipe_meta \<times> task_id option) option" where
  "pipe_write_finish revents buf meta =
     (if ev_contains revents EV_ERR then Some (Inl EPIPE, meta, None)
      else do {
        assert_that (ev_contains revents EV_OUT);
        (n, rb') \<leftarrow> rb_write buf (pipe_ring meta);
        let (w, q) = pop_front (read_waker meta);
        Some (Inr n, meta\<lparr>pipe_ring := rb', read_waker := q\<rparr>, w) })"

definition pipe_base_poll :: "bool \<Rightarrow> poll_events \<Rightarrow> task_id \<Rightarrow> pipe_meta \<Rightarrow> poll_events \<times> pipe_meta" where
  "pipe_base_poll operate events w meta =
     (if \<not> operate then
        (let res = (if is_read_closed meta then 0 OR EV_ERR else 0)
         in if ev_contains events EV_OUT \<and> \<not> rb_is_full (pipe_ring meta)
            then (res OR EV_OUT, meta)
            else (res, meta\<lparr>write_waker := write_waker meta @ [w]\<rparr>))
      else
        (let res = (if is_write_closed meta then 0 OR EV_HUP else 0)
         in if ev_contains events EV_IN \<and> \<not> rb_is_empty (pipe_ring meta)
            then (res OR EV_IN, meta)
            else (res, meta\<lparr>read_waker := read_waker meta @ [w]\<rparr>)))"

text \<open>Dropping an end closes it and wakes every task waiting at the other end.\<close>

definition pipe_drop :: "bool \<Rightarrow> pipe_meta \<Rightarrow> pipe_meta \<times> task_id list" where
  "pipe_drop operate meta =
     (if operate
      then (meta\<lparr>is_read_closed := True, write_waker := []\<rparr>, write_waker meta)
      else (meta\<lparr>is_write_closed := True, read_waker := []\<rparr>, read_waker meta))"

section \<open>A reader and a writer\<close>

datatype rstate = RIdle | RPolling "u8 list" | RParked "u8 list" | RReady "u8 list" poll_events | RClosed

datatype wstate = WIdle | WPolling "u8 list" | WParked "u8 list" | WReady "u8 list" poll_events | WClosed

record pipe_sys =
  p_meta :: pipe_meta
  p_reader :: rstate
  p_writer :: wstate
  p_sent :: "u8 list"
  p_got :: "u8 list"
  p_eof :: bool

abbreviation (input) reader_id :: task_id where "reader_id \<equiv> 0"
abbreviation (input) writer_id :: task_id where "writer_id \<equiv> 1"

fun wake_reader :: "rstate \<Rightarrow> rstate" where
  "wake_reader (RParked buf) = RPolling buf"
| "wake_reader r = r"

fun wake_writer :: "wstate \<Rightarrow> wstate" where
  "wake_writer (WParked buf) = WPolling buf"
| "wake_writer w = w"

definition pipe_start :: "nat \<Rightarrow> pipe_sys" where
  "pipe_start len = \<lparr>p_meta = pipe_new len, p_reader = RIdle, p_writer = WIdle,
     p_sent = [], p_got = [], p_eof = False\<rparr>"

inductive pipe_step :: "pipe_sys \<Rightarrow> pipe_sys \<Rightarrow> bool" where
  read_call: "p_reader s = RIdle \<Longrightarrow> buf \<noteq> [] \<Longrightarrow> pipe_step s (s\<lparr>p_reader := RPolling buf\<rparr>)"
| read_ready: "p_reader s = RPolling buf \<Longrightarrow> pipe_read_poll EV_IN reader_id (p_meta s) = (Ready ev, m) \<Longrightarrow>
    pipe_step s (s\<lparr>p_meta := m, p_reader := RReady buf ev\<rparr>)"
| read_park: "p_reader s = RPolling buf \<Longrightarrow> pipe_read_poll EV_IN reader_id (p_meta s) = (Pending, m) \<Longrightarrow>
    pipe_step s (s\<lparr>p_meta := m, p_reader := RParked buf\<rparr>)"
| read_spurious: "p_reader s = RParked buf \<Longrightarrow> pipe_step s (s\<lparr>p_reader := RPolling buf\<rparr>)"
| read_finish: "p_reader s = RReady buf ev \<Longrightarrow> pipe_read_finish ev buf (p_meta s) = Some (n, buf', m, w) \<Longrightarrow>
    pipe_step s (s\<lparr>p_meta := m, p_reader := RIdle, p_got := p_got s @ take n buf',
      p_eof := p_eof s \<or> n = 0, p_writer := (if w \<noteq> None then wake_writer (p_writer s) else p_writer s)\<rparr>)"
| read_ppoll: "p_reader s = RIdle \<Longrightarrow> pipe_base_poll True evs reader_id (p_meta s) = (r, m) \<Longrightarrow>
    pipe_step s (s\<lparr>p_meta := m\<rparr>)"
| read_close: "p_reader s = RIdle \<Longrightarrow> pipe_drop True (p_meta s) = (m, ws) \<Longrightarrow>
    pipe_step s (s\<lparr>p_meta := m, p_reader := RClosed,
      p_writer := (if ws \<noteq> [] then wake_writer (p_writer s) else p_writer s)\<rparr>)"
| write_call: "p_writer s = WIdle \<Longrightarrow> pipe_step s (s\<lparr>p_writer := WPolling wbuf\<rparr>)"
| write_ready: "p_writer s = WPolling wbuf \<Longrightarrow> pipe_write_poll EV_OUT writer_id (p_meta s) = (Ready ev, m) \<Longrightarrow>
    pipe_step s (s\<lparr>p_meta := m, p_writer := WReady wbuf ev\<rparr>)"
| write_park: "p_writer s = WPolling wbuf \<Longrightarrow> pipe_write_poll EV_OUT writer_id (p_meta s) = (Pending, m) \<Longrightarrow>
    pipe_step s (s\<lparr>p_meta := m, p_writer := WParked wbuf\<rparr>)"
| write_spurious: "p_writer s = WParked wbuf \<Longrightarrow> pipe_step s (s\<lparr>p_writer := WPolling wbuf\<rparr>)"
| write_finish: "p_writer s = WReady wbuf ev \<Longrightarrow> pipe_write_finish ev wbuf (p_meta s) = Some (res, m, w) \<Longrightarrow>
    pipe_step s (s\<lparr>p_meta := m, p_writer := WIdle,
      p_sent := p_sent s @ (case res of Inr n \<Rightarrow> take n wbuf | Inl _ \<Rightarrow> []),
      p_reader := (if w \<noteq> None then wake_reader (p_reader s) else p_reader s)\<rparr>)"
| write_ppoll: "p_writer s = WIdle \<Longrightarrow> pipe_base_poll False evs writer_id (p_meta s) = (r, m) \<Longrightarrow>
    pipe_step s (s\<lparr>p_meta := m\<rparr>)"
| write_close: "p_writer s = WIdle \<Longrightarrow> pipe_drop False (p_meta s) = (m, ws) \<Longrightarrow>
    pipe_step s (s\<lparr>p_meta := m, p_writer := WClosed,
      p_reader := (if ws \<noteq> [] then wake_reader (p_reader s) else p_reader s)\<rparr>)"

section \<open>The invariant\<close>

definition pipe_content :: "pipe_sys \<Rightarrow> u8 list" where
  "pipe_content s = rb_content (pipe_ring (p_meta s))"

definition reader_inv :: "pipe_sys \<Rightarrow> bool" where
  "reader_inv s \<longleftrightarrow> (case p_reader s of
      RPolling buf \<Rightarrow> buf \<noteq> []
    | RParked buf \<Rightarrow> buf \<noteq> [] \<and> read_waker (p_meta s) \<noteq> [] \<and> pipe_content s = [] \<and> \<not> is_write_closed (p_meta s)
    | RReady buf ev \<Rightarrow> buf \<noteq> [] \<and>
        (ev = EV_IN \<and> pipe_content s \<noteq> [] \<or> ev = EV_HUP \<and> pipe_content s = [] \<and> is_write_closed (p_meta s))
    | _ \<Rightarrow> True)"

definition writer_inv :: "pipe_sys \<Rightarrow> bool" where
  "writer_inv s \<longleftrightarrow> (case p_writer s of
      WParked buf \<Rightarrow> write_waker (p_meta s) \<noteq> [] \<and>
        length (pipe_content s) = rb_capacity (pipe_ring (p_meta s)) \<and> \<not> is_read_closed (p_meta s)
    | WReady buf ev \<Rightarrow>
        ev = EV_OUT \<and> length (pipe_content s) < rb_capacity (pipe_ring (p_meta s)) \<or>
        ev = EV_ERR \<and> is_read_closed (p_meta s)
    | _ \<Rightarrow> True)"

definition pipe_inv :: "pipe_sys \<Rightarrow> bool" where
  "pipe_inv s \<longleftrightarrow> rb_inv (pipe_ring (p_meta s)) \<and> p_sent s = p_got s @ pipe_content s \<and>
     (p_eof s \<longrightarrow> is_write_closed (p_meta s) \<and> pipe_content s = []) \<and>
     (is_write_closed (p_meta s) \<longleftrightarrow> p_writer s = WClosed) \<and>
     (is_read_closed (p_meta s) \<longleftrightarrow> p_reader s = RClosed) \<and> reader_inv s \<and> writer_inv s"

lemma ev_simps [simp]:
  "ev_contains EV_IN EV_IN" "ev_contains EV_OUT EV_OUT" "ev_contains EV_ERR EV_ERR" "ev_contains EV_HUP EV_HUP"
  "\<not> ev_contains EV_IN EV_HUP" "\<not> ev_contains EV_OUT EV_ERR"
  "EV_IN \<noteq> EV_HUP" "EV_HUP \<noteq> EV_IN" "EV_OUT \<noteq> EV_ERR" "EV_ERR \<noteq> EV_OUT"
  by (simp_all add: ev_contains_def EV_IN_def EV_OUT_def EV_ERR_def EV_HUP_def)

lemma rb_empty_content: "rb_inv rb \<Longrightarrow> rb_is_empty rb \<longleftrightarrow> rb_content rb = []"
  using rb_len_facts(3) [of rb]
  by (simp add: rb_is_empty_def length_0_conv [symmetric] del: length_0_conv)

lemma rb_full_content: "rb_inv rb \<Longrightarrow> rb_is_full rb \<longleftrightarrow> length (rb_content rb) = rb_capacity rb"
  using rb_len_facts(4) [of rb] by (simp add: rb_is_full_def rb_capacity_def)

lemma rb_not_full_content: "rb_inv rb \<Longrightarrow> \<not> rb_is_full rb \<longleftrightarrow> length (rb_content rb) < rb_capacity rb"
  using rb_full_content [of rb] rb.content_bound [of rb] by auto

declare length_rb_content [simp del]

lemmas pipe_inv_defs = pipe_inv_def reader_inv_def writer_inv_def pipe_content_def

lemmas pipe_section_defs = pipe_read_poll_def pipe_write_poll_def pipe_base_poll_def pipe_drop_def Let_def

lemma wake_reader_inv_cases:
  "wake_reader r = RPolling buf \<longleftrightarrow> r = RPolling buf \<or> r = RParked buf"
  "wake_reader r \<noteq> RParked buf" "wake_reader r = RReady buf ev \<longleftrightarrow> r = RReady buf ev"
  "wake_reader r = RClosed \<longleftrightarrow> r = RClosed"
  by (cases r; simp)+

lemma wake_writer_inv_cases:
  "wake_writer r = WPolling buf \<longleftrightarrow> r = WPolling buf \<or> r = WParked buf"
  "wake_writer r \<noteq> WParked buf" "wake_writer r = WReady buf ev \<longleftrightarrow> r = WReady buf ev"
  "wake_writer r = WClosed \<longleftrightarrow> r = WClosed"
  by (cases r; simp)+

text \<open>The transfer sections, under the invariant.\<close>

lemma pop_front_split:
  "pop_front q = (w, q') \<Longrightarrow> q' = tl q \<and> (w = None \<longleftrightarrow> q = [])"
  by (auto simp: pop_front_def split: list.splits)

lemma pipe_read_finish_ok:
  assumes "rb_inv (pipe_ring m)" "buf \<noteq> []" "rb_content (pipe_ring m) \<noteq> []"
    and "pipe_read_finish EV_IN buf m = Some (n, buf', m', w)"
  shows "0 < n" and "rb_content (pipe_ring m) = take n buf' @ rb_content (pipe_ring m')"
    and "rb_inv (pipe_ring m')" and "rb_capacity (pipe_ring m') = rb_capacity (pipe_ring m)"
    and "w = None \<longleftrightarrow> write_waker m = []"
    and "m' = m\<lparr>pipe_ring := pipe_ring m', write_waker := tl (write_waker m)\<rparr>"
    and "take n buf' \<noteq> []"
proof -
  let ?r = "min (length (rb_content (pipe_ring m))) (length buf)"
  from rb.rd_law [OF assms(1) refl, of buf] obtain rb' where rb':
    "rb_read buf (pipe_ring m) = Some (?r, take ?r (rb_content (pipe_ring m)) @ drop ?r buf, rb')"
    "rb_inv rb'" "rb_content rb' = drop ?r (rb_content (pipe_ring m))" "rb_capacity rb' = rb_capacity (pipe_ring m)"
    by blast
  obtain w0 q where w: "pop_front (write_waker m) = (w0, q)" by fastforce
  have eqs: "n = ?r" "buf' = take ?r (rb_content (pipe_ring m)) @ drop ?r buf" "w = w0"
    "m' = m\<lparr>pipe_ring := rb', write_waker := q\<rparr>"
    using assms(4) rb'(1) w by (auto simp: pipe_read_finish_def)
  show "0 < n" using assms(2,3) by (simp add: eqs(1))
  have "take n buf' = take ?r (rb_content (pipe_ring m))" by (simp add: eqs)
  then show "take n buf' \<noteq> []" using assms(2,3) by simp
  show "rb_content (pipe_ring m) = take n buf' @ rb_content (pipe_ring m')"
    using rb'(3) by (simp add: eqs)
  show "rb_inv (pipe_ring m')" "rb_capacity (pipe_ring m') = rb_capacity (pipe_ring m)"
    "w = None \<longleftrightarrow> write_waker m = []" "m' = m\<lparr>pipe_ring := pipe_ring m', write_waker := tl (write_waker m)\<rparr>"
    using rb'(2,4) pop_front_split [OF w] by (simp_all add: eqs)
qed

lemma pipe_write_finish_ok:
  assumes "rb_inv (pipe_ring m)" and "pipe_write_finish EV_OUT buf m = Some (res, m', w)"
  obtains n where "res = Inr n" "rb_content (pipe_ring m') = rb_content (pipe_ring m) @ take n buf"
    "rb_inv (pipe_ring m')" "rb_capacity (pipe_ring m') = rb_capacity (pipe_ring m)"
    "w = None \<longleftrightarrow> read_waker m = []"
    "m' = m\<lparr>pipe_ring := pipe_ring m', read_waker := tl (read_waker m)\<rparr>"
    "n = min (rb_capacity (pipe_ring m) - length (rb_content (pipe_ring m))) (length buf)"
proof -
  let ?r = "min (rb_capacity (pipe_ring m) - length (rb_content (pipe_ring m))) (length buf)"
  from rb.wr_law [OF assms(1) refl, of buf] obtain rb' where rb':
    "rb_write buf (pipe_ring m) = Some (?r, rb')" "rb_inv rb'"
    "rb_content rb' = rb_content (pipe_ring m) @ take ?r buf" "rb_capacity rb' = rb_capacity (pipe_ring m)"
    by blast
  obtain w0 q where w: "pop_front (read_waker m) = (w0, q)" by fastforce
  have eqs: "res = Inr ?r" "w = w0" "m' = m\<lparr>pipe_ring := rb', read_waker := q\<rparr>"
    using assms(2) rb'(1) w by (auto simp: pipe_write_finish_def)
  show ?thesis
    by (rule that [OF eqs(1)]) (use rb'(2-4) pop_front_split [OF w] in \<open>simp_all add: eqs\<close>)
qed

lemma read_finish_inv:
  assumes inv: "pipe_inv s" and rd: "p_reader s = RReady buf ev"
    and fin: "pipe_read_finish ev buf (p_meta s) = Some (n, buf', m, w)"
  shows "pipe_inv (s\<lparr>p_meta := m, p_reader := RIdle, p_got := p_got s @ take n buf',
      p_eof := p_eof s \<or> n = 0, p_writer := (if w \<noteq> None then wake_writer (p_writer s) else p_writer s)\<rparr>)"
proof (cases "ev = EV_HUP")
  case True
  then have "n = 0" "m = p_meta s" "w = None" using fin by (auto simp: pipe_read_finish_def)
  with inv rd True show ?thesis by (auto simp: pipe_inv_defs split: wstate.splits)
next
  case False
  then have ev: "ev = EV_IN" "buf \<noteq> []" "rb_content (pipe_ring (p_meta s)) \<noteq> []"
    using inv rd by (auto simp: pipe_inv_defs)
  have ring: "rb_inv (pipe_ring (p_meta s))" using inv by (simp add: pipe_inv_def)
  note fok = pipe_read_finish_ok [OF ring ev(2,3) fin [unfolded ev(1)]]
  have flags: "is_write_closed m = is_write_closed (p_meta s)" "is_read_closed m = is_read_closed (p_meta s)"
    by (subst fok(6), simp)+
  have shorter: "length (rb_content (pipe_ring m)) < rb_capacity (pipe_ring m)"
  proof -
    have "0 < length (take n buf')" using fok(7) by blast
    then show ?thesis
      using rb.content_bound [OF ring] fok(4) arg_cong [OF fok(2), of length]
      unfolding length_append by linarith
  qed
  have "p_writer s = WParked wbuf \<Longrightarrow> w \<noteq> None" for wbuf
    using inv fok(5) by (auto simp: pipe_inv_defs)
  then show ?thesis
    using inv rd ev fok(1,2,3) flags shorter
    by (auto simp: pipe_inv_defs wake_writer_inv_cases split: wstate.splits)
qed

lemma write_finish_inv:
  assumes inv: "pipe_inv s" and wr: "p_writer s = WReady wbuf ev"
    and fin: "pipe_write_finish ev wbuf (p_meta s) = Some (res, m, w)"
  shows "pipe_inv (s\<lparr>p_meta := m, p_writer := WIdle,
      p_sent := p_sent s @ (case res of Inr n \<Rightarrow> take n wbuf | Inl _ \<Rightarrow> []),
      p_reader := (if w \<noteq> None then wake_reader (p_reader s) else p_reader s)\<rparr>)"
proof (cases "ev = EV_ERR")
  case True
  then have "res = Inl EPIPE" "m = p_meta s" "w = None" using fin by (auto simp: pipe_write_finish_def)
  with inv wr show ?thesis by (auto simp: pipe_inv_defs split: rstate.splits)
next
  case False
  then have ev: "ev = EV_OUT" using inv wr by (auto simp: pipe_inv_defs)
  have ring: "rb_inv (pipe_ring (p_meta s))" using inv by (simp add: pipe_inv_def)
  from pipe_write_finish_ok [OF ring fin [unfolded ev]] obtain n where n:
    "res = Inr n" "rb_content (pipe_ring m) = rb_content (pipe_ring (p_meta s)) @ take n wbuf"
    "rb_inv (pipe_ring m)" "w = None \<longleftrightarrow> read_waker (p_meta s) = []"
    "m = (p_meta s)\<lparr>pipe_ring := pipe_ring m, read_waker := tl (read_waker (p_meta s))\<rparr>"
    by metis
  have flags: "is_write_closed m = is_write_closed (p_meta s)" "is_read_closed m = is_read_closed (p_meta s)"
    by (subst n(5), simp)+
  have "p_reader s = RParked buf \<Longrightarrow> w \<noteq> None" for buf
    using inv n(4) by (auto simp: pipe_inv_defs)
  moreover have "\<not> p_eof s" "\<not> is_write_closed (p_meta s)" using inv wr by (auto simp: pipe_inv_defs)
  ultimately show ?thesis
    using inv wr n(1-3) flags
    by (auto simp: pipe_inv_defs wake_reader_inv_cases split: rstate.splits)
qed

lemma poll_step_inv:
  assumes inv: "pipe_inv s"
  shows "p_reader s = RPolling buf \<Longrightarrow> pipe_read_poll EV_IN reader_id (p_meta s) = (Ready ev, m) \<Longrightarrow>
      pipe_inv (s\<lparr>p_meta := m, p_reader := RReady buf ev\<rparr>)"
    and "p_reader s = RPolling buf \<Longrightarrow> pipe_read_poll EV_IN reader_id (p_meta s) = (Pending, m) \<Longrightarrow>
      pipe_inv (s\<lparr>p_meta := m, p_reader := RParked buf\<rparr>)"
    and "p_writer s = WPolling wbuf \<Longrightarrow> pipe_write_poll EV_OUT writer_id (p_meta s) = (Ready ev, m) \<Longrightarrow>
      pipe_inv (s\<lparr>p_meta := m, p_writer := WReady wbuf ev\<rparr>)"
    and "p_writer s = WPolling wbuf \<Longrightarrow> pipe_write_poll EV_OUT writer_id (p_meta s) = (Pending, m) \<Longrightarrow>
      pipe_inv (s\<lparr>p_meta := m, p_writer := WParked wbuf\<rparr>)"
proof -
  have ring: "rb_inv (pipe_ring (p_meta s))" using inv by (simp add: pipe_inv_def)
  note ring_iffs = rb_empty_content [OF ring] rb_full_content [OF ring] rb_not_full_content [OF ring]
  show "p_reader s = RPolling buf \<Longrightarrow> pipe_read_poll EV_IN reader_id (p_meta s) = (Ready ev, m) \<Longrightarrow>
      pipe_inv (s\<lparr>p_meta := m, p_reader := RReady buf ev\<rparr>)"
    using inv ring_iffs(1) by (auto simp: pipe_inv_defs pipe_section_defs split: if_splits wstate.splits)
  show "p_reader s = RPolling buf \<Longrightarrow> pipe_read_poll EV_IN reader_id (p_meta s) = (Pending, m) \<Longrightarrow>
      pipe_inv (s\<lparr>p_meta := m, p_reader := RParked buf\<rparr>)"
    using inv ring_iffs(1) by (auto simp: pipe_inv_defs pipe_section_defs split: if_splits wstate.splits)
  show "p_writer s = WPolling wbuf \<Longrightarrow> pipe_write_poll EV_OUT writer_id (p_meta s) = (Ready ev, m) \<Longrightarrow>
      pipe_inv (s\<lparr>p_meta := m, p_writer := WReady wbuf ev\<rparr>)"
    using inv ring_iffs(3) by (auto simp: pipe_inv_defs pipe_section_defs split: if_splits rstate.splits)
  show "p_writer s = WPolling wbuf \<Longrightarrow> pipe_write_poll EV_OUT writer_id (p_meta s) = (Pending, m) \<Longrightarrow>
      pipe_inv (s\<lparr>p_meta := m, p_writer := WParked wbuf\<rparr>)"
    using inv ring_iffs(2) by (auto simp: pipe_inv_defs pipe_section_defs split: if_splits rstate.splits)
qed

lemma pipe_step_inv:
  assumes "pipe_step s s'" and "pipe_inv s"
  shows "pipe_inv s'"
  using assms
proof (induction rule: pipe_step.induct)
  case (read_ppoll s evs r m)
  then show ?case by (auto simp: pipe_inv_defs pipe_section_defs split: if_splits rstate.splits wstate.splits)
next
  case (write_ppoll s evs r m)
  then show ?case by (auto simp: pipe_inv_defs pipe_section_defs split: if_splits rstate.splits wstate.splits)
next
  case (read_close s m ws)
  then show ?case
    by (auto simp: pipe_inv_defs pipe_drop_def wake_writer_inv_cases split: if_splits rstate.splits wstate.splits)
next
  case (write_close s m ws)
  then show ?case
    by (auto simp: pipe_inv_defs pipe_drop_def wake_reader_inv_cases split: if_splits rstate.splits wstate.splits)
next
  case (read_finish s buf ev n buf' m w)
  then show ?case using read_finish_inv by blast
next
  case (write_finish s wbuf ev res m w)
  then show ?case using write_finish_inv by blast
next
  case (read_ready s buf ev m)
  then show ?case using poll_step_inv(1) by blast
next
  case (read_park s buf m)
  then show ?case using poll_step_inv(2) by blast
next
  case (write_ready s wbuf ev m)
  then show ?case using poll_step_inv(3) by blast
next
  case (write_park s wbuf m)
  then show ?case using poll_step_inv(4) by blast
qed (auto simp: pipe_inv_defs split: rstate.splits wstate.splits)

lemma pipe_start_inv: "0 < len \<Longrightarrow> pipe_inv (pipe_start len)"
  by (simp add: pipe_start_def pipe_new_def pipe_inv_defs rb_new_inv)

lemma pipe_reach_inv: "pipe_step\<^sup>*\<^sup>* (pipe_start len) s \<Longrightarrow> 0 < len \<Longrightarrow> pipe_inv s"
  by (induction rule: rtranclp_induct) (auto intro: pipe_step_inv pipe_start_inv)

lemma pipe_sections_return:
  assumes "pipe_inv s"
  shows "p_reader s = RReady buf ev \<Longrightarrow> pipe_read_finish ev buf (p_meta s) \<noteq> None"
    and "p_writer s = WReady wbuf wev \<Longrightarrow> pipe_write_finish wev wbuf (p_meta s) \<noteq> None"
proof -
  have ring: "rb_inv (pipe_ring (p_meta s))" using assms by (simp add: pipe_inv_def)
  from rb.rd_law [OF ring refl, of buf] rb.wr_law [OF ring refl, of wbuf]
  show "p_reader s = RReady buf ev \<Longrightarrow> pipe_read_finish ev buf (p_meta s) \<noteq> None"
    "p_writer s = WReady wbuf wev \<Longrightarrow> pipe_write_finish wev wbuf (p_meta s) \<noteq> None"
    using assms
    by (auto simp: pipe_inv_defs pipe_read_finish_def pipe_write_finish_def split: prod.splits)
qed

section \<open>Correctness of pipes\<close>

text \<open>
  C25. Stream integrity. However the sections of a reader and a writer interleave, with
  spurious polls and \<^verbatim>\<open>ppoll\<close> registrations in between, the bytes the writer was told were
  written are exactly the bytes the reader got followed by those still buffered; the
  reader is told end-of-file (a read of zero bytes) only when the writer has closed its end
  and every byte was delivered; and no section panics.
\<close>

theorem pipe_stream_integrity:
  assumes "pipe_step\<^sup>*\<^sup>* (pipe_start len) s" and "0 < len"
  shows "p_sent s = p_got s @ pipe_content s \<and>
    (\<not> p_eof s \<or> p_writer s = WClosed \<and> p_got s = p_sent s) \<and>
    (case p_reader s of RReady buf ev \<Rightarrow> pipe_read_finish ev buf (p_meta s) \<noteq> None | _ \<Rightarrow> True) \<and>
    (case p_writer s of WReady buf ev \<Rightarrow> pipe_write_finish ev buf (p_meta s) \<noteq> None | _ \<Rightarrow> True)"
proof -
  have inv: "pipe_inv s" by (rule pipe_reach_inv [OF assms])
  then have "p_sent s = p_got s @ pipe_content s" "\<not> p_eof s \<or> p_writer s = WClosed \<and> p_got s = p_sent s"
    by (auto simp: pipe_inv_def)
  then show ?thesis
    using pipe_sections_return [OF inv] by (auto split: rstate.splits wstate.splits)
qed

theorem pipe_stream_integrity_witness:
  "p_sent ((pipe_start 4)\<lparr>p_reader := RPolling [0, 0]\<rparr>) =
     p_got (pipe_start 4) @ pipe_content ((pipe_start 4)\<lparr>p_reader := RPolling [0, 0]\<rparr>)"
proof -
  have "pipe_step (pipe_start 4) ((pipe_start 4)\<lparr>p_reader := RPolling [0, 0]\<rparr>)"
    by (rule pipe_step.read_call) (simp_all add: pipe_start_def)
  from pipe_stream_integrity [OF r_into_rtranclp [of pipe_step, OF this]]
  show ?thesis by (simp add: pipe_start_def)
qed

text \<open>
  C26. No lost wake-up and no deadlock. In every reachable state a parked reader has its
  waker in the queue, finds the pipe empty and the writer's end open, so that whoever can
  unblock it will also wake it; dually a parked writer has its waker queued, finds the
  pipe full and the reader's end open. Hence reader and writer are never parked at the same
  time.
\<close>

theorem pipe_no_lost_wakeup:
  assumes "pipe_step\<^sup>*\<^sup>* (pipe_start len) s" and "0 < len"
  shows "(case p_reader s of
      RParked buf \<Rightarrow> read_waker (p_meta s) \<noteq> [] \<and> pipe_content s = [] \<and> p_writer s \<noteq> WClosed \<and>
        (case p_writer s of WParked _ \<Rightarrow> False | _ \<Rightarrow> True)
    | _ \<Rightarrow> True) \<and>
    (case p_writer s of
      WParked buf \<Rightarrow> write_waker (p_meta s) \<noteq> [] \<and>
        length (pipe_content s) = rb_capacity (pipe_ring (p_meta s)) \<and> p_reader s \<noteq> RClosed
    | _ \<Rightarrow> True)"
proof -
  have inv: "pipe_inv s" by (rule pipe_reach_inv [OF assms])
  then have "0 < rb_capacity (pipe_ring (p_meta s))" by (simp add: pipe_inv_def rb.capacity_pos)
  with inv show ?thesis
    by (auto simp: pipe_inv_defs split: rstate.splits wstate.splits)
qed

theorem pipe_no_lost_wakeup_witness:
  "\<exists>s. pipe_step\<^sup>*\<^sup>* (pipe_start 4) s \<and> p_reader s = RParked [0] \<and> read_waker (p_meta s) \<noteq> [] \<and> pipe_content s = []"
proof -
  let ?s1 = "(pipe_start 4)\<lparr>p_reader := RPolling [0]\<rparr>"
  let ?m = "(pipe_new 4)\<lparr>read_waker := [reader_id]\<rparr>"
  let ?s2 = "?s1\<lparr>p_meta := ?m, p_reader := RParked [0]\<rparr>"
  have s1: "pipe_step (pipe_start 4) ?s1"
    by (rule pipe_step.read_call) (simp_all add: pipe_start_def)
  have s2: "pipe_step ?s1 ?s2"
    by (rule pipe_step.read_park)
      (simp_all add: pipe_start_def pipe_new_def pipe_read_poll_def rb_new_def rb_is_empty_def)
  have reach: "pipe_step\<^sup>*\<^sup>* (pipe_start 4) ?s2"
    by (rule converse_rtranclp_into_rtranclp [of pipe_step, OF s1 r_into_rtranclp [of pipe_step, OF s2]])
  from pipe_no_lost_wakeup [OF this] show ?thesis
    by (intro exI [of _ ?s2]) (use reach in \<open>simp add: pipe_start_def\<close>)
qed

end
