(* ===== verification/Addr.thy ===== *)
theory Addr
  imports Chronix_Prelude
begin

unbundle bit_operations_syntax

text \<open>
  Addresses and page numbers, \<^verbatim>\<open>hal/src/component/addr\<close> and \<^verbatim>\<open>hal/src/component/constant\<close>.
  The crate is compiled for one of two targets, whose constants are selected by
  \<^verbatim>\<open>cfg(target_arch)\<close>; the model takes the target as an argument. The four newtypes over
  \<^verbatim>\<open>usize\<close> are the word itself; the conversions \<^verbatim>\<open>From<usize>\<close>, which mask to the width of
  the type (and sign-extend a virtual address), are definitions, as they are applied by every
  addition and subtraction.
\<close>

datatype arch = Riscv64 | Loongarch64

section \<open>Constants\<close>

definition PAGE_SIZE :: usize where "PAGE_SIZE = 4096"
definition PAGE_SIZE_BITS :: nat where "PAGE_SIZE_BITS = 12"
definition MAX_PROCESSORS :: usize where "MAX_PROCESSORS = 4"

primrec PA_WIDTH :: "arch \<Rightarrow> nat" where
  "PA_WIDTH Riscv64 = 56" | "PA_WIDTH Loongarch64 = 48"

primrec VA_WIDTH :: "arch \<Rightarrow> nat" where
  "VA_WIDTH Riscv64 = 39" | "VA_WIDTH Loongarch64 = 48"

primrec PG_LEVEL :: "arch \<Rightarrow> nat" where
  "PG_LEVEL Riscv64 = 3" | "PG_LEVEL Loongarch64 = 4"

definition PPN_WIDTH :: "arch \<Rightarrow> nat" where "PPN_WIDTH a = PA_WIDTH a - PAGE_SIZE_BITS"
definition VPN_WIDTH :: "arch \<Rightarrow> nat" where "VPN_WIDTH a = VA_WIDTH a - PAGE_SIZE_BITS"

primrec KERNEL_ADDR_SPACE :: "arch \<Rightarrow> usize \<times> usize" where
  "KERNEL_ADDR_SPACE Riscv64 = (0xffffffc000000000, 0xffffffffffffffff)"
| "KERNEL_ADDR_SPACE Loongarch64 = (0x9000000000000000, 0x9001000000000000)"

primrec USER_ADDR_SPACE :: "arch \<Rightarrow> usize \<times> usize" where
  "USER_ADDR_SPACE Riscv64 = (0, 0x0000004000000000)"
| "USER_ADDR_SPACE Loongarch64 = (0, 0x0000800000000000)"

definition KERNEL_STACK_SIZE :: usize where "KERNEL_STACK_SIZE = 16 * 4096"

primrec KERNEL_STACK_TOP :: "arch \<Rightarrow> usize" where
  "KERNEL_STACK_TOP Riscv64 = snd (KERNEL_ADDR_SPACE Riscv64) - PAGE_SIZE + 1"
| "KERNEL_STACK_TOP Loongarch64 = snd (KERNEL_ADDR_SPACE Loongarch64)"

definition KERNEL_STACK_BOTTOM :: "arch \<Rightarrow> usize" where
  "KERNEL_STACK_BOTTOM a = KERNEL_STACK_TOP a - KERNEL_STACK_SIZE * MAX_PROCESSORS"

primrec SIGRET_TRAMPOLINE_TOP :: "arch \<Rightarrow> usize" where
  "SIGRET_TRAMPOLINE_TOP Riscv64 = KERNEL_STACK_BOTTOM Riscv64 - PAGE_SIZE"
| "SIGRET_TRAMPOLINE_TOP Loongarch64 = 0x0000fffffffff000"

definition SIGRET_TRAMPOLINE_BOTTOM :: "arch \<Rightarrow> usize" where
  "SIGRET_TRAMPOLINE_BOTTOM a = SIGRET_TRAMPOLINE_TOP a - PAGE_SIZE"

definition KERNEL_VM_SIZE :: usize where "KERNEL_VM_SIZE = 0x200000000"

primrec KERNEL_VM_TOP :: "arch \<Rightarrow> usize" where
  "KERNEL_VM_TOP Riscv64 = snd (KERNEL_ADDR_SPACE Riscv64) - 0x80000000 + 1"
| "KERNEL_VM_TOP Loongarch64 = 0x0000ffffffffffff"

primrec KERNEL_VM_BOTTOM :: "arch \<Rightarrow> usize" where
  "KERNEL_VM_BOTTOM Riscv64 = KERNEL_VM_TOP Riscv64 - KERNEL_VM_SIZE"
| "KERNEL_VM_BOTTOM Loongarch64 = KERNEL_VM_TOP Loongarch64 - KERNEL_VM_SIZE + 1"

definition USER_STACK_SIZE :: usize where "USER_STACK_SIZE = 4096 * 4096"

definition USER_STACK_TOP :: "arch \<Rightarrow> usize" where
  "USER_STACK_TOP a = snd (USER_ADDR_SPACE a) - PAGE_SIZE"

definition USER_STACK_BOTTOM :: "arch \<Rightarrow> usize" where
  "USER_STACK_BOTTOM a = USER_STACK_TOP a - USER_STACK_SIZE"

definition USER_FILE_SIZE :: usize where "USER_FILE_SIZE = 0x200000000"

primrec USER_FILE_END :: "arch \<Rightarrow> usize" where
  "USER_FILE_END Riscv64 = USER_STACK_BOTTOM Riscv64 - PAGE_SIZE"
| "USER_FILE_END Loongarch64 = USER_STACK_BOTTOM Loongarch64"

definition USER_FILE_BEG :: "arch \<Rightarrow> usize" where
  "USER_FILE_BEG a = USER_FILE_END a - USER_FILE_SIZE"

definition USER_SHARE_SIZE :: usize where "USER_SHARE_SIZE = 0x200000000"

primrec USER_SHARE_END :: "arch \<Rightarrow> usize" where
  "USER_SHARE_END Riscv64 = USER_FILE_BEG Riscv64 - PAGE_SIZE"
| "USER_SHARE_END Loongarch64 = USER_FILE_BEG Loongarch64"

definition USER_SHARE_BEG :: "arch \<Rightarrow> usize" where
  "USER_SHARE_BEG a = USER_SHARE_END a - USER_SHARE_SIZE"

definition DL_INTERP_OFFSET :: usize where "DL_INTERP_OFFSET = 0x2000000000"

lemmas const_defs = PAGE_SIZE_def PAGE_SIZE_BITS_def MAX_PROCESSORS_def PPN_WIDTH_def VPN_WIDTH_def
  KERNEL_STACK_SIZE_def KERNEL_STACK_BOTTOM_def SIGRET_TRAMPOLINE_BOTTOM_def KERNEL_VM_SIZE_def
  USER_STACK_SIZE_def USER_STACK_TOP_def USER_STACK_BOTTOM_def USER_FILE_SIZE_def USER_FILE_BEG_def
  USER_SHARE_SIZE_def USER_SHARE_BEG_def DL_INTERP_OFFSET_def

section \<open>Newtypes over machine words\<close>

type_synonym phys_addr = usize
type_synonym phys_page_num = usize
type_synonym virt_addr = usize
type_synonym virt_page_num = usize

definition pa_from :: "arch \<Rightarrow> usize \<Rightarrow> phys_addr" where
  "pa_from a value = value AND (push_bit (PA_WIDTH a) 1 - 1)"

definition ppn_from :: "arch \<Rightarrow> usize \<Rightarrow> phys_page_num" where
  "ppn_from a value = value AND (push_bit (PPN_WIDTH a) 1 - 1)"

definition va_from :: "arch \<Rightarrow> usize \<Rightarrow> virt_addr" where
  "va_from a value =
     (if value AND push_bit (VA_WIDTH a - 1) 1 = 0
      then value AND (push_bit (VA_WIDTH a) 1 - 1)
      else value OR NOT (push_bit (VA_WIDTH a) 1 - 1))"

definition vpn_from :: "arch \<Rightarrow> usize \<Rightarrow> virt_page_num" where
  "vpn_from a value = value AND (push_bit (VPN_WIDTH a) 1 - 1)"

definition vpn_add :: "arch \<Rightarrow> virt_page_num \<Rightarrow> usize \<Rightarrow> virt_page_num" where
  "vpn_add a x rhs = vpn_from a (x + rhs)"

definition vpn_sub :: "arch \<Rightarrow> virt_page_num \<Rightarrow> usize \<Rightarrow> virt_page_num" where
  "vpn_sub a x rhs = vpn_from a (x - rhs)"

definition va_add :: "arch \<Rightarrow> virt_addr \<Rightarrow> usize \<Rightarrow> virt_addr" where
  "va_add a x rhs = va_from a (x + rhs)"

definition va_sub :: "arch \<Rightarrow> virt_addr \<Rightarrow> usize \<Rightarrow> virt_addr" where
  "va_sub a x rhs = va_from a (x - rhs)"

definition ppn_add :: "arch \<Rightarrow> phys_page_num \<Rightarrow> usize \<Rightarrow> phys_page_num" where
  "ppn_add a x rhs = ppn_from a (x + rhs)"

definition pa_add :: "arch \<Rightarrow> phys_addr \<Rightarrow> usize \<Rightarrow> phys_addr" where
  "pa_add a x rhs = pa_from a (x + rhs)"

definition page_offset :: "virt_addr \<Rightarrow> usize" where
  "page_offset va = va AND (push_bit PAGE_SIZE_BITS 1 - 1)"

section \<open>Conversions\<close>

definition va_floor :: "arch \<Rightarrow> virt_addr \<Rightarrow> virt_page_num" where
  "va_floor a va = drop_bit PAGE_SIZE_BITS va AND (push_bit (VPN_WIDTH a) 1 - 1)"

definition va_ceil :: "arch \<Rightarrow> virt_addr \<Rightarrow> virt_page_num" where
  "va_ceil a va =
     (if va = 0 then 0
      else drop_bit PAGE_SIZE_BITS (va - 1 + PAGE_SIZE) AND (push_bit (VPN_WIDTH a) 1 - 1))"

fun vpn_indexes_loop :: "nat \<Rightarrow> usize \<Rightarrow> nat list \<Rightarrow> nat list" where
  "vpn_indexes_loop 0 vpn idx = idx"
| "vpn_indexes_loop (Suc i) vpn idx = vpn_indexes_loop i (drop_bit 9 vpn) (idx[i := unat (vpn AND 511)])"

definition vpn_indexes :: "arch \<Rightarrow> virt_page_num \<Rightarrow> nat list" where
  "vpn_indexes a vpn = vpn_indexes_loop (PG_LEVEL a) vpn (replicate (PG_LEVEL a) 0)"

definition vpn_start_addr :: "arch \<Rightarrow> virt_page_num \<Rightarrow> virt_addr" where
  "vpn_start_addr a vpn = va_from a (push_bit PAGE_SIZE_BITS vpn)"

definition vpn_end_addr :: "arch \<Rightarrow> virt_page_num \<Rightarrow> virt_addr" where
  "vpn_end_addr a vpn = vpn_start_addr a vpn + PAGE_SIZE"

definition pa_floor :: "arch \<Rightarrow> phys_addr \<Rightarrow> phys_page_num" where
  "pa_floor a pa = drop_bit PAGE_SIZE_BITS pa AND (push_bit (PPN_WIDTH a) 1 - 1)"

definition pa_ceil :: "arch \<Rightarrow> phys_addr \<Rightarrow> phys_page_num" where
  "pa_ceil a pa =
     (if pa = 0 then 0
      else drop_bit PAGE_SIZE_BITS (pa - 1 + PAGE_SIZE) AND (push_bit (PPN_WIDTH a) 1 - 1))"

definition pa_get_ptr :: "arch \<Rightarrow> phys_addr \<Rightarrow> usize" where
  "pa_get_ptr a pa = pa + fst (KERNEL_ADDR_SPACE a)"

definition ppn_start_addr :: "phys_page_num \<Rightarrow> phys_addr" where
  "ppn_start_addr ppn = push_bit PAGE_SIZE_BITS ppn"

definition ppn_end_addr :: "phys_page_num \<Rightarrow> phys_addr" where
  "ppn_end_addr ppn = ppn_start_addr ppn + PAGE_SIZE"

section \<open>Masks, shifts and their numeric meaning\<close>

lemma shift_one_mask: "push_bit n 1 - 1 = (mask n :: usize)"
  by (simp add: mask_eq_exp_minus_1 push_bit_eq_mult)

lemma unat_and_mask: "unat (x AND mask n :: usize) = unat x mod 2 ^ n"
proof -
  have "unat (x AND mask n) = unat (take_bit n x)" by (simp only: take_bit_eq_mask)
  also have "\<dots> = take_bit n (unat x)" by (rule unsigned_take_bit_eq)
  finally show ?thesis by (simp only: take_bit_eq_mod)
qed

lemma unat_drop_bit: "unat (drop_bit n x :: usize) = unat x div 2 ^ n"
proof -
  have "unat (drop_bit n x) = drop_bit n (take_bit 64 (unat x))"
    using unsigned_drop_bit_eq [of n x] by simp
  also have "take_bit 64 (unat x) = unat x"
    by (rule take_bit_nat_eq_self) (use unsigned_less [of x] in simp)
  finally show ?thesis by (simp only: drop_bit_eq_div)
qed

lemma and_single_bit_eq_0: "x AND push_bit n 1 = 0 \<longleftrightarrow> \<not> bit x n" for x :: usize
  by (simp add: bit_iff_and_push_bit_not_eq_0)

lemmas addr_masks = va_from_def vpn_from_def ppn_from_def pa_from_def page_offset_def va_floor_def va_ceil_def
  pa_floor_def pa_ceil_def

lemmas addr_mask_defs [addr_simps] = addr_masks [unfolded shift_one_mask and_single_bit_eq_0]

lemma arch_widths:
  "12 < VA_WIDTH a" "VA_WIDTH a < 64" "12 < PA_WIDTH a" "PA_WIDTH a < 64" "VPN_WIDTH a = 9 * PG_LEVEL a"
  by (cases a; simp add: VPN_WIDTH_def PAGE_SIZE_BITS_def)+

section \<open>Splitting an address\<close>

lemma bit_va_from:
  "bit (va_from a v) n \<longleftrightarrow> n < 64 \<and> (if n < VA_WIDTH a then bit v n else bit v (VA_WIDTH a - 1))"
  using arch_widths [of a]
  by (auto simp: addr_mask_defs bit_simps dest: bit_imp_le_length)

lemma bit_start_floor:
  "bit (vpn_start_addr a (va_floor a va)) n \<longleftrightarrow>
     n < 64 \<and> 12 \<le> n \<and> (if n < VA_WIDTH a then bit va n else bit va (VA_WIDTH a - 1))"
  using arch_widths [of a]
  by (auto simp: vpn_start_addr_def bit_va_from addr_mask_defs(6) bit_simps VPN_WIDTH_def PAGE_SIZE_BITS_def)

lemma bit_page_offset: "bit (page_offset va) n \<longleftrightarrow> n < 12 \<and> bit va n"
  unfolding addr_mask_defs(5) PAGE_SIZE_BITS_def by (auto simp: bit_and_iff bit_mask_iff)

lemma start_floor_plus_offset:
  assumes "va_from a va = va"
  shows "vpn_start_addr a (va_floor a va) + page_offset va = va"
proof -
  let ?s = "vpn_start_addr a (va_floor a va)"
  have "?s AND page_offset va = 0"
    by (intro bit_eqI) (auto simp: bit_simps bit_start_floor bit_page_offset)
  then have "?s + page_offset va = ?s OR page_offset va" by (rule disjunctive_add_eq_or)
  also have "\<dots> = va"
  proof (rule bit_eqI)
    fix n assume "possible_bit TYPE(64 word) n"
    then have "n < 64" by simp
    moreover have "bit va n \<longleftrightarrow> n < 64 \<and> (if n < VA_WIDTH a then bit va n else bit va (VA_WIDTH a - 1))"
      using bit_va_from [of a va n] assms by simp
    ultimately show "bit (?s OR page_offset va) n \<longleftrightarrow> bit va n"
      using arch_widths(1) [of a]
      by (cases "n < 12") (auto simp: bit_simps bit_start_floor bit_page_offset)
  qed
  finally show ?thesis .
qed

section \<open>Page numbers of user addresses\<close>

lemma unat_va_floor: "unat (va_floor a va) = unat va div 4096 mod 2 ^ VPN_WIDTH a"
  by (simp add: addr_mask_defs(6) unat_and_mask unat_drop_bit PAGE_SIZE_BITS_def)

lemma unat_add_small: "unat x + unat y < 2 ^ 64 \<Longrightarrow> unat (x + y) = unat x + unat y" for x y :: usize
  by (simp add: unat_word_ariths)

lemma unat_va_ceil:
  assumes "unat va \<le> 2 ^ 64 - 4096"
  shows "unat (va_ceil a va) = (unat va + 4095) div 4096 mod 2 ^ VPN_WIDTH a"
proof (cases "va = 0")
  case True
  then show ?thesis by (simp add: va_ceil_def)
next
  case False
  then have pos: "0 < unat va" by (simp add: unat_gt_0)
  have minus: "unat (va - 1) = unat va - 1"
    using False by (simp add: unat_minus_one)
  have "unat (va - 1) + unat PAGE_SIZE < 2 ^ 64"
    using pos assms unfolding minus by (simp add: PAGE_SIZE_def)
  then have "unat (va - 1 + PAGE_SIZE) = unat va + 4095"
    using pos by (simp add: unat_add_small minus PAGE_SIZE_def)
  then show ?thesis
    using False by (simp add: addr_mask_defs(7) unat_and_mask unat_drop_bit PAGE_SIZE_BITS_def)
qed

section \<open>Page-table indices\<close>

fun idx_value :: "nat list \<Rightarrow> nat" where
  "idx_value [] = 0"
| "idx_value (i # is) = i * 512 ^ length is + idx_value is"

lemma unat_and_511: "unat (vpn AND 511 :: usize) = unat vpn mod 512"
  using unat_and_mask [of vpn 9] by (simp add: mask_eq_exp_minus_1)

lemma idx_value_snoc: "idx_value (is @ [i]) = idx_value is * 512 + i"
  by (induction "is") (auto simp: algebra_simps)

lemma length_indexes_loop [simp]: "length (vpn_indexes_loop n vpn idx) = length idx"
  by (induction n arbitrary: vpn idx) auto

lemma indexes_loop:
  "n \<le> length idx \<Longrightarrow> \<exists>is. vpn_indexes_loop n vpn idx = is @ drop n idx \<and> length is = n \<and>
     (\<forall>i \<in> set is. i < 512) \<and> idx_value is = unat vpn mod 512 ^ n"
proof (induction n arbitrary: vpn idx)
  case 0
  then show ?case by simp
next
  case (Suc n)
  from Suc.IH [of "idx[n := unat (vpn AND 511)]" "drop_bit 9 vpn"] Suc.prems obtain "is" where
    "vpn_indexes_loop (Suc n) vpn idx = is @ drop n (idx[n := unat (vpn AND 511)])" "length is = n"
    "\<forall>i \<in> set is. i < 512" "idx_value is = unat (drop_bit 9 vpn :: usize) mod 512 ^ n"
    by auto
  moreover have "drop n (idx[n := unat (vpn AND 511)]) = unat (vpn AND 511) # drop (Suc n) idx"
    using Suc.prems by (simp add: Cons_nth_drop_Suc [symmetric])
  moreover have "unat (drop_bit 9 vpn :: usize) mod 512 ^ n * 512 + unat vpn mod 512 = unat vpn mod 512 ^ Suc n"
    using mod_mult2_eq [of "unat vpn" 512 "512 ^ n"] by (simp add: unat_drop_bit)
  ultimately show ?case
    by (intro exI [of _ "is @ [unat (vpn AND 511)]"]) (auto simp: idx_value_snoc unat_and_511)
qed

lemma vpn_indexes_facts:
  "length (vpn_indexes a vpn) = PG_LEVEL a"
  "i \<in> set (vpn_indexes a vpn) \<Longrightarrow> i < 512"
  "idx_value (vpn_indexes a vpn) = unat vpn mod 2 ^ VPN_WIDTH a"
proof -
  obtain "is" where "vpn_indexes a vpn = is" "length is = PG_LEVEL a" "\<forall>i \<in> set is. i < 512"
    "idx_value is = unat vpn mod 512 ^ PG_LEVEL a"
    using indexes_loop [of "PG_LEVEL a" "replicate (PG_LEVEL a) 0" vpn]
    by (auto simp: vpn_indexes_def)
  moreover have "(512 :: nat) ^ PG_LEVEL a = 2 ^ VPN_WIDTH a"
    by (simp add: arch_widths(5) power_mult)
  ultimately show "length (vpn_indexes a vpn) = PG_LEVEL a"
    "i \<in> set (vpn_indexes a vpn) \<Longrightarrow> i < 512"
    "idx_value (vpn_indexes a vpn) = unat vpn mod 2 ^ VPN_WIDTH a"
    by auto
qed

lemma vpn_indexes_inj:
  assumes "unat vpn < 2 ^ VPN_WIDTH a" "unat vpn' < 2 ^ VPN_WIDTH a"
    and "vpn_indexes a vpn = vpn_indexes a vpn'"
  shows "vpn = vpn'"
proof -
  have "unat vpn = unat vpn'"
    using assms vpn_indexes_facts(3) [of a vpn] vpn_indexes_facts(3) [of a vpn'] by simp
  then show ?thesis by (simp only: unsigned_word_eqI)
qed

section \<open>Correctness of the address arithmetic\<close>

text \<open>
  C33. An address is the start of its page plus its offset: for every canonical virtual
  address of either target (one that \<^verbatim>\<open>VirtAddr::from\<close> leaves unchanged, so sign-extended)
  flooring to a page number, taking that page's start and adding the page offset gives the
  address back.
\<close>

theorem va_page_roundtrip:
  assumes "va_from a va = va"
  shows "vpn_start_addr a (va_floor a va) + page_offset va = va"
  by (rule start_floor_plus_offset [OF assms])

theorem va_page_roundtrip_witness:
  "vpn_start_addr Riscv64 (va_floor Riscv64 0xffffffc080201234) + page_offset 0xffffffc080201234 =
     0xffffffc080201234"
proof (rule va_page_roundtrip)
  show "va_from Riscv64 0xffffffc080201234 = 0xffffffc080201234"
    by (simp add: va_from_def)
qed

text \<open>
  On the lower half of the address space (all user addresses) \<^verbatim>\<open>floor\<close> is division by
  the page size and \<^verbatim>\<open>ceil\<close> is division rounded up; the indices of a page number are one per
  level, each below 512, are its digits in base 512, and determine it.
\<close>

theorem page_number_arithmetic:
  assumes "unat va \<le> 2 ^ (VA_WIDTH a - 1)" and "unat vpn < 2 ^ VPN_WIDTH a" and "unat vpn' < 2 ^ VPN_WIDTH a"
  shows "unat (va_floor a va) = unat va div 4096 \<and>
    unat (va_ceil a va) = (unat va + 4095) div 4096 \<and>
    length (vpn_indexes a vpn) = PG_LEVEL a \<and> idx_value (vpn_indexes a vpn) = unat vpn \<and>
    (vpn_indexes a vpn = vpn_indexes a vpn' \<longleftrightarrow> vpn = vpn')"
proof -
  have small: "unat va \<le> 2 ^ 64 - 4096" "unat va div 4096 < 2 ^ VPN_WIDTH a"
    "(unat va + 4095) div 4096 < 2 ^ VPN_WIDTH a"
    using assms(1) by (cases a; auto simp: const_defs)+
  show ?thesis
    using unat_va_floor [of a va] unat_va_ceil [OF small(1), of a] small(2,3) assms(2,3)
      vpn_indexes_facts(1,3) [of a vpn] vpn_indexes_inj [OF assms(2,3)] by auto
qed

theorem page_number_arithmetic_witness:
  "unat (va_ceil Loongarch64 0x5001) = (0x5001 + 4095) div 4096 \<and>
   idx_value (vpn_indexes Loongarch64 0x40201) = 0x40201 \<and>
   vpn_indexes Loongarch64 0x40201 \<noteq> vpn_indexes Loongarch64 0x40202"
  using page_number_arithmetic [of "0x5001" Loongarch64 "0x40201" "0x40202"] by (simp add: const_defs)


end
