(* ===== verification/Page_Table_Entry.thy ===== *)
theory Page_Table_Entry
  imports Addr
begin

text \<open>
  Page table entries of the two targets, \<^verbatim>\<open>hal/src/component/pagetable\<close>. An entry is its
  \<^verbatim>\<open>bits\<close> field, a 64-bit word. \<^verbatim>\<open>pteflags\<close> panics on an entry with a flag bit that the
  target's \<^verbatim>\<open>PTEFlags\<close> does not name, so every accessor that reads flags is partial. The
  provided methods of the trait \<^verbatim>\<open>PageTableEntryHal\<close> are definitions over the required ones;
  the locale below states what the required ones promise, and both targets are proved to
  keep that promise.
\<close>

section \<open>Access permissions\<close>

text \<open>\<^verbatim>\<open>MapPerm\<close>, a bit set with the four flags R, W, X and U.\<close>

record map_perm =
  perm_r :: bool
  perm_w :: bool
  perm_x :: bool
  perm_u :: bool

definition perm_empty :: map_perm where
  "perm_empty = \<lparr>perm_r = False, perm_w = False, perm_x = False, perm_u = False\<rparr>"

section \<open>Flag words\<close>

definition has_flags :: "usize \<Rightarrow> usize \<Rightarrow> bool" where
  "has_flags x f \<longleftrightarrow> x AND f = f"

definition from_bits :: "usize \<Rightarrow> usize \<Rightarrow> usize option" where
  "from_bits all x = (if x AND NOT all = 0 then Some x else None)"

definition set_or_clear :: "usize \<Rightarrow> bool \<Rightarrow> usize \<Rightarrow> usize" where
  "set_or_clear f val bits = (if val then bits OR f else bits AND NOT f)"

section \<open>RISC-V entries\<close>

definition RV_V :: usize where "RV_V = push_bit 0 1"
definition RV_R :: usize where "RV_R = push_bit 1 1"
definition RV_W :: usize where "RV_W = push_bit 2 1"
definition RV_X :: usize where "RV_X = push_bit 3 1"
definition RV_U :: usize where "RV_U = push_bit 4 1"
definition RV_G :: usize where "RV_G = push_bit 5 1"
definition RV_A :: usize where "RV_A = push_bit 6 1"
definition RV_D :: usize where "RV_D = push_bit 7 1"
definition RV_C :: usize where "RV_C = push_bit 8 1"

definition RV_ALL :: usize where
  "RV_ALL = RV_V OR RV_R OR RV_W OR RV_X OR RV_U OR RV_G OR RV_A OR RV_D OR RV_C"

definition RV_PPN_MASK :: usize where "RV_PPN_MASK = 0x003FFFFFFFFFFC00"
definition RV_PTE_FLAGS_MASK :: usize where "RV_PTE_FLAGS_MASK = 0x00000000000003FF"
definition RV_FLAGS_MASK :: usize where "RV_FLAGS_MASK = RV_U OR RV_R OR RV_W OR RV_X"

definition rv_pteflags :: "usize \<Rightarrow> usize option" where
  "rv_pteflags bits = from_bits RV_ALL (bits AND RV_PTE_FLAGS_MASK)"

definition rv_flags_of_perm :: "map_perm \<Rightarrow> usize" where
  "rv_flags_of_perm p =
     (if perm_u p then RV_U else 0) OR (if perm_r p then RV_R else 0) OR
     (if perm_w p then RV_W else 0) OR (if perm_x p then RV_X else 0)"

definition rv_new :: "phys_page_num \<Rightarrow> map_perm \<Rightarrow> usize" where
  "rv_new ppn map_flags = push_bit 10 ppn OR rv_flags_of_perm map_flags"

definition rv_flags :: "usize \<Rightarrow> map_perm option" where
  "rv_flags bits = do {
     pte \<leftarrow> rv_pteflags bits;
     Some \<lparr>perm_r = has_flags pte RV_R, perm_w = has_flags pte RV_W, perm_x = has_flags pte RV_X,
       perm_u = has_flags pte RV_U\<rparr> }"

definition rv_set_flags :: "map_perm \<Rightarrow> usize \<Rightarrow> usize" where
  "rv_set_flags map_flags bits =
     (bits AND NOT RV_FLAGS_MASK) OR (rv_flags_of_perm map_flags AND RV_FLAGS_MASK)"

definition rv_ppn :: "usize \<Rightarrow> phys_page_num" where
  "rv_ppn bits = drop_bit 10 bits AND (push_bit (PPN_WIDTH Riscv64) 1 - 1)"

definition rv_set_ppn :: "phys_page_num \<Rightarrow> usize \<Rightarrow> usize" where
  "rv_set_ppn ppn bits = (bits AND NOT RV_PPN_MASK) OR (push_bit 10 ppn AND RV_PPN_MASK)"

definition rv_is_leaf :: "usize \<Rightarrow> bool option" where
  "rv_is_leaf bits = do {
     pte \<leftarrow> rv_pteflags bits;
     Some (has_flags pte RV_V \<and> (has_flags pte RV_R \<or> has_flags pte RV_W \<or> has_flags pte RV_X)) }"

definition rv_is_dirty :: "usize \<Rightarrow> bool option" where
  "rv_is_dirty bits = do { pte \<leftarrow> rv_pteflags bits; Some (has_flags pte RV_D) }"

definition rv_set_dirty :: "bool \<Rightarrow> usize \<Rightarrow> usize" where
  "rv_set_dirty val bits = set_or_clear RV_D val bits"

definition rv_is_valid :: "usize \<Rightarrow> bool option" where
  "rv_is_valid bits = do { pte \<leftarrow> rv_pteflags bits; Some (has_flags pte RV_V) }"

definition rv_set_valid :: "bool \<Rightarrow> usize \<Rightarrow> usize" where
  "rv_set_valid val bits = set_or_clear RV_V val bits"

definition rv_is_cow :: "usize \<Rightarrow> bool option" where
  "rv_is_cow bits = do { pte \<leftarrow> rv_pteflags bits; Some (has_flags pte RV_C) }"

definition rv_set_cow :: "bool \<Rightarrow> usize \<Rightarrow> usize" where
  "rv_set_cow val bits = set_or_clear RV_C val bits"

section \<open>LoongArch entries\<close>

definition LA_V :: usize where "LA_V = push_bit 0 1"
definition LA_D :: usize where "LA_D = push_bit 1 1"
definition LA_PLV_L :: usize where "LA_PLV_L = push_bit 2 1"
definition LA_PLV_H :: usize where "LA_PLV_H = push_bit 3 1"
definition LA_MAT_L :: usize where "LA_MAT_L = push_bit 4 1"
definition LA_MAT_H :: usize where "LA_MAT_H = push_bit 5 1"
definition LA_GH :: usize where "LA_GH = push_bit 6 1"
definition LA_P :: usize where "LA_P = push_bit 7 1"
definition LA_W :: usize where "LA_W = push_bit 8 1"
definition LA_C :: usize where "LA_C = push_bit 9 1"
definition LA_NR :: usize where "LA_NR = push_bit 61 1"
definition LA_NX :: usize where "LA_NX = push_bit 62 1"
definition LA_RPLV :: usize where "LA_RPLV = push_bit 63 1"

definition LA_ALL :: usize where
  "LA_ALL = LA_V OR LA_D OR LA_PLV_L OR LA_PLV_H OR LA_MAT_L OR LA_MAT_H OR LA_GH OR LA_P OR LA_W OR
     LA_C OR LA_NR OR LA_NX OR LA_RPLV"

definition LA_FLAGS_MASK :: usize where
  "LA_FLAGS_MASK = LA_PLV_L OR LA_PLV_H OR LA_W OR LA_NX OR LA_NR"
definition LA_PTE_FLAGS_MASK :: usize where "LA_PTE_FLAGS_MASK = 0xE000000000000FFF"
definition LA_PPN_MASK :: usize where "LA_PPN_MASK = 0x1FFFFFFFFFFFF000"

definition la_pteflags :: "usize \<Rightarrow> usize option" where
  "la_pteflags bits = from_bits LA_ALL (bits AND LA_PTE_FLAGS_MASK)"

definition la_flags_of_perm :: "map_perm \<Rightarrow> usize" where
  "la_flags_of_perm p =
     (if perm_u p then LA_PLV_L OR LA_PLV_H else 0) OR (if \<not> perm_r p then LA_NR else 0) OR
     (if perm_w p then LA_W else 0) OR (if \<not> perm_x p then LA_NX else 0)"

definition la_new :: "phys_page_num \<Rightarrow> map_perm \<Rightarrow> usize" where
  "la_new ppn map_perm = push_bit PAGE_SIZE_BITS ppn OR la_flags_of_perm map_perm"

definition la_flags :: "usize \<Rightarrow> map_perm option" where
  "la_flags bits = do {
     pte \<leftarrow> la_pteflags bits;
     Some \<lparr>perm_r = \<not> has_flags pte LA_NR, perm_w = has_flags pte LA_W, perm_x = \<not> has_flags pte LA_NX,
       perm_u = has_flags pte LA_PLV_H \<and> has_flags pte LA_PLV_L\<rparr> }"

definition la_set_flags :: "map_perm \<Rightarrow> usize \<Rightarrow> usize" where
  "la_set_flags map_flags bits =
     (bits AND NOT LA_FLAGS_MASK) OR (la_flags_of_perm map_flags AND LA_FLAGS_MASK)"

definition la_ppn :: "usize \<Rightarrow> phys_page_num" where
  "la_ppn bits = drop_bit 12 (bits AND LA_PPN_MASK)"

definition la_set_ppn :: "phys_page_num \<Rightarrow> usize \<Rightarrow> usize" where
  "la_set_ppn ppn bits = (bits AND NOT LA_PPN_MASK) OR (push_bit 12 ppn AND LA_PPN_MASK)"

definition la_is_dirty :: "usize \<Rightarrow> bool option" where
  "la_is_dirty bits = do { pte \<leftarrow> la_pteflags bits; Some (has_flags pte LA_D) }"

definition la_set_dirty :: "bool \<Rightarrow> usize \<Rightarrow> usize" where
  "la_set_dirty val bits = set_or_clear LA_D val bits"

definition la_is_valid :: "usize \<Rightarrow> bool option" where
  "la_is_valid bits = do { pte \<leftarrow> la_pteflags bits; Some (has_flags pte LA_V) }"

definition la_set_valid :: "bool \<Rightarrow> usize \<Rightarrow> usize" where
  "la_set_valid val bits = set_or_clear LA_V val bits"

definition la_is_cow :: "usize \<Rightarrow> bool option" where
  "la_is_cow bits = do { pte \<leftarrow> la_pteflags bits; Some (has_flags pte LA_C) }"

definition la_set_cow :: "bool \<Rightarrow> usize \<Rightarrow> usize" where
  "la_set_cow val bits = set_or_clear LA_C val bits"

definition la_is_leaf :: "usize \<Rightarrow> bool option" where
  "la_is_leaf bits = Some False"

section \<open>Provided methods of the trait\<close>

text \<open>The methods with a body in \<^verbatim>\<open>PageTableEntryHal\<close>, over \<^verbatim>\<open>flags\<close> and \<^verbatim>\<open>set_flags\<close>.\<close>

definition pte_is_user :: "(usize \<Rightarrow> map_perm option) \<Rightarrow> usize \<Rightarrow> bool option" where
  "pte_is_user flags pte = map_option perm_u (flags pte)"

definition pte_set_user ::
  "(usize \<Rightarrow> map_perm option) \<Rightarrow> (map_perm \<Rightarrow> usize \<Rightarrow> usize) \<Rightarrow> bool \<Rightarrow> usize \<Rightarrow> usize option" where
  "pte_set_user flags set_flags val pte = do { f \<leftarrow> flags pte; Some (set_flags (f\<lparr>perm_u := val\<rparr>) pte) }"

definition pte_is_readable :: "(usize \<Rightarrow> map_perm option) \<Rightarrow> usize \<Rightarrow> bool option" where
  "pte_is_readable flags pte = map_option perm_r (flags pte)"

definition pte_set_readable ::
  "(usize \<Rightarrow> map_perm option) \<Rightarrow> (map_perm \<Rightarrow> usize \<Rightarrow> usize) \<Rightarrow> bool \<Rightarrow> usize \<Rightarrow> usize option" where
  "pte_set_readable flags set_flags val pte = do { f \<leftarrow> flags pte; Some (set_flags (f\<lparr>perm_r := val\<rparr>) pte) }"

definition pte_is_writable :: "(usize \<Rightarrow> map_perm option) \<Rightarrow> usize \<Rightarrow> bool option" where
  "pte_is_writable flags pte = map_option perm_w (flags pte)"

definition pte_set_writable ::
  "(usize \<Rightarrow> map_perm option) \<Rightarrow> (map_perm \<Rightarrow> usize \<Rightarrow> usize) \<Rightarrow> bool \<Rightarrow> usize \<Rightarrow> usize option" where
  "pte_set_writable flags set_flags val pte = do { f \<leftarrow> flags pte; Some (set_flags (f\<lparr>perm_w := val\<rparr>) pte) }"

definition pte_is_executable :: "(usize \<Rightarrow> map_perm option) \<Rightarrow> usize \<Rightarrow> bool option" where
  "pte_is_executable flags pte = map_option perm_x (flags pte)"

definition pte_set_executable ::
  "(usize \<Rightarrow> map_perm option) \<Rightarrow> (map_perm \<Rightarrow> usize \<Rightarrow> usize) \<Rightarrow> bool \<Rightarrow> usize \<Rightarrow> usize option" where
  "pte_set_executable flags set_flags val pte = do { f \<leftarrow> flags pte; Some (set_flags (f\<lparr>perm_x := val\<rparr>) pte) }"

section \<open>Flags as bits\<close>

lemma bit_flag: "bit (push_bit k 1 :: usize) n \<longleftrightarrow> n = k \<and> k < 64"
  by (auto simp: bit_simps simp del: push_bit_of_1)

lemma has_flags_bit: "k < 64 \<Longrightarrow> has_flags x (push_bit k 1) \<longleftrightarrow> bit x k"
proof
  assume k: "k < 64"
  show "bit x k" if "has_flags x (push_bit k 1)"
  proof -
    have "bit (x AND push_bit k 1) k" using that k by (simp add: has_flags_def bit_flag del: push_bit_of_1)
    then show ?thesis by (simp only: bit_and_iff)
  qed
  show "has_flags x (push_bit k 1)" if "bit x k"
    unfolding has_flags_def using that
    by (intro bit_eqI) (auto simp: bit_and_iff bit_flag simp del: push_bit_of_1)
qed

lemmas rv_flag_defs = RV_V_def RV_R_def RV_W_def RV_X_def RV_U_def RV_G_def RV_A_def RV_D_def RV_C_def

lemmas la_flag_defs = LA_V_def LA_D_def LA_PLV_L_def LA_PLV_H_def LA_MAT_L_def LA_MAT_H_def LA_GH_def
  LA_P_def LA_W_def LA_C_def LA_NR_def LA_NX_def LA_RPLV_def

lemma has_rv_flag [pte_simps]:
  "has_flags x RV_V \<longleftrightarrow> bit x 0" "has_flags x RV_R \<longleftrightarrow> bit x 1" "has_flags x RV_W \<longleftrightarrow> bit x 2"
  "has_flags x RV_X \<longleftrightarrow> bit x 3" "has_flags x RV_U \<longleftrightarrow> bit x 4" "has_flags x RV_D \<longleftrightarrow> bit x 7"
  "has_flags x RV_C \<longleftrightarrow> bit x 8"
  unfolding rv_flag_defs by (rule has_flags_bit, simp)+

lemma has_la_flag [pte_simps]:
  "has_flags x LA_V \<longleftrightarrow> bit x 0" "has_flags x LA_D \<longleftrightarrow> bit x 1" "has_flags x LA_PLV_L \<longleftrightarrow> bit x 2"
  "has_flags x LA_PLV_H \<longleftrightarrow> bit x 3" "has_flags x LA_W \<longleftrightarrow> bit x 8" "has_flags x LA_C \<longleftrightarrow> bit x 9"
  "has_flags x LA_NR \<longleftrightarrow> bit x 61" "has_flags x LA_NX \<longleftrightarrow> bit x 62"
  unfolding la_flag_defs by (rule has_flags_bit, simp)+

lemma bit_rv_flag [pte_simps]:
  "bit RV_V n \<longleftrightarrow> n = 0" "bit RV_R n \<longleftrightarrow> n = 1" "bit RV_W n \<longleftrightarrow> n = 2" "bit RV_X n \<longleftrightarrow> n = 3"
  "bit RV_U n \<longleftrightarrow> n = 4" "bit RV_G n \<longleftrightarrow> n = 5" "bit RV_A n \<longleftrightarrow> n = 6" "bit RV_D n \<longleftrightarrow> n = 7"
  "bit RV_C n \<longleftrightarrow> n = 8"
  unfolding rv_flag_defs bit_flag by simp_all

lemma bit_la_flag [pte_simps]:
  "bit LA_V n \<longleftrightarrow> n = 0" "bit LA_D n \<longleftrightarrow> n = 1" "bit LA_PLV_L n \<longleftrightarrow> n = 2" "bit LA_PLV_H n \<longleftrightarrow> n = 3"
  "bit LA_MAT_L n \<longleftrightarrow> n = 4" "bit LA_MAT_H n \<longleftrightarrow> n = 5" "bit LA_GH n \<longleftrightarrow> n = 6" "bit LA_P n \<longleftrightarrow> n = 7"
  "bit LA_W n \<longleftrightarrow> n = 8" "bit LA_C n \<longleftrightarrow> n = 9" "bit LA_NR n \<longleftrightarrow> n = 61" "bit LA_NX n \<longleftrightarrow> n = 62"
  "bit LA_RPLV n \<longleftrightarrow> n = 63"
  unfolding la_flag_defs bit_flag by simp_all

lemma masks_as_shifts:
  "RV_PPN_MASK = push_bit 10 (mask 44)" "RV_PTE_FLAGS_MASK = mask 10" "LA_PPN_MASK = push_bit 12 (mask 49)"
  "LA_PTE_FLAGS_MASK = push_bit 61 (mask 3) OR mask 12"
  by (simp_all add: RV_PPN_MASK_def RV_PTE_FLAGS_MASK_def LA_PPN_MASK_def LA_PTE_FLAGS_MASK_def
      mask_eq_exp_minus_1 push_bit_eq_mult)

lemma bit_masks [pte_simps]:
  "bit RV_PPN_MASK n \<longleftrightarrow> 10 \<le> n \<and> n < 54" "bit RV_PTE_FLAGS_MASK n \<longleftrightarrow> n < 10"
  "bit LA_PPN_MASK n \<longleftrightarrow> 12 \<le> n \<and> n < 61" "bit LA_PTE_FLAGS_MASK n \<longleftrightarrow> n < 12 \<or> 61 \<le> n \<and> n < 64"
  unfolding masks_as_shifts by (auto simp: bit_push_bit_iff bit_mask_iff bit_or_iff)

lemma bit64: "bit x n \<Longrightarrow> n < 64" for x :: usize
  using bit_imp_le_length [of x n] by simp

lemma from_bits_iff: "from_bits all x = (if \<forall>n. bit x n \<longrightarrow> bit all n then Some x else None)"
proof -
  have "x AND NOT all = 0 \<longleftrightarrow> (\<forall>n. bit x n \<longrightarrow> bit all n)"
    using bit64 [of x] by (simp add: bit_eq_iff bit_and_iff bit_not_iff) metis
  then show ?thesis by (simp add: from_bits_def)
qed

lemma rv_pteflags_eq: "rv_pteflags p = (if bit p 9 then None else Some (p AND RV_PTE_FLAGS_MASK))"
proof -
  have "(\<forall>n. bit (p AND RV_PTE_FLAGS_MASK) n \<longrightarrow> bit RV_ALL n) \<longleftrightarrow> \<not> bit p 9"
  proof
    assume "\<forall>n. bit (p AND RV_PTE_FLAGS_MASK) n \<longrightarrow> bit RV_ALL n"
    from spec [OF this, of 9] show "\<not> bit p 9"
      by (simp add: RV_ALL_def bit_and_iff bit_or_iff pte_simps)
  next
    assume "\<not> bit p 9"
    moreover have "n < 10 \<Longrightarrow> n \<noteq> 9 \<Longrightarrow> bit RV_ALL n" for n
      by (auto simp: RV_ALL_def bit_or_iff pte_simps)
    ultimately show "\<forall>n. bit (p AND RV_PTE_FLAGS_MASK) n \<longrightarrow> bit RV_ALL n"
      by (auto simp: bit_and_iff bit_masks)
  qed
  then show ?thesis by (simp add: rv_pteflags_def from_bits_iff)
qed

lemma la_pteflags_eq:
  "la_pteflags p = (if bit p 10 \<or> bit p 11 then None else Some (p AND LA_PTE_FLAGS_MASK))"
proof -
  have "(\<forall>n. bit (p AND LA_PTE_FLAGS_MASK) n \<longrightarrow> bit LA_ALL n) \<longleftrightarrow> \<not> (bit p 10 \<or> bit p 11)"
  proof
    assume "\<forall>n. bit (p AND LA_PTE_FLAGS_MASK) n \<longrightarrow> bit LA_ALL n"
    from spec [OF this, of 10] spec [OF this, of 11] show "\<not> (bit p 10 \<or> bit p 11)"
      by (simp add: LA_ALL_def bit_and_iff bit_or_iff pte_simps)
  next
    assume "\<not> (bit p 10 \<or> bit p 11)"
    moreover have "n < 12 \<or> 61 \<le> n \<and> n < 64 \<Longrightarrow> n \<noteq> 10 \<Longrightarrow> n \<noteq> 11 \<Longrightarrow> bit LA_ALL n" for n
      unfolding LA_ALL_def bit_or_iff bit_la_flag by presburger
    ultimately show "\<forall>n. bit (p AND LA_PTE_FLAGS_MASK) n \<longrightarrow> bit LA_ALL n"
      by (auto simp: bit_and_iff bit_masks)
  qed
  then show ?thesis by (simp add: la_pteflags_def from_bits_iff)
qed

section \<open>What an entry says\<close>

record pte_view =
  v_ppn :: phys_page_num
  v_perm :: map_perm
  v_valid :: bool
  v_cow :: bool
  v_dirty :: bool

definition rv_view :: "usize \<Rightarrow> pte_view option" where
  "rv_view p = do {
     f \<leftarrow> rv_flags p; valid \<leftarrow> rv_is_valid p; cow \<leftarrow> rv_is_cow p; dirty \<leftarrow> rv_is_dirty p;
     Some \<lparr>v_ppn = rv_ppn p, v_perm = f, v_valid = valid, v_cow = cow, v_dirty = dirty\<rparr> }"

definition la_view :: "usize \<Rightarrow> pte_view option" where
  "la_view p = do {
     f \<leftarrow> la_flags p; valid \<leftarrow> la_is_valid p; cow \<leftarrow> la_is_cow p; dirty \<leftarrow> la_is_dirty p;
     Some \<lparr>v_ppn = la_ppn p, v_perm = f, v_valid = valid, v_cow = cow, v_dirty = dirty\<rparr> }"

lemma rv_view_eq:
  "rv_view p = (if bit p 9 then None
     else Some \<lparr>v_ppn = rv_ppn p,
       v_perm = \<lparr>perm_r = bit p 1, perm_w = bit p 2, perm_x = bit p 3, perm_u = bit p 4\<rparr>,
       v_valid = bit p 0, v_cow = bit p 8, v_dirty = bit p 7\<rparr>)"
  unfolding rv_view_def rv_flags_def rv_is_valid_def rv_is_cow_def rv_is_dirty_def rv_pteflags_eq
  by (simp add: has_rv_flag bit_and_iff bit_masks)

lemma la_view_eq:
  "la_view p = (if bit p 10 \<or> bit p 11 then None
     else Some \<lparr>v_ppn = la_ppn p,
       v_perm = \<lparr>perm_r = \<not> bit p 61, perm_w = bit p 8, perm_x = \<not> bit p 62, perm_u = bit p 3 \<and> bit p 2\<rparr>,
       v_valid = bit p 0, v_cow = bit p 9, v_dirty = bit p 1\<rparr>)"
  unfolding la_view_def la_flags_def la_is_valid_def la_is_cow_def la_is_dirty_def la_pteflags_eq
  by (simp add: has_la_flag bit_and_iff bit_masks)

lemma bit_rv_ppn: "bit (rv_ppn p) n \<longleftrightarrow> n < 44 \<and> bit p (n + 10)"
  unfolding rv_ppn_def shift_one_mask
  by (auto simp: bit_and_iff bit_mask_iff bit_drop_bit_eq PPN_WIDTH_def PAGE_SIZE_BITS_def add.commute)

lemma bit_la_ppn: "bit (la_ppn p) n \<longleftrightarrow> n < 49 \<and> bit p (n + 12)"
  by (auto simp: la_ppn_def bit_and_iff bit_drop_bit_eq bit_masks add.commute)

lemma bit_rv_flags_of_perm:
  "bit (rv_flags_of_perm f) n \<longleftrightarrow>
     n = 4 \<and> perm_u f \<or> n = 1 \<and> perm_r f \<or> n = 2 \<and> perm_w f \<or> n = 3 \<and> perm_x f"
  by (auto simp: rv_flags_of_perm_def bit_or_iff pte_simps)

lemma bit_la_flags_of_perm:
  "bit (la_flags_of_perm f) n \<longleftrightarrow>
     (n = 2 \<or> n = 3) \<and> perm_u f \<or> n = 61 \<and> \<not> perm_r f \<or> n = 8 \<and> perm_w f \<or> n = 62 \<and> \<not> perm_x f"
  by (auto simp: la_flags_of_perm_def bit_or_iff pte_simps)

lemma bit_set_or_clear: "bit (set_or_clear f val p) n \<longleftrightarrow> n < 64 \<and> (if bit f n then val else bit p n)"
  by (auto simp: set_or_clear_def bit_or_iff bit_and_iff bit_not_iff dest: bit64)

lemma bit_rv_set_flags:
  "bit (rv_set_flags f p) n \<longleftrightarrow> n < 64 \<and> (if n \<in> {1, 2, 3, 4} then bit (rv_flags_of_perm f) n else bit p n)"
  by (auto simp: rv_set_flags_def RV_FLAGS_MASK_def bit_or_iff bit_and_iff bit_not_iff pte_simps
      bit_rv_flags_of_perm dest: bit64)

lemma bit_la_set_flags:
  "bit (la_set_flags f p) n \<longleftrightarrow> n < 64 \<and> (if n \<in> {2, 3, 8, 61, 62} then bit (la_flags_of_perm f) n else bit p n)"
  by (auto simp: la_set_flags_def LA_FLAGS_MASK_def bit_or_iff bit_and_iff bit_not_iff pte_simps
      bit_la_flags_of_perm dest: bit64)

lemma bit_rv_set_ppn:
  "bit (rv_set_ppn ppn p) n \<longleftrightarrow> n < 64 \<and> (if 10 \<le> n \<and> n < 54 then bit ppn (n - 10) else bit p n)"
  by (auto simp: rv_set_ppn_def bit_or_iff bit_and_iff bit_not_iff bit_push_bit_iff bit_masks
      dest: bit64)

lemma bit_la_set_ppn:
  "bit (la_set_ppn ppn p) n \<longleftrightarrow> n < 64 \<and> (if 12 \<le> n \<and> n < 61 then bit ppn (n - 12) else bit p n)"
  by (auto simp: la_set_ppn_def bit_or_iff bit_and_iff bit_not_iff bit_push_bit_iff bit_masks
      dest: bit64)

lemma bit_rv_new: "bit (rv_new ppn f) n \<longleftrightarrow> n < 64 \<and> (10 \<le> n \<and> bit ppn (n - 10) \<or> bit (rv_flags_of_perm f) n)"
  by (auto simp: rv_new_def bit_or_iff bit_push_bit_iff dest: bit64)

lemma bit_la_new: "bit (la_new ppn f) n \<longleftrightarrow> n < 64 \<and> (12 \<le> n \<and> bit ppn (n - 12) \<or> bit (la_flags_of_perm f) n)"
  by (auto simp: la_new_def bit_or_iff bit_push_bit_iff PAGE_SIZE_BITS_def dest: bit64)

lemmas rv_bit_simps = bit_rv_ppn bit_rv_flags_of_perm bit_set_or_clear bit_rv_set_flags bit_rv_set_ppn bit_rv_new
lemmas la_bit_simps = bit_la_ppn bit_la_flags_of_perm bit_set_or_clear bit_la_set_flags bit_la_set_ppn bit_la_new

lemma high_bit_clear: "unat x < 2 ^ k \<Longrightarrow> k \<le> n \<Longrightarrow> \<not> bit x n" for x :: usize
proof -
  assume x: "unat x < 2 ^ k" "k \<le> n"
  have "(2 :: nat) ^ k \<le> 2 ^ n" using x(2) by simp
  with x(1) have "unat x < 2 ^ n" by (rule less_le_trans)
  then have "\<not> bit (unat x) n" by (simp add: bit_iff_odd)
  then show ?thesis by (simp add: bit_unsigned_iff)
qed

section \<open>The interface to page tables\<close>

text \<open>
  What page tables and address spaces rely on: an entry whose flag bits are known reads as a
  \<open>pte_view\<close>, a new entry reads as what it was made from, and each setter changes its own
  component and nothing else.
\<close>

locale pte_ops =
  fixes view :: "usize \<Rightarrow> pte_view option"
    and ppn_ok :: "phys_page_num \<Rightarrow> bool"
    and new :: "phys_page_num \<Rightarrow> map_perm \<Rightarrow> usize"
    and flags :: "usize \<Rightarrow> map_perm option"
    and set_flags :: "map_perm \<Rightarrow> usize \<Rightarrow> usize"
    and set_ppn :: "phys_page_num \<Rightarrow> usize \<Rightarrow> usize"
    and set_valid :: "bool \<Rightarrow> usize \<Rightarrow> usize"
    and set_cow :: "bool \<Rightarrow> usize \<Rightarrow> usize"
    and set_dirty :: "bool \<Rightarrow> usize \<Rightarrow> usize"
  assumes view_new: "ppn_ok n \<Longrightarrow>
      view (new n f) = Some \<lparr>v_ppn = n, v_perm = f, v_valid = False, v_cow = False, v_dirty = False\<rparr>"
    and view_flags: "flags p = map_option v_perm (view p)"
    and view_set_flags: "view p = Some v \<Longrightarrow> view (set_flags f p) = Some (v\<lparr>v_perm := f\<rparr>)"
    and view_set_ppn: "view p = Some v \<Longrightarrow> ppn_ok n \<Longrightarrow> view (set_ppn n p) = Some (v\<lparr>v_ppn := n\<rparr>)"
    and view_set_valid: "view p = Some v \<Longrightarrow> view (set_valid b p) = Some (v\<lparr>v_valid := b\<rparr>)"
    and view_set_cow: "view p = Some v \<Longrightarrow> view (set_cow b p) = Some (v\<lparr>v_cow := b\<rparr>)"
    and view_set_dirty: "view p = Some v \<Longrightarrow> view (set_dirty b p) = Some (v\<lparr>v_dirty := b\<rparr>)"
begin

lemma provided_setters:
  assumes "view p = Some v"
  shows "\<exists>q. pte_set_user flags set_flags b p = Some q \<and> view q = Some (v\<lparr>v_perm := (v_perm v)\<lparr>perm_u := b\<rparr>\<rparr>)"
    and "\<exists>q. pte_set_readable flags set_flags b p = Some q \<and> view q = Some (v\<lparr>v_perm := (v_perm v)\<lparr>perm_r := b\<rparr>\<rparr>)"
    and "\<exists>q. pte_set_writable flags set_flags b p = Some q \<and> view q = Some (v\<lparr>v_perm := (v_perm v)\<lparr>perm_w := b\<rparr>\<rparr>)"
    and "\<exists>q. pte_set_executable flags set_flags b p = Some q \<and> view q = Some (v\<lparr>v_perm := (v_perm v)\<lparr>perm_x := b\<rparr>\<rparr>)"
  using view_set_flags [OF assms] assms
  by (simp_all add: pte_set_user_def pte_set_readable_def pte_set_writable_def pte_set_executable_def view_flags)

text \<open>
  Marking an entry copy-on-write and read-only, as \<^verbatim>\<open>fork\<close> does, and undoing both, as the
  fault handler does when the frame is no longer shared, restores what the entry says.
\<close>

lemma cow_roundtrip:
  assumes "view p = Some v" "perm_w (v_perm v)" "\<not> v_cow v"
  shows "\<exists>q r. pte_set_writable flags set_flags False (set_cow True p) = Some q \<and>
    view q = Some (v\<lparr>v_cow := True, v_perm := (v_perm v)\<lparr>perm_w := False\<rparr>\<rparr>) \<and>
    pte_set_writable flags set_flags True (set_cow False q) = Some r \<and> view r = Some v"
proof -
  from provided_setters(3) [OF view_set_cow [OF assms(1), of True], of False] obtain q where
    q: "pte_set_writable flags set_flags False (set_cow True p) = Some q"
      "view q = Some (v\<lparr>v_cow := True, v_perm := (v_perm v)\<lparr>perm_w := False\<rparr>\<rparr>)" by auto
  from provided_setters(3) [OF view_set_cow [OF q(2), of False], of True] obtain r where
    r: "pte_set_writable flags set_flags True (set_cow False q) = Some r"
      "view r = Some (v\<lparr>v_cow := False, v_perm := (v_perm v)\<lparr>perm_w := True\<rparr>\<rparr>)" by auto
  have "v\<lparr>v_cow := False, v_perm := (v_perm v)\<lparr>perm_w := True\<rparr>\<rparr> = v"
    using assms(2,3) by (cases v, cases "v_perm v") simp
  with q r show ?thesis by auto
qed

end

definition rv_ppn_ok :: "phys_page_num \<Rightarrow> bool" where
  "rv_ppn_ok n \<longleftrightarrow> unat n < 2 ^ 44"

definition la_ppn_ok :: "phys_page_num \<Rightarrow> bool" where
  "la_ppn_ok n \<longleftrightarrow> unat n < 2 ^ 49"

lemma rv_ppn_eqI: "(\<And>n. n < 44 \<Longrightarrow> bit p (n + 10) \<longleftrightarrow> bit q (n + 10)) \<Longrightarrow> rv_ppn p = rv_ppn q"
  by (rule bit_eqI) (auto simp: bit_rv_ppn)

lemma la_ppn_eqI: "(\<And>n. n < 49 \<Longrightarrow> bit p (n + 12) \<longleftrightarrow> bit q (n + 12)) \<Longrightarrow> la_ppn p = la_ppn q"
  by (rule bit_eqI) (auto simp: bit_la_ppn)

lemma rv_ppn_setters:
  "rv_ppn (rv_set_flags f p) = rv_ppn p" "rv_ppn (set_or_clear RV_V b p) = rv_ppn p"
  "rv_ppn (set_or_clear RV_C b p) = rv_ppn p" "rv_ppn (set_or_clear RV_D b p) = rv_ppn p"
  by (rule rv_ppn_eqI; simp add: rv_bit_simps pte_simps)+

lemma la_ppn_setters:
  "la_ppn (la_set_flags f p) = la_ppn p" "la_ppn (set_or_clear LA_V b p) = la_ppn p"
  "la_ppn (set_or_clear LA_C b p) = la_ppn p" "la_ppn (set_or_clear LA_D b p) = la_ppn p"
  by (rule la_ppn_eqI; simp add: la_bit_simps pte_simps)+

lemma rv_ppn_of_bits:
  assumes "rv_ppn_ok n" "\<And>k. k < 44 \<Longrightarrow> bit p (k + 10) \<longleftrightarrow> bit n k"
  shows "rv_ppn p = n"
proof (rule bit_eqI)
  fix k
  show "bit (rv_ppn p) k \<longleftrightarrow> bit n k"
    using assms(2) [of k] high_bit_clear [of n 44 k] assms(1)
    by (cases "k < 44") (auto simp: bit_rv_ppn rv_ppn_ok_def)
qed

lemma la_ppn_of_bits:
  assumes "la_ppn_ok n" "\<And>k. k < 49 \<Longrightarrow> bit p (k + 12) \<longleftrightarrow> bit n k"
  shows "la_ppn p = n"
proof (rule bit_eqI)
  fix k
  show "bit (la_ppn p) k \<longleftrightarrow> bit n k"
    using assms(2) [of k] high_bit_clear [of n 49 k] assms(1)
    by (cases "k < 49") (auto simp: bit_la_ppn la_ppn_ok_def)
qed

lemma rv_ppn_new: "rv_ppn_ok n \<Longrightarrow> rv_ppn (rv_new n f) = n"
  by (erule rv_ppn_of_bits) (simp add: rv_bit_simps)

lemma rv_ppn_set_ppn: "rv_ppn_ok n \<Longrightarrow> rv_ppn (rv_set_ppn n p) = n"
  by (erule rv_ppn_of_bits) (simp add: rv_bit_simps)

lemma la_ppn_new: "la_ppn_ok n \<Longrightarrow> la_ppn (la_new n f) = n"
  by (erule la_ppn_of_bits) (simp add: la_bit_simps)

lemma la_ppn_set_ppn: "la_ppn_ok n \<Longrightarrow> la_ppn (la_set_ppn n p) = n"
  by (erule la_ppn_of_bits) (simp add: la_bit_simps)

lemma perm_eta [simp]:
  "\<lparr>perm_r = perm_r f, perm_w = perm_w f, perm_x = perm_x f, perm_u = perm_u f\<rparr> = (f :: map_perm)"
  by (cases f) simp

interpretation rv: pte_ops rv_view rv_ppn_ok rv_new rv_flags rv_set_flags rv_set_ppn rv_set_valid rv_set_cow rv_set_dirty
proof
  show "rv_flags p = map_option v_perm (rv_view p)" for p
    by (simp add: rv_view_eq rv_flags_def rv_pteflags_eq has_rv_flag bit_and_iff bit_masks)
qed (auto simp: rv_view_eq rv_ppn_setters rv_ppn_new rv_ppn_set_ppn rv_bit_simps pte_simps
    rv_set_valid_def rv_set_cow_def rv_set_dirty_def split: if_splits)

interpretation la: pte_ops la_view la_ppn_ok la_new la_flags la_set_flags la_set_ppn la_set_valid la_set_cow la_set_dirty
proof
  show "la_flags p = map_option v_perm (la_view p)" for p
    by (simp add: la_view_eq la_flags_def la_pteflags_eq has_la_flag bit_and_iff bit_masks)
  show "la_view (la_new n f) = Some \<lparr>v_ppn = n, v_perm = f, v_valid = False, v_cow = False, v_dirty = False\<rparr>"
    if "la_ppn_ok n" for n f
    using that high_bit_clear [of n 49]
    by (simp add: la_view_eq la_ppn_new la_bit_simps la_ppn_ok_def)
qed (auto simp: la_view_eq la_ppn_setters la_ppn_set_ppn la_bit_simps pte_simps
    la_set_valid_def la_set_cow_def la_set_dirty_def split: if_splits)

lemma rv_viewD:
  "rv_view p = Some v \<Longrightarrow> rv_ppn p = v_ppn v \<and> rv_is_valid p = Some (v_valid v) \<and> rv_is_cow p = Some (v_cow v) \<and>
     rv_is_dirty p = Some (v_dirty v) \<and>
     rv_is_leaf p = Some (v_valid v \<and> (perm_r (v_perm v) \<or> perm_w (v_perm v) \<or> perm_x (v_perm v)))"
  by (auto simp: rv_view_eq rv_is_valid_def rv_is_cow_def rv_is_dirty_def rv_is_leaf_def rv_pteflags_eq
      has_rv_flag bit_and_iff bit_masks split: if_splits)

lemma la_viewD:
  "la_view p = Some v \<Longrightarrow> la_ppn p = v_ppn v \<and> la_is_valid p = Some (v_valid v) \<and> la_is_cow p = Some (v_cow v) \<and>
     la_is_dirty p = Some (v_dirty v)"
  by (auto simp: la_view_eq la_is_valid_def la_is_cow_def la_is_dirty_def la_pteflags_eq
      has_la_flag bit_and_iff bit_masks split: if_splits)

section \<open>Correctness of page table entries\<close>

text \<open>
  An entry reads back what it was built from, on both targets: for a page number within
  the field's width, a new entry holds exactly that number and those permissions and is
  neither valid, copy-on-write nor dirty.
\<close>

theorem pte_new_roundtrip:
  assumes "unat ppn < 2 ^ 44"
  shows "rv_ppn (rv_new ppn f) = ppn \<and> rv_flags (rv_new ppn f) = Some f \<and>
    rv_is_valid (rv_new ppn f) = Some False \<and> rv_is_cow (rv_new ppn f) = Some False \<and>
    la_ppn (la_new ppn f) = ppn \<and> la_flags (la_new ppn f) = Some f \<and>
    la_is_valid (la_new ppn f) = Some False \<and> la_is_cow (la_new ppn f) = Some False"
proof -
  have "rv_ppn_ok ppn" "la_ppn_ok ppn" using assms by (auto simp: rv_ppn_ok_def la_ppn_ok_def)
  from rv.view_new [OF this(1), of f] la.view_new [OF this(2), of f] show ?thesis
    by (auto dest!: rv_viewD la_viewD simp: rv.view_flags la.view_flags)
qed

theorem pte_new_roundtrip_witness:
  "rv_ppn (rv_new 0x80200 \<lparr>perm_r = True, perm_w = True, perm_x = False, perm_u = True\<rparr>) = 0x80200 \<and>
   la_flags (la_new 0x80200 \<lparr>perm_r = True, perm_w = True, perm_x = False, perm_u = True\<rparr>) =
     Some \<lparr>perm_r = True, perm_w = True, perm_x = False, perm_u = True\<rparr>"
  using pte_new_roundtrip [of "0x80200"] by simp

text \<open>
  Copy-on-write is reversible. On both targets, marking a writable entry copy-on-write
  and clearing its write permission, as forking does, changes nothing else about the entry;
  clearing the mark and restoring the permission, as the fault handler does for an unshared
  frame, makes the entry say what it said before.
\<close>

theorem pte_cow_roundtrip:
  assumes "rv_view p = Some v" "la_view p' = Some v'"
    and "perm_w (v_perm v)" "\<not> v_cow v" "perm_w (v_perm v')" "\<not> v_cow v'"
  shows "(\<exists>q r. pte_set_writable rv_flags rv_set_flags False (rv_set_cow True p) = Some q \<and>
      rv_view q = Some (v\<lparr>v_cow := True, v_perm := (v_perm v)\<lparr>perm_w := False\<rparr>\<rparr>) \<and>
      pte_set_writable rv_flags rv_set_flags True (rv_set_cow False q) = Some r \<and> rv_view r = Some v) \<and>
    (\<exists>q r. pte_set_writable la_flags la_set_flags False (la_set_cow True p') = Some q \<and>
      la_view q = Some (v'\<lparr>v_cow := True, v_perm := (v_perm v')\<lparr>perm_w := False\<rparr>\<rparr>) \<and>
      pte_set_writable la_flags la_set_flags True (la_set_cow False q) = Some r \<and> la_view r = Some v')"
  by (rule conjI) (rule rv.cow_roundtrip la.cow_roundtrip; fact)+

theorem pte_cow_roundtrip_witness:
  "\<exists>q r. pte_set_writable rv_flags rv_set_flags False (rv_set_cow True 0x20080017) = Some q \<and>
     pte_set_writable rv_flags rv_set_flags True (rv_set_cow False q) = Some r \<and>
     rv_view r = rv_view 0x20080017"
proof -
  have a: "rv_view 0x20080017 = Some \<lparr>v_ppn = rv_ppn 0x20080017,
      v_perm = \<lparr>perm_r = True, perm_w = True, perm_x = False, perm_u = True\<rparr>, v_valid = True,
      v_cow = False, v_dirty = False\<rparr>"
    by (simp add: rv_view_eq)
  have b: "la_view 0x80200101 = Some \<lparr>v_ppn = la_ppn 0x80200101,
      v_perm = \<lparr>perm_r = True, perm_w = True, perm_x = True, perm_u = False\<rparr>, v_valid = True,
      v_cow = False, v_dirty = False\<rparr>"
    by (simp add: la_view_eq)
  from pte_cow_roundtrip [OF a b] show ?thesis unfolding a by auto
qed

end
