(* ===== verification/Page_Table.thy ===== *)
theory Page_Table
  imports Page_Table_Entry
begin

text \<open>
  Page tables of the two targets, \<^verbatim>\<open>hal/src/component/pagetable/riscv64.rs\<close> and
  \<^verbatim>\<open>loongarch64.rs\<close>. Physical memory used for tables is a function from frame and index to
  the 64-bit entry; the frame allocator (the trait \<^verbatim>\<open>FrameAllocatorHal\<close>) is a parameter that
  hands out the first page number of a one-page range. The two targets walk the tables with
  the same two loops and differ in the tests they apply to an entry and in the entry they
  make for a new table, so that the loops take these as arguments.
\<close>

type_synonym pmem = "phys_page_num \<Rightarrow> nat \<Rightarrow> usize"

record 'al pt_state =
  pt_root :: phys_page_num
  pt_frames :: "phys_page_num list"
  pt_mem :: pmem
  pt_al :: 'al

type_synonym 'al frame_alloc = "'al \<Rightarrow> (phys_page_num \<times> 'al) option"

definition pm_write :: "pmem \<Rightarrow> phys_page_num \<Rightarrow> nat \<Rightarrow> usize \<Rightarrow> pmem" where
  "pm_write mem f i e = mem(f := (mem f)(i := e))"

definition pm_zero :: "pmem \<Rightarrow> phys_page_num \<Rightarrow> pmem" where
  "pm_zero mem f = mem(f := (\<lambda>_. 0))"

section \<open>Page levels\<close>

datatype rv_level = RvHuge | RvBig | RvSmall

fun rv_page_count :: "rv_level \<Rightarrow> usize" where
  "rv_page_count RvHuge = 512 * 512" | "rv_page_count RvBig = 512" | "rv_page_count RvSmall = 1"

fun rv_lower :: "rv_level \<Rightarrow> rv_level" where
  "rv_lower RvHuge = RvBig" | "rv_lower RvBig = RvSmall" | "rv_lower RvSmall = RvSmall"

fun rv_higher :: "rv_level \<Rightarrow> rv_level" where
  "rv_higher RvHuge = RvHuge" | "rv_higher RvBig = RvHuge" | "rv_higher RvSmall = RvBig"

fun rv_lowest :: "rv_level \<Rightarrow> bool" where
  "rv_lowest RvSmall = True" | "rv_lowest _ = False"

fun rv_highest :: "rv_level \<Rightarrow> bool" where
  "rv_highest RvHuge = True" | "rv_highest _ = False"

definition rv_from_count :: "usize \<Rightarrow> rv_level option" where
  "rv_from_count count =
     (if count = 0x1 then Some RvSmall else if count = 0x200 then Some RvBig
      else if count = 0x40000 then Some RvHuge else None)"

definition rv_level_from :: "nat \<Rightarrow> rv_level option" where
  "rv_level_from v = (if v = 0 then Some RvHuge else if v = 1 then Some RvBig else if v = 2 then Some RvSmall else panic)"

datatype la_level = LaHuge | LaBig | LaMiddle | LaSmall

fun la_page_count :: "la_level \<Rightarrow> usize" where
  "la_page_count LaHuge = 512 * 512 * 512" | "la_page_count LaBig = 512 * 512"
| "la_page_count LaMiddle = 512" | "la_page_count LaSmall = 1"

fun la_lower :: "la_level \<Rightarrow> la_level" where
  "la_lower LaHuge = LaBig" | "la_lower LaBig = LaMiddle" | "la_lower LaMiddle = LaSmall" | "la_lower LaSmall = LaSmall"

fun la_higher :: "la_level \<Rightarrow> la_level" where
  "la_higher LaHuge = LaHuge" | "la_higher LaBig = LaHuge" | "la_higher LaMiddle = LaBig" | "la_higher LaSmall = LaMiddle"

fun la_lowest :: "la_level \<Rightarrow> bool" where
  "la_lowest LaSmall = True" | "la_lowest _ = False"

fun la_highest :: "la_level \<Rightarrow> bool" where
  "la_highest LaHuge = True" | "la_highest _ = False"

definition la_from_count :: "usize \<Rightarrow> la_level option" where
  "la_from_count count =
     (if count = 0x1 then Some LaSmall else if count = 0x200 then Some LaMiddle
      else if count = 0x40000 then Some LaBig else if count = 0x8000000 then Some LaHuge else None)"

definition la_level_from :: "nat \<Rightarrow> la_level option" where
  "la_level_from v =
     (if v = 0 then Some LaHuge else if v = 1 then Some LaBig else if v = 2 then Some LaMiddle
      else if v = 3 then Some LaSmall else panic)"

text \<open>The iterator over a range of page numbers, one small page at a time.\<close>

definition vpn_iter_next ::
  "arch \<Rightarrow> virt_page_num \<times> virt_page_num \<Rightarrow> (virt_page_num \<times> (virt_page_num \<times> virt_page_num)) option" where
  "vpn_iter_next a r =
     (if \<not> fst r < snd r then None
      else Some (fst r, (vpn_add a (fst r) (rv_page_count RvSmall), snd r)))"

section \<open>The two loops\<close>

fun pt_find ::
  "(usize \<Rightarrow> bool option) \<Rightarrow> (usize \<Rightarrow> bool option) \<Rightarrow> (usize \<Rightarrow> phys_page_num) \<Rightarrow> nat \<Rightarrow>
   pmem \<Rightarrow> nat \<Rightarrow> phys_page_num \<Rightarrow> nat list \<Rightarrow> (phys_page_num \<times> nat \<times> nat) option option" where
  "pt_find absent leaf nxt lst mem i ppn [] = Some None"
| "pt_find absent leaf nxt lst mem i ppn (idx # idxs) = do {
     a \<leftarrow> absent (mem ppn idx);
     if a then Some None
     else do {
       l \<leftarrow> leaf (mem ppn idx);
       if l \<or> i = lst then Some (Some (ppn, idx, i))
       else pt_find absent leaf nxt lst mem (Suc i) (nxt (mem ppn idx)) idxs } }"

fun pt_create ::
  "(usize \<Rightarrow> bool option) \<Rightarrow> (phys_page_num \<Rightarrow> usize) \<Rightarrow> (usize \<Rightarrow> phys_page_num) \<Rightarrow> (nat \<Rightarrow> bool option) \<Rightarrow>
   'al frame_alloc \<Rightarrow> nat \<Rightarrow> phys_page_num \<Rightarrow> nat list \<Rightarrow> 'al pt_state \<Rightarrow>
   ((phys_page_num \<times> nat) option \<times> 'al pt_state) option" where
  "pt_create absent mk nxt at_level alloc i ppn [] s = Some (None, s)"
| "pt_create absent mk nxt at_level alloc i ppn (idx # idxs) s = do {
     here \<leftarrow> at_level i;
     if here then Some (Some (ppn, idx), s)
     else do {
       a \<leftarrow> absent (pt_mem s ppn idx);
       s' \<leftarrow> (if a then do {
           (frame, al') \<leftarrow> alloc (pt_al s);
           Some (s\<lparr>pt_mem := pm_write (pm_zero (pt_mem s) frame) ppn idx (mk frame),
                   pt_frames := pt_frames s @ [frame], pt_al := al'\<rparr>) }
         else Some s);
       pt_create absent mk nxt at_level alloc (Suc i) (nxt (pt_mem s' ppn idx)) idxs s' } }"

section \<open>RISC-V page tables\<close>

definition rv_absent :: "usize \<Rightarrow> bool option" where
  "rv_absent pte = map_option Not (rv_is_valid pte)"

definition rv_mk_table :: "phys_page_num \<Rightarrow> usize" where
  "rv_mk_table frame = rv_set_valid True (rv_new frame perm_empty)"

definition rv_find_pte_create ::
  "'al frame_alloc \<Rightarrow> virt_page_num \<Rightarrow> rv_level \<Rightarrow> 'al pt_state \<Rightarrow>
   ((phys_page_num \<times> nat) option \<times> 'al pt_state) option" where
  "rv_find_pte_create alloc vpn level s =
     pt_create rv_absent rv_mk_table rv_ppn (\<lambda>i. map_option (\<lambda>l. l = level) (rv_level_from i)) alloc
       0 (pt_root s) (vpn_indexes Riscv64 vpn) s"

definition rv_from_token :: "usize \<Rightarrow> pmem \<Rightarrow> 'al \<Rightarrow> 'al pt_state" where
  "rv_from_token token mem al =
     \<lparr>pt_root = token AND (push_bit (PPN_WIDTH Riscv64) 1 - 1), pt_frames = [], pt_mem = mem, pt_al = al\<rparr>"

definition rv_get_token :: "'al pt_state \<Rightarrow> usize" where
  "rv_get_token s = push_bit 60 8 OR pt_root s"

definition pt_new_in :: "'al frame_alloc \<Rightarrow> pmem \<Rightarrow> 'al \<Rightarrow> 'al pt_state option" where
  "pt_new_in alloc mem al = do {
     (frame, al') \<leftarrow> alloc al;
     Some \<lparr>pt_root = frame, pt_frames = [frame], pt_mem = pm_zero mem frame, pt_al = al'\<rparr> }"

definition rv_find_pte :: "virt_page_num \<Rightarrow> 'al pt_state \<Rightarrow> (phys_page_num \<times> nat \<times> nat) option option" where
  "rv_find_pte vpn s = pt_find rv_absent rv_is_leaf rv_ppn 2 (pt_mem s) 0 (pt_root s) (vpn_indexes Riscv64 vpn)"

definition rv_map ::
  "'al frame_alloc \<Rightarrow> virt_page_num \<Rightarrow> phys_page_num \<Rightarrow> map_perm \<Rightarrow> rv_level \<Rightarrow> 'al pt_state \<Rightarrow>
   ((unit + phys_page_num \<times> nat) \<times> 'al pt_state) option" where
  "rv_map alloc vpn ppn perm level s = do {
     (r, s') \<leftarrow> rv_find_pte_create alloc vpn level s;
     (case r of
        Some (f, i) \<Rightarrow> Some (Inr (f, i), s'\<lparr>pt_mem := pm_write (pt_mem s') f i (rv_set_valid True (rv_new ppn perm))\<rparr>)
      | None \<Rightarrow> Some (Inl (), s')) }"

definition rv_unmap :: "virt_page_num \<Rightarrow> 'al pt_state \<Rightarrow> ((unit + usize) \<times> 'al pt_state) option" where
  "rv_unmap vpn s = do {
     r \<leftarrow> rv_find_pte vpn s;
     (case r of
        Some (f, i, _) \<Rightarrow> Some (Inr (pt_mem s f i), s\<lparr>pt_mem := pm_write (pt_mem s) f i 0\<rparr>)
      | None \<Rightarrow> Some (Inl (), s)) }"

definition rv_translate_va :: "virt_addr \<Rightarrow> 'al pt_state \<Rightarrow> phys_addr option option" where
  "rv_translate_va va s = do {
     r \<leftarrow> rv_find_pte (va_floor Riscv64 va) s;
     (case r of
        None \<Rightarrow> Some None
      | Some (f, i, lvl) \<Rightarrow> do {
          let pte = pt_mem s f i;
          v \<leftarrow> rv_is_valid pte;
          if \<not> v then Some None
          else do {
            level \<leftarrow> rv_level_from lvl;
            Some (Some (ppn_start_addr (rv_ppn pte) + va mod (rv_page_count level * PAGE_SIZE))) } }) }"

definition rv_translate_vpn :: "virt_page_num \<Rightarrow> 'al pt_state \<Rightarrow> phys_page_num option option" where
  "rv_translate_vpn vpn s = do {
     r \<leftarrow> rv_find_pte vpn s;
     (case r of
        None \<Rightarrow> Some None
      | Some (f, i, lvl) \<Rightarrow> do {
          let pte = pt_mem s f i;
          v \<leftarrow> rv_is_valid pte;
          if \<not> v then Some None
          else do {
            level \<leftarrow> rv_level_from lvl;
            Some (Some (rv_ppn pte + vpn mod rv_page_count level)) } }) }"

text \<open>
  \<^verbatim>\<open>clear\<close> keeps the first tracked frame and drops the others, which returns them to the
  allocator; \<^verbatim>\<open>swap_remove(0)\<close> panics when there is none.
\<close>

definition pt_clear :: "('al \<Rightarrow> phys_page_num \<Rightarrow> 'al) \<Rightarrow> 'al pt_state \<Rightarrow> 'al pt_state option" where
  "pt_clear dealloc s =
     (case pt_frames s of
        [] \<Rightarrow> panic
      | root # rest \<Rightarrow>
          Some (s\<lparr>pt_frames := [root],
            pt_al := fold (\<lambda>f al. dealloc al f) (if rest = [] then [] else last rest # butlast rest) (pt_al s)\<rparr>))"

section \<open>LoongArch page tables\<close>

definition la_absent :: "usize \<Rightarrow> bool option" where
  "la_absent pte = Some (pte = 0)"

definition la_mk_table :: "phys_page_num \<Rightarrow> usize" where
  "la_mk_table frame = push_bit PAGE_SIZE_BITS frame"

definition la_find_pte_create ::
  "'al frame_alloc \<Rightarrow> virt_page_num \<Rightarrow> la_level \<Rightarrow> 'al pt_state \<Rightarrow>
   ((phys_page_num \<times> nat) option \<times> 'al pt_state) option" where
  "la_find_pte_create alloc vpn level s = do {
     assert_that (la_lowest level);
     pt_create la_absent la_mk_table la_ppn (\<lambda>i. map_option (\<lambda>l. l = level) (la_level_from i)) alloc
       0 (pt_root s) (vpn_indexes Loongarch64 vpn) s }"

definition la_from_token :: "usize \<Rightarrow> pmem \<Rightarrow> 'al \<Rightarrow> 'al pt_state" where
  "la_from_token token mem al =
     \<lparr>pt_root = drop_bit PAGE_SIZE_BITS token, pt_frames = [], pt_mem = mem, pt_al = al\<rparr>"

definition la_get_token :: "'al pt_state \<Rightarrow> usize" where
  "la_get_token s = ppn_start_addr (pt_root s) AND NOT (fst (KERNEL_ADDR_SPACE Loongarch64))"

definition la_find_pte :: "virt_page_num \<Rightarrow> 'al pt_state \<Rightarrow> (phys_page_num \<times> nat \<times> nat) option option" where
  "la_find_pte vpn s =
     pt_find la_absent (\<lambda>_. Some False) la_ppn (PG_LEVEL Loongarch64 - 1) (pt_mem s) 0 (pt_root s)
       (vpn_indexes Loongarch64 vpn)"

definition la_map ::
  "'al frame_alloc \<Rightarrow> virt_page_num \<Rightarrow> phys_page_num \<Rightarrow> map_perm \<Rightarrow> la_level \<Rightarrow> 'al pt_state \<Rightarrow>
   ((unit + phys_page_num \<times> nat) \<times> 'al pt_state) option" where
  "la_map alloc vpn ppn perm level s = do {
     (r, s') \<leftarrow> la_find_pte_create alloc vpn level s;
     (case r of
        Some (f, i) \<Rightarrow>
          Some (Inr (f, i), s'\<lparr>pt_mem := pm_write (pt_mem s') f i (la_set_valid True (la_new ppn perm) OR LA_MAT_L)\<rparr>)
      | None \<Rightarrow> Some (Inl (), s')) }"

definition la_unmap :: "virt_page_num \<Rightarrow> 'al pt_state \<Rightarrow> ((unit + usize) \<times> 'al pt_state) option" where
  "la_unmap vpn s = do {
     r \<leftarrow> la_find_pte vpn s;
     (case r of
        Some (f, i, _) \<Rightarrow> Some (Inr (pt_mem s f i), s\<lparr>pt_mem := pm_write (pt_mem s) f i 0\<rparr>)
      | None \<Rightarrow> Some (Inl (), s)) }"

definition la_translate_va :: "virt_addr \<Rightarrow> 'al pt_state \<Rightarrow> phys_addr option option" where
  "la_translate_va va s = do {
     r \<leftarrow> la_find_pte (va_floor Loongarch64 va) s;
     (case r of
        None \<Rightarrow> Some None
      | Some (f, i, lvl) \<Rightarrow> do {
          let pte = pt_mem s f i;
          v \<leftarrow> la_is_valid pte;
          if \<not> v then Some None
          else do {
            level \<leftarrow> la_level_from lvl;
            Some (Some (ppn_start_addr (la_ppn pte) + va mod (la_page_count level * PAGE_SIZE))) } }) }"

definition la_translate_vpn :: "virt_page_num \<Rightarrow> 'al pt_state \<Rightarrow> phys_page_num option option" where
  "la_translate_vpn vpn s = do {
     r \<leftarrow> la_find_pte vpn s;
     (case r of
        None \<Rightarrow> Some None
      | Some (f, i, lvl) \<Rightarrow> do {
          let pte = pt_mem s f i;
          v \<leftarrow> la_is_valid pte;
          if \<not> v then Some None
          else do {
            level \<leftarrow> la_level_from lvl;
            Some (Some (la_ppn pte + vpn mod la_page_count level)) } }) }"

section \<open>The shape of a table tree\<close>

text \<open>
  An address space owns the frames \<open>F\<close>, at depth \<open>d\<close> below the root; the frames of the kernel
  mappings, which every address space shares through the root entries \<open>S\<close>, are \<open>K\<close>. Every
  other present entry above the last level leads to an owned frame one level further down,
  and no two entries lead to the same owned frame.
\<close>

definition is_table :: "(usize \<Rightarrow> bool option) \<Rightarrow> (usize \<Rightarrow> bool option) \<Rightarrow> usize \<Rightarrow> bool" where
  "is_table absent leaf p \<longleftrightarrow> absent p = Some False \<and> leaf p = Some False"

definition pt_tree ::
  "(usize \<Rightarrow> bool option) \<Rightarrow> (usize \<Rightarrow> bool option) \<Rightarrow> (usize \<Rightarrow> phys_page_num) \<Rightarrow> nat \<Rightarrow>
   (phys_page_num \<Rightarrow> nat) \<Rightarrow> phys_page_num set \<Rightarrow> nat set \<Rightarrow> pmem \<Rightarrow> phys_page_num \<Rightarrow> phys_page_num set \<Rightarrow> bool" where
  "pt_tree absent leaf nxt lst d K S mem root F \<longleftrightarrow>
     root \<in> F \<and> d root = 0 \<and> F \<inter> K = {} \<and> (\<forall>f \<in> F. d f \<le> lst) \<and>
     (\<forall>f \<in> F \<union> K. \<forall>i. absent (mem f i) \<noteq> None \<and> leaf (mem f i) \<noteq> None) \<and>
     (\<forall>f \<in> F. \<forall>i. d f < lst \<longrightarrow> \<not> (f = root \<and> i \<in> S) \<longrightarrow> absent (mem f i) = Some False \<longrightarrow>
       leaf (mem f i) = Some False \<and> nxt (mem f i) \<in> F \<and> d (nxt (mem f i)) = Suc (d f)) \<and>
     (\<forall>i \<in> S. is_table absent leaf (mem root i) \<longrightarrow> nxt (mem root i) \<in> K) \<and>
     (\<forall>f \<in> K. \<forall>i. is_table absent leaf (mem f i) \<longrightarrow> nxt (mem f i) \<in> K) \<and>
     (\<forall>f \<in> F. \<forall>g \<in> F. \<forall>i j. d f < lst \<longrightarrow> d g < lst \<longrightarrow>
       \<not> (f = root \<and> i \<in> S) \<longrightarrow> \<not> (g = root \<and> j \<in> S) \<longrightarrow>
       absent (mem f i) = Some False \<longrightarrow> absent (mem g j) = Some False \<longrightarrow>
       nxt (mem f i) = nxt (mem g j) \<longrightarrow> f = g \<and> i = j)"

lemma pt_treeD:
  assumes "pt_tree absent leaf nxt lst d K S mem root F"
  shows "root \<in> F" and "d root = 0" and "F \<inter> K = {}" and "f \<in> F \<Longrightarrow> d f \<le> lst"
    and "f \<in> F \<or> f \<in> K \<Longrightarrow> absent (mem f i) \<noteq> None \<and> leaf (mem f i) \<noteq> None"
    and "f \<in> F \<Longrightarrow> d f < lst \<Longrightarrow> \<not> (f = root \<and> i \<in> S) \<Longrightarrow> absent (mem f i) = Some False \<Longrightarrow>
      leaf (mem f i) = Some False \<and> nxt (mem f i) \<in> F \<and> d (nxt (mem f i)) = Suc (d f)"
    and "i \<in> S \<Longrightarrow> is_table absent leaf (mem root i) \<Longrightarrow> nxt (mem root i) \<in> K"
    and "f \<in> K \<Longrightarrow> is_table absent leaf (mem f i) \<Longrightarrow> nxt (mem f i) \<in> K"
    and "f \<in> F \<Longrightarrow> g \<in> F \<Longrightarrow> d f < lst \<Longrightarrow> d g < lst \<Longrightarrow>
       \<not> (f = root \<and> i \<in> S) \<Longrightarrow> \<not> (g = root \<and> j \<in> S) \<Longrightarrow>
       absent (mem f i) = Some False \<Longrightarrow> absent (mem g j) = Some False \<Longrightarrow>
       nxt (mem f i) = nxt (mem g j) \<Longrightarrow> f = g \<and> i = j"
  using assms unfolding pt_tree_def by blast+

text \<open>The entry a walk ends at, with its level, and the cell a walk through tables leads to.\<close>

definition pt_look ::
  "(usize \<Rightarrow> bool option) \<Rightarrow> (usize \<Rightarrow> bool option) \<Rightarrow> (usize \<Rightarrow> phys_page_num) \<Rightarrow> nat \<Rightarrow>
   pmem \<Rightarrow> nat \<Rightarrow> phys_page_num \<Rightarrow> nat list \<Rightarrow> (usize \<times> nat) option option" where
  "pt_look absent leaf nxt lst mem i f idxs =
     map_option (map_option (\<lambda>(g, j, l). (mem g j, l))) (pt_find absent leaf nxt lst mem i f idxs)"

fun pt_walk ::
  "(usize \<Rightarrow> bool option) \<Rightarrow> (usize \<Rightarrow> bool option) \<Rightarrow> (usize \<Rightarrow> phys_page_num) \<Rightarrow>
   pmem \<Rightarrow> phys_page_num \<Rightarrow> nat list \<Rightarrow> (phys_page_num \<times> nat) option" where
  "pt_walk absent leaf nxt mem f [] = None"
| "pt_walk absent leaf nxt mem f [i] = Some (f, i)"
| "pt_walk absent leaf nxt mem f (i # j # idxs) =
     (if is_table absent leaf (mem f i) then pt_walk absent leaf nxt mem (nxt (mem f i)) (j # idxs) else None)"

text \<open>What is relied on of the frame allocator: it hands out a frame that is available, once.\<close>

definition alloc_law :: "'al frame_alloc \<Rightarrow> ('al \<Rightarrow> phys_page_num set) \<Rightarrow> bool" where
  "alloc_law alloc av \<longleftrightarrow>
     (\<forall>al. finite (av al) \<and> (alloc al = None \<longrightarrow> av al = {})) \<and>
     (\<forall>al n al'. alloc al = Some (n, al') \<longrightarrow> n \<in> av al \<and> av al' = av al - {n})"

locale radix_table =
  fixes absent leaf :: "usize \<Rightarrow> bool option"
    and nxt :: "usize \<Rightarrow> phys_page_num"
    and mk :: "phys_page_num \<Rightarrow> usize"
    and fr_ok :: "phys_page_num \<Rightarrow> bool"
  assumes zero_absent: "absent 0 = Some True" "leaf 0 = Some False"
    and mk_table: "fr_ok n \<Longrightarrow> absent (mk n) = Some False \<and> leaf (mk n) = Some False \<and> nxt (mk n) = n"
begin

abbreviation tree where "tree \<equiv> pt_tree absent leaf nxt"
abbreviation look where "look \<equiv> pt_look absent leaf nxt"
abbreviation walk where "walk \<equiv> pt_walk absent leaf nxt"
abbreviation tab where "tab \<equiv> is_table absent leaf"

lemma look_Nil: "look lst mem i f [] = Some None"
  by (simp add: pt_look_def)

lemma look_Cons:
  assumes "absent (mem f idx) = Some a" "leaf (mem f idx) = Some l"
  shows "look lst mem i f (idx # idxs) =
    (if a then Some None else if l \<or> i = lst then Some (Some (mem f idx, i))
     else look lst mem (Suc i) (nxt (mem f idx)) idxs)"
  using assms by (simp add: pt_look_def)

lemma look_shared:
  assumes "\<And>f i. f \<in> K \<Longrightarrow> mem' f i = mem f i"
    and "\<And>f i. f \<in> K \<Longrightarrow> absent (mem f i) \<noteq> None \<and> leaf (mem f i) \<noteq> None"
    and "\<And>f i. f \<in> K \<Longrightarrow> tab (mem f i) \<Longrightarrow> nxt (mem f i) \<in> K"
  shows "f \<in> K \<Longrightarrow> look lst mem' i f idxs = look lst mem i f idxs"
proof (induction idxs arbitrary: f i)
  case (Cons idx idxs)
  obtain a l where al: "absent (mem f idx) = Some a" "leaf (mem f idx) = Some l"
    using assms(2) [OF Cons.prems, of idx] by auto
  have same: "mem' f idx = mem f idx" by (rule assms(1) [OF Cons.prems])
  have "nxt (mem f idx) \<in> K" if "\<not> a" "\<not> l"
    using assms(3) [OF Cons.prems, of idx] al that by (simp add: is_table_def)
  then show ?case
    using Cons.IH [of "nxt (mem f idx)" "Suc i"]
    by (simp add: look_Cons [of mem f idx, OF al] look_Cons [of mem' f idx a l] same al)
qed (simp add: look_Nil)

lemma walk_shared:
  assumes "\<And>f i. f \<in> K \<Longrightarrow> tab (mem f i) \<Longrightarrow> nxt (mem f i) \<in> K"
  shows "f \<in> K \<Longrightarrow> walk mem f idxs = Some (g, j) \<Longrightarrow> g \<in> K"
  using assms by (induction absent leaf nxt mem f idxs rule: pt_walk.induct) (auto split: if_splits)

lemma walk_owned:
  assumes tree: "tree lst d K S mem root F" and t: "tab (mem f i)"
    and w: "walk mem (nxt (mem f i)) is = Some c" and c: "fst c \<in> F"
  shows "\<not> (f = root \<and> i \<in> S)"
proof
  assume "f = root \<and> i \<in> S"
  then have "nxt (mem f i) \<in> K" using pt_treeD(7) [OF tree, of i] t by simp
  then have "fst c \<in> K"
    using walk_shared [of K mem "nxt (mem f i)" "is" "fst c" "snd c"] pt_treeD(8) [OF tree] w by simp
  then show False using pt_treeD(3) [OF tree] c by blast
qed

text \<open>Two walks of full length that end at the same owned cell took the same path.\<close>

lemma walk_inj:
  assumes tree: "tree lst d K S mem root F"
  shows "f \<in> F \<Longrightarrow> g \<in> F \<Longrightarrow> d f = d g \<Longrightarrow> length is = Suc (lst - d f) \<Longrightarrow> length js = length is \<Longrightarrow>
    walk mem f is = Some c \<Longrightarrow> walk mem g js = Some c \<Longrightarrow> fst c \<in> F \<Longrightarrow> f = g \<and> is = js"
proof (induction "is" arbitrary: f g js)
  case (Cons i "is")
  obtain j js' where js: "js = j # js'" using Cons.prems(5) by (cases js) auto
  show ?case
  proof (cases "is")
    case Nil
    then show ?thesis using Cons.prems js by auto
  next
    case (Cons i' is')
    obtain j' js'' where js': "js' = j' # js''" using Cons.prems(5) js Cons by (cases js') auto
    have d: "d f < lst" "d g < lst" using Cons.prems(3,4) Cons pt_treeD(4) [OF tree] by auto
    have t: "tab (mem f i)" "tab (mem g j)" "walk mem (nxt (mem f i)) is = Some c"
      "walk mem (nxt (mem g j)) js' = Some c"
      using Cons.prems(6,7) js js' Cons by (auto split: if_splits)
    have own: "\<not> (f = root \<and> i \<in> S)" "\<not> (g = root \<and> j \<in> S)"
      by (rule walk_owned [OF tree t(1,3) Cons.prems(8)], rule walk_owned [OF tree t(2,4) Cons.prems(8)])
    have n: "nxt (mem f i) \<in> F" "nxt (mem g j) \<in> F" "d (nxt (mem f i)) = Suc (d f)" "d (nxt (mem g j)) = Suc (d g)"
      using pt_treeD(6) [OF tree] Cons.prems(1,2) d own t(1,2) by (auto simp: is_table_def)
    have "nxt (mem f i) = nxt (mem g j) \<and> is = js'"
      using Cons.IH [OF n(1,2) _ _ _ t(3,4) Cons.prems(8)] n(3,4) Cons.prems(3,4,5) js d by auto
    then show ?thesis
      using pt_treeD(9) [OF tree Cons.prems(1,2) d own] t(1,2) js by (auto simp: is_table_def)
  qed
qed simp

end

context radix_table begin

text \<open>Linking a fresh, zeroed frame changes no lookup.\<close>

lemma link_look:
  assumes tree: "tree lst d K S mem root F" and f0: "f0 \<in> F" "d f0 < lst" "\<not> (f0 = root \<and> i0 \<in> S)"
    and ab: "absent (mem f0 i0) = Some True" and n: "n \<notin> F" "n \<notin> K" "fr_ok n"
    and mem': "mem' = pm_write (pm_zero mem n) f0 i0 (mk n)"
  shows "f \<in> F \<Longrightarrow> length idxs = Suc (lst - d f) \<Longrightarrow> look lst mem' (d f) f idxs = look lst mem (d f) f idxs"
proof (induction idxs arbitrary: f)
  case (Cons idx idxs)
  obtain a l where al: "absent (mem f idx) = Some a" "leaf (mem f idx) = Some l"
    using pt_treeD(5) [OF tree, of f idx] Cons.prems(1) by auto
  show ?case
  proof (cases "f = f0 \<and> idx = i0")
    case True
    then have e: "mem' f idx = mk n" by (simp add: mem' pm_write_def)
    obtain j js where js: "idxs = j # js" using Cons.prems(2) True f0(2) by (cases idxs) auto
    have z: "mem' n j = 0" using n(1) f0(1) by (auto simp: mem' pm_write_def pm_zero_def)
    have m: "absent (mem' f idx) = Some False" "leaf (mem' f idx) = Some False" "nxt (mem' f idx) = n"
      and lt: "d f \<noteq> lst"
      using mk_table [OF n(3)] True f0(2) unfolding e by auto
    have "look lst mem' (d f) f (idx # idxs) = look lst mem' (Suc (d f)) n idxs"
      using lt by (simp add: look_Cons [of mem' f idx, OF m(1,2)] m(3))
    moreover have "look lst mem' (Suc (d f)) n idxs = Some None"
      using look_Cons [of mem' n j True False] zero_absent by (simp add: js z)
    moreover have "look lst mem (d f) f (idx # idxs) = Some None"
    proof -
      have "a" using True ab al by simp
      then show ?thesis by (simp add: look_Cons [of mem f idx, OF al])
    qed
    ultimately show ?thesis by simp
  next
    case False
    then have same: "mem' f idx = mem f idx"
      using Cons.prems(1) n(1) by (auto simp: mem' pm_write_def pm_zero_def)
    have K: "look lst mem' i g js = look lst mem i g js" if "g \<in> K" for g i js
      by (rule look_shared [of K, OF _ pt_treeD(5) [OF tree] pt_treeD(8) [OF tree] that])
        (use pt_treeD(3) [OF tree] f0(1) n(2) in \<open>auto simp: mem' pm_write_def pm_zero_def\<close>)
    have "look lst mem' (Suc (d f)) (nxt (mem f idx)) idxs = look lst mem (Suc (d f)) (nxt (mem f idx)) idxs"
      if "\<not> a" "\<not> l" "d f \<noteq> lst"
    proof (cases "f = root \<and> idx \<in> S")
      case True
      then show ?thesis using K pt_treeD(7) [OF tree, of idx] al that by (simp add: is_table_def)
    next
      case False
      have lt: "d f < lst" using that(3) pt_treeD(4) [OF tree Cons.prems(1)] by simp
      from pt_treeD(6) [OF tree Cons.prems(1) lt False] al that
      have "nxt (mem f idx) \<in> F" "d (nxt (mem f idx)) = Suc (d f)" by auto
      then show ?thesis using Cons.IH [of "nxt (mem f idx)"] Cons.prems(2) lt by simp
    qed
    then show ?thesis
      by (simp add: look_Cons [of mem f idx, OF al] look_Cons [of mem' f idx a l] same al)
  qed
qed simp

lemma link_tree:
  assumes tree: "tree lst d K S mem root F" and f0: "f0 \<in> F" "d f0 < lst" "\<not> (f0 = root \<and> i0 \<in> S)"
    and ab: "absent (mem f0 i0) = Some True" and n: "n \<notin> F" "n \<notin> K" "fr_ok n"
    and mem': "mem' = pm_write (pm_zero mem n) f0 i0 (mk n)"
  shows "tree lst (d(n := Suc (d f0))) K S mem' root (insert n F)"
proof -
  note T = pt_treeD [OF tree]
  have m: "mem' n j = 0" "mem' f0 i0 = mk n" "f \<noteq> n \<Longrightarrow> \<not> (f = f0 \<and> i = i0) \<Longrightarrow> mem' f i = mem f i" for f i j
    using n(1) f0(1) by (auto simp: mem' pm_write_def pm_zero_def)
  have ne: "root \<noteq> n" "f0 \<noteq> n" using n(1) f0(1) T(1) by auto
  have old: "nxt (mem f i) \<noteq> n" if "f \<in> F" "d f < lst" "\<not> (f = root \<and> i \<in> S)" "absent (mem f i) = Some False" for f i
    using T(6) [OF that] n(1) by auto
  have entry: "(f = f0 \<and> i = i0 \<and> mem' f i = mk n) \<or> (f \<in> F \<and> f \<noteq> n \<and> mem' f i = mem f i)"
    if "f \<in> insert n F" "absent (mem' f i) = Some False" for f i
  proof -
    have "f \<noteq> n" using that(2) m(1) zero_absent by auto
    then show ?thesis using that(1) m(2) m(3) [of f i] by (cases "f = f0 \<and> i = i0") simp_all
  qed
  show ?thesis
    unfolding pt_tree_def
  proof (intro conjI ballI allI impI)
    fix f i assume f: "f \<in> insert n F \<union> K"
    then consider "f = n" | "f = f0" "i = i0" | "f \<in> F \<or> f \<in> K" "f \<noteq> n" "\<not> (f = f0 \<and> i = i0)"
      using n by blast
    then show "absent (mem' f i) \<noteq> None" "leaf (mem' f i) \<noteq> None"
      by (cases; use m mk_table [OF n(3)] zero_absent T(5) in auto)+
  next
    fix f i assume a: "f \<in> insert n F" "(d(n := Suc (d f0))) f < lst" "\<not> (f = root \<and> i \<in> S)" "absent (mem' f i) = Some False"
    from entry [OF a(1,4)] show "leaf (mem' f i) = Some False" "nxt (mem' f i) \<in> insert n F"
      "(d(n := Suc (d f0))) (nxt (mem' f i)) = Suc ((d(n := Suc (d f0))) f)"
      using mk_table [OF n(3)] a ne T(6) [of f i] old [of f i] by auto
  next
    fix f g i j
    assume a: "f \<in> insert n F" "g \<in> insert n F" "(d(n := Suc (d f0))) f < lst" "(d(n := Suc (d f0))) g < lst"
      "\<not> (f = root \<and> i \<in> S)" "\<not> (g = root \<and> j \<in> S)" "absent (mem' f i) = Some False"
      "absent (mem' g j) = Some False" "nxt (mem' f i) = nxt (mem' g j)"
    have df: "h \<in> F \<Longrightarrow> (d(n := Suc (d f0))) h = d h" for h using n(1) by auto
    have new: False if "h \<in> F" "h \<noteq> n" "mem' h k = mem h k" "(d(n := Suc (d f0))) h < lst"
      "\<not> (h = root \<and> k \<in> S)" "absent (mem' h k) = Some False" "nxt (mem' h k) = n" for h k
      using old [of h k] that by simp
    have nn: "nxt (mk n) = n" using mk_table [OF n(3)] by simp
    from entry [OF a(1,7)] entry [OF a(2,8)] have "f = g \<and> i = j"
    proof (elim disjE conjE)
      assume "f = f0" "i = i0" "g = f0" "j = i0"
      then show ?thesis by simp
    next
      assume x: "mem' f i = mk n" "g \<in> F" "g \<noteq> n" "mem' g j = mem g j"
      from new [OF x(2,3,4) a(4,6,8)] a(9) x(1) nn show ?thesis by simp
    next
      assume x: "mem' g j = mk n" "f \<in> F" "f \<noteq> n" "mem' f i = mem f i"
      from new [OF x(2,3,4) a(3,5,7)] a(9) x(1) nn show ?thesis by simp
    next
      assume x: "f \<in> F" "f \<noteq> n" "mem' f i = mem f i" "g \<in> F" "g \<noteq> n" "mem' g j = mem g j"
      show ?thesis
        by (rule T(9) [OF x(1,4)]) (use a x in simp_all)
    qed
    then show "f = g" "i = j" by simp_all
  next
    fix i assume i: "i \<in> S" "tab (mem' root i)"
    then have "mem' root i = mem root i" using m(3) [OF ne(1), of i] f0(3) by blast
    then show "nxt (mem' root i) \<in> K" using T(7) [OF i(1)] i(2) by simp
  next
    fix f i assume f: "f \<in> K" "tab (mem' f i)"
    have "f \<noteq> n" "f \<noteq> f0" using f(1) n(2) f0(1) T(3) by blast+
    then have "mem' f i = mem f i" using m(3) [of f i] by simp
    then show "nxt (mem' f i) \<in> K" using T(8) [OF f(1)] f(2) by simp
  next
    fix f assume "f \<in> insert n F"
    then show "(d(n := Suc (d f0))) f \<le> lst" using T(4) [of f] f0(2) by auto
  qed (use T(1-3) n(1,2) ne in simp_all)
qed

end

text \<open>Writing an entry of the last level changes exactly the lookups whose walk ends there.\<close>

context radix_table begin

lemma leaf_tree:
  assumes tree: "tree lst d K S mem root F" and f0: "f0 \<in> F" "d f0 = lst" "0 < lst"
    and e: "absent e \<noteq> None" "leaf e \<noteq> None"
  shows "tree lst d K S (pm_write mem f0 i0 e) root F"
proof -
  note T = pt_treeD [OF tree]
  let ?m = "pm_write mem f0 i0 e"
  have m: "f \<noteq> f0 \<Longrightarrow> ?m f i = mem f i" "?m f0 i \<in> {e, mem f0 i}" for f i by (auto simp: pm_write_def)
  have up: "f \<in> F \<Longrightarrow> d f < lst \<Longrightarrow> ?m f i = mem f i" "f \<in> K \<Longrightarrow> ?m f i = mem f i" "?m root i = mem root i" for f i
  proof -
    have "root \<noteq> f0" using f0(2,3) T(2) by auto
    then show "?m root i = mem root i" by (rule m(1))
  qed (use m(1) [of f i] f0(1,2) T(3) in auto)
  show ?thesis
    unfolding pt_tree_def
  proof (intro conjI ballI allI impI)
    fix f i assume "f \<in> F \<union> K"
    then show "absent (?m f i) \<noteq> None" "leaf (?m f i) \<noteq> None"
      using m(1) [of f i] m(2) [of i] e T(5) [of f i] by (cases "f = f0"; auto)+
  next
    fix f g i j
    assume a: "f \<in> F" "g \<in> F" "d f < lst" "d g < lst" "\<not> (f = root \<and> i \<in> S)" "\<not> (g = root \<and> j \<in> S)"
      "absent (?m f i) = Some False" "absent (?m g j) = Some False" "nxt (?m f i) = nxt (?m g j)"
    show "f = g" "i = j"
      using T(9) [OF a(1-6)] a(7-9) up(1) [OF a(1,3), of i] up(1) [OF a(2,4), of j] by simp_all
  next
    fix f i assume a: "f \<in> F" "d f < lst" "\<not> (f = root \<and> i \<in> S)" "absent (?m f i) = Some False"
    show "leaf (?m f i) = Some False" "nxt (?m f i) \<in> F" "d (nxt (?m f i)) = Suc (d f)"
      using T(6) [OF a(1-3)] a(4) up(1) [OF a(1,2), of i] by simp_all
  qed (use T(1-4,7,8) up(2,3) in simp_all)
qed

lemma leaf_look:
  assumes tree: "tree lst d K S mem root F" and f0: "f0 \<in> F" "d f0 = lst"
    and e: "absent e = Some a0" "leaf e = Some l0"
  shows "f \<in> F \<Longrightarrow> length idxs = Suc (lst - d f) \<Longrightarrow>
    look lst (pm_write mem f0 i0 e) (d f) f idxs =
      (if walk mem f idxs = Some (f0, i0) then Some (if a0 then None else Some (e, lst))
       else look lst mem (d f) f idxs)"
proof (induction idxs arbitrary: f)
  case (Cons idx idxs)
  let ?m = "pm_write mem f0 i0 e"
  note T = pt_treeD [OF tree]
  obtain a l where al: "absent (mem f idx) = Some a" "leaf (mem f idx) = Some l"
    using T(5) [of f idx] Cons.prems(1) by auto
  have K: "look lst ?m i g js = look lst mem i g js" if "g \<in> K" for g i js
    by (rule look_shared [of K, OF _ T(5) T(8) that])
      (use T(3) f0(1) in \<open>auto simp: pm_write_def\<close>)
  show ?case
  proof (cases "d f = lst")
    case True
    then have [simp]: "idxs = []" using Cons.prems(2) by simp
    show ?thesis
    proof (cases "f = f0 \<and> idx = i0")
      case True
      then have "?m f idx = e" by (simp add: pm_write_def)
      then show ?thesis using True f0(2) look_Cons [of ?m f idx a0 l0] e by simp
    next
      case False
      then have "?m f idx = mem f idx" by (auto simp: pm_write_def)
      then show ?thesis using False look_Cons [of ?m f idx a l] look_Cons [of mem f idx, OF al] al True by auto
    qed
  next
    case False
    then have lt: "d f < lst" using T(4) [OF Cons.prems(1)] by simp
    then have ne: "f \<noteq> f0" using f0(2) by auto
    then have same: "?m f idx = mem f idx" by (simp add: pm_write_def)
    obtain j js where js: "idxs = j # js" using Cons.prems(2) lt by (cases idxs) auto
    show ?thesis
    proof (cases "a \<or> l")
      case True
      then show ?thesis
        using same al js by (auto simp: look_Cons [of mem f idx, OF al] look_Cons [of ?m f idx a l] is_table_def)
    next
      case False
      have tb: "tab (mem f idx)" using al False by (simp add: is_table_def)
      have st: "look lst ?m (d f) f (idx # idxs) = look lst ?m (Suc (d f)) (nxt (mem f idx)) idxs"
        "look lst mem (d f) f (idx # idxs) = look lst mem (Suc (d f)) (nxt (mem f idx)) idxs"
        "walk mem f (idx # idxs) = walk mem (nxt (mem f idx)) idxs"
        using False lt tb by (simp_all add: look_Cons [of mem f idx, OF al] look_Cons [of ?m f idx a l] same al js)
      show ?thesis
      proof (cases "f = root \<and> idx \<in> S")
        case True
        then have k: "nxt (mem f idx) \<in> K" using T(7) [of idx] tb by simp
        have "walk mem (nxt (mem f idx)) idxs \<noteq> Some (f0, i0)"
          using walk_shared [of K mem "nxt (mem f idx)" idxs f0 i0] T(8) k T(3) f0(1) by auto
        then show ?thesis using st K [OF k] by simp
      next
        case False
        have "nxt (mem f idx) \<in> F" "d (nxt (mem f idx)) = Suc (d f)"
          using T(6) [OF Cons.prems(1) lt False] al tb by (auto simp: is_table_def)
        then show ?thesis using Cons.IH [of "nxt (mem f idx)"] Cons.prems(2) lt st by simp
      qed
    qed
  qed
qed simp

end

section \<open>Creating the path to an entry\<close>

text \<open>A page table in use: its tree, and an allocator whose free frames are not part of it.\<close>

definition pt_ok ::
  "(usize \<Rightarrow> bool option) \<Rightarrow> (usize \<Rightarrow> bool option) \<Rightarrow> (usize \<Rightarrow> phys_page_num) \<Rightarrow> (phys_page_num \<Rightarrow> bool) \<Rightarrow>
   nat \<Rightarrow> (phys_page_num \<Rightarrow> nat) \<Rightarrow> phys_page_num set \<Rightarrow> nat set \<Rightarrow> ('al \<Rightarrow> phys_page_num set) \<Rightarrow> 'al pt_state \<Rightarrow> bool" where
  "pt_ok absent leaf nxt fr_ok lst d K S av s \<longleftrightarrow>
     pt_tree absent leaf nxt lst d K S (pt_mem s) (pt_root s) (set (pt_frames s)) \<and>
     av (pt_al s) \<inter> (set (pt_frames s) \<union> K) = {} \<and> (\<forall>n \<in> av (pt_al s). fr_ok n)"

context radix_table begin

abbreviation ok where "ok \<equiv> pt_ok absent leaf nxt fr_ok"

text \<open>What a step of \<^verbatim>\<open>find_pte_create\<close> keeps: the invariant, the depths and every lookup.\<close>

definition keeps where
  "keeps lst d d' K S av s s' \<longleftrightarrow> ok lst d' K S av s' \<and> pt_root s' = pt_root s \<and>
     set (pt_frames s) \<subseteq> set (pt_frames s') \<and> (\<forall>f \<in> set (pt_frames s). d' f = d f) \<and>
     (\<forall>f \<in> set (pt_frames s). \<forall>i. absent (pt_mem s f i) = Some False \<longrightarrow> pt_mem s' f i = pt_mem s f i) \<and>
     (\<forall>f \<in> set (pt_frames s). \<forall>js. length js = Suc (lst - d f) \<longrightarrow>
        look lst (pt_mem s') (d f) f js = look lst (pt_mem s) (d f) f js)"

lemma keeps_refl: "ok lst d K S av s \<Longrightarrow> keeps lst d d K S av s s"
  by (simp add: keeps_def)

lemma keeps_trans:
  assumes "keeps lst d d' K S av s s'" "keeps lst d' d'' K S av s' s''"
  shows "keeps lst d d'' K S av s s''"
proof -
  have "look lst (pt_mem s'') (d f) f js = look lst (pt_mem s) (d f) f js"
    if f: "f \<in> set (pt_frames s)" and "length js = Suc (lst - d f)" for f js
  proof -
    have "d' f = d f" "f \<in> set (pt_frames s')" using assms(1) f by (auto simp: keeps_def)
    then show ?thesis using assms that unfolding keeps_def by metis
  qed
  moreover have "d'' f = d f" if "f \<in> set (pt_frames s)" for f
  proof -
    have "d' f = d f" "f \<in> set (pt_frames s')" using assms(1) that by (auto simp: keeps_def)
    then show ?thesis using assms(2) by (simp add: keeps_def)
  qed
  moreover have "pt_mem s'' f i = pt_mem s f i" if "f \<in> set (pt_frames s)" "absent (pt_mem s f i) = Some False" for f i
  proof -
    have "pt_mem s' f i = pt_mem s f i" "f \<in> set (pt_frames s')" using assms(1) that by (auto simp: keeps_def)
    then show ?thesis using assms(2) that(2) by (simp add: keeps_def)
  qed
  ultimately show ?thesis using assms by (auto simp: keeps_def)
qed

lemma create_link:
  assumes ok: "ok lst d K S av s" and law: "alloc_law alloc av" and f: "f \<in> set (pt_frames s)" "d f < lst"
    and own: "\<not> (f = pt_root s \<and> idx \<in> S)" and ab: "absent (pt_mem s f idx) = Some True"
    and al: "alloc (pt_al s) = Some (n, al')"
    and s': "s' = s\<lparr>pt_mem := pm_write (pm_zero (pt_mem s) n) f idx (mk n),
                   pt_frames := pt_frames s @ [n], pt_al := al'\<rparr>"
  shows "keeps lst d (d(n := Suc (d f))) K S av s s'" and "pt_mem s' f idx = mk n" and "fr_ok n"
    and "av al' = av (pt_al s) - {n}" and "n \<in> av (pt_al s)"
proof -
  from law al have av: "n \<in> av (pt_al s)" "av al' = av (pt_al s) - {n}" by (auto simp: alloc_law_def)
  then show "av al' = av (pt_al s) - {n}" "n \<in> av (pt_al s)" by simp_all
  from ok have tree: "tree lst d K S (pt_mem s) (pt_root s) (set (pt_frames s))"
    and n: "n \<notin> set (pt_frames s)" "n \<notin> K" "fr_ok n" using av(1) by (auto simp: pt_ok_def)
  show "fr_ok n" by (rule n(3))
  show "pt_mem s' f idx = mk n" by (simp add: s' pm_write_def)
  note t = link_tree [OF tree f own ab n refl]
  have "set (pt_frames s @ [n]) = insert n (set (pt_frames s))" by simp
  then have "ok lst (d(n := Suc (d f))) K S av s'"
    using ok t av by (auto simp: pt_ok_def s')
  moreover have "look lst (pt_mem s') (d g) g js = look lst (pt_mem s) (d g) g js"
    if "g \<in> set (pt_frames s)" "length js = Suc (lst - d g)" for g js
    using link_look [OF tree f own ab n refl that] by (simp add: s')
  ultimately show "keeps lst d (d(n := Suc (d f))) K S av s s'"
    using n(1) ab by (auto simp: keeps_def s' pm_write_def pm_zero_def)
qed

lemma create_next:
  assumes "ok lst d K S av s" "f \<in> set (pt_frames s)" "d f < lst" "\<not> (f = pt_root s \<and> idx \<in> S)"
    and "absent (pt_mem s f idx) = Some False"
  shows "nxt (pt_mem s f idx) \<in> set (pt_frames s) \<and> d (nxt (pt_mem s f idx)) = Suc (d f) \<and>
    nxt (pt_mem s f idx) \<noteq> pt_root s \<and> tab (pt_mem s f idx)"
proof -
  have tree: "tree lst d K S (pt_mem s) (pt_root s) (set (pt_frames s))" using assms(1) by (simp add: pt_ok_def)
  have "d (pt_root s) = 0" by (rule pt_treeD(2) [OF tree])
  then show ?thesis using pt_treeD(6) [OF tree assms(2-5)] assms(5) by (auto simp: is_table_def)
qed

lemma create_spec:
  assumes law: "alloc_law alloc av" and at: "\<And>i. i \<le> lst \<Longrightarrow> at_level i = Some (i = lst)"
  shows "ok lst d K S av s \<Longrightarrow> f \<in> set (pt_frames s) \<Longrightarrow> length idxs = Suc (lst - d f) \<Longrightarrow>
    \<not> (f = pt_root s \<and> hd idxs \<in> S) \<Longrightarrow> lst - d f \<le> card (av (pt_al s)) \<Longrightarrow>
    \<exists>c s' d'. pt_create absent mk nxt at_level alloc (d f) f idxs s = Some (Some c, s') \<and>
      keeps lst d d' K S av s s' \<and> walk (pt_mem s') f idxs = Some c \<and>
      fst c \<in> set (pt_frames s') \<and> d' (fst c) = lst"
proof (induction idxs arbitrary: f s d)
  case (Cons idx idxs)
  let ?F = "set (pt_frames s)"
  have tree: "tree lst d K S (pt_mem s) (pt_root s) ?F" using Cons.prems(1) by (simp add: pt_ok_def)
  note T = pt_treeD [OF tree]
  have le: "d f \<le> lst" by (rule T(4) [OF Cons.prems(2)])
  show ?case
  proof (cases "d f = lst")
    case True
    then have "idxs = []" using Cons.prems(3) by simp
    then show ?thesis
      using True at [of lst] keeps_refl [OF Cons.prems(1)] Cons.prems(2)
      by (intro exI [of _ "(f, idx)"] exI [of _ s] exI [of _ d]) simp
  next
    case False
    then have lt: "d f < lst" using le by simp
    then obtain j js where js: "idxs = j # js" using Cons.prems(3) by (cases idxs) auto
    have own: "\<not> (f = pt_root s \<and> idx \<in> S)" using Cons.prems(4) by simp
    have "\<exists>s1 d1. keeps lst d d1 K S av s s1 \<and> absent (pt_mem s1 f idx) = Some False \<and>
        lst - Suc (d f) \<le> card (av (pt_al s1)) \<and>
        pt_create absent mk nxt at_level alloc (d f) f (idx # idxs) s =
          pt_create absent mk nxt at_level alloc (Suc (d f)) (nxt (pt_mem s1 f idx)) idxs s1"
    proof (cases "absent (pt_mem s f idx) = Some False")
      case True
      then show ?thesis
        using keeps_refl [OF Cons.prems(1)] Cons.prems(5) lt at [OF le] by (intro exI [of _ s] exI [of _ d]) simp
    next
      case False
      then have ab: "absent (pt_mem s f idx) = Some True" using T(5) [of f idx] Cons.prems(2) by auto
      have "av (pt_al s) \<noteq> {}" using Cons.prems(5) lt by auto
      then obtain n al' where al: "alloc (pt_al s) = Some (n, al')"
        using law by (cases "alloc (pt_al s)") (auto simp: alloc_law_def)
      let ?s = "s\<lparr>pt_mem := pm_write (pm_zero (pt_mem s) n) f idx (mk n), pt_frames := pt_frames s @ [n], pt_al := al'\<rparr>"
      note L = create_link [OF Cons.prems(1) law Cons.prems(2) lt own ab al refl]
      have "finite (av (pt_al s))" using law by (simp add: alloc_law_def)
      then have "lst - Suc (d f) \<le> card (av al')" using L(4,5) Cons.prems(5) by simp
      then show ?thesis
        using L(1,2) mk_table [OF L(3)] lt at [OF le] ab al
        by (intro exI [of _ ?s] exI [of _ "d(n := Suc (d f))"]) simp
    qed
    then obtain s1 d1 where s1: "keeps lst d d1 K S av s s1" "absent (pt_mem s1 f idx) = Some False"
      "lst - Suc (d f) \<le> card (av (pt_al s1))"
      "pt_create absent mk nxt at_level alloc (d f) f (idx # idxs) s =
         pt_create absent mk nxt at_level alloc (Suc (d f)) (nxt (pt_mem s1 f idx)) idxs s1" by blast
    from s1(1) Cons.prems(2) have f1: "f \<in> set (pt_frames s1)" "d1 f = d f" and ok1: "ok lst d1 K S av s1"
      and r1: "pt_root s1 = pt_root s" by (auto simp: keeps_def)
    from create_next [OF ok1 f1(1)] f1(2) lt own r1 s1(2)
    have g: "nxt (pt_mem s1 f idx) \<in> set (pt_frames s1)" "d1 (nxt (pt_mem s1 f idx)) = Suc (d f)"
      "nxt (pt_mem s1 f idx) \<noteq> pt_root s1" "tab (pt_mem s1 f idx)" by auto
    have len: "length idxs = Suc (lst - d1 (nxt (pt_mem s1 f idx)))" using Cons.prems(3) g(2) lt by simp
    have nr: "\<not> (nxt (pt_mem s1 f idx) = pt_root s1 \<and> hd idxs \<in> S)" using g(3) by simp
    have cd: "lst - d1 (nxt (pt_mem s1 f idx)) \<le> card (av (pt_al s1))" using s1(3) g(2) by simp
    from Cons.IH [OF ok1 g(1) len nr cd] obtain c s' d' where
      IH: "pt_create absent mk nxt at_level alloc (d1 (nxt (pt_mem s1 f idx))) (nxt (pt_mem s1 f idx)) idxs s1 = Some (Some c, s')"
        "keeps lst d1 d' K S av s1 s'" "walk (pt_mem s') (nxt (pt_mem s1 f idx)) idxs = Some c"
        "fst c \<in> set (pt_frames s')" "d' (fst c) = lst" by blast
    have "pt_mem s' f idx = pt_mem s1 f idx" using IH(2) f1(1) s1(2) by (simp add: keeps_def)
    then have "walk (pt_mem s') f (idx # idxs) = Some c" using IH(3) g(4) js by simp
    then show ?thesis using IH(1,4,5) s1(4) g(2) keeps_trans [OF s1(1) IH(2)] by auto
  qed
qed simp

end

section \<open>Mapping and unmapping\<close>

context radix_table begin

lemma find_walk:
  assumes tree: "tree lst d K S mem root F"
  shows "f \<in> F \<Longrightarrow> length idxs = Suc (lst - d f) \<Longrightarrow> \<not> (f = root \<and> hd idxs \<in> S) \<Longrightarrow>
    pt_find absent leaf nxt lst mem (d f) f idxs = Some None \<or>
    (\<exists>g i. pt_find absent leaf nxt lst mem (d f) f idxs = Some (Some (g, i, lst)) \<and>
       walk mem f idxs = Some (g, i) \<and> g \<in> F \<and> d g = lst \<and> absent (mem g i) = Some False)"
proof (induction idxs arbitrary: f)
  case (Cons idx idxs)
  note T = pt_treeD [OF tree]
  obtain a l where al: "absent (mem f idx) = Some a" "leaf (mem f idx) = Some l"
    using T(5) [of f idx] Cons.prems(1) by auto
  have le: "d f \<le> lst" by (rule T(4) [OF Cons.prems(1)])
  consider "a" | "\<not> a" "d f = lst" | "\<not> a" "d f < lst" using le by linarith
  then show ?case
  proof cases
    case 2
    then have "idxs = []" using Cons.prems(2) by simp
    then show ?thesis using 2 al Cons.prems(1) by simp
  next
    case 3
    have own: "\<not> (f = root \<and> idx \<in> S)" using Cons.prems(3) by simp
    have n: "leaf (mem f idx) = Some False" "nxt (mem f idx) \<in> F" "d (nxt (mem f idx)) = Suc (d f)"
      using T(6) [OF Cons.prems(1) 3(2) own] al 3(1) by auto
    obtain j js where js: "idxs = j # js" using Cons.prems(2) 3(2) by (cases idxs) auto
    have nr: "\<not> (nxt (mem f idx) = root \<and> hd idxs \<in> S)" using n(3) T(2) by auto
    have "tab (mem f idx)" using al n(1) 3(1) by (simp add: is_table_def)
    then show ?thesis
      using Cons.IH [OF n(2) _ nr] Cons.prems(2) 3 al n by (simp add: js)
  qed (simp add: al)
qed simp

lemma leaf_write:
  assumes ok: "ok lst d K S av s" and lst: "0 < lst" and g: "g \<in> set (pt_frames s)" "d g = lst"
    and len: "length idxs = Suc lst" and w: "walk (pt_mem s) (pt_root s) idxs = Some (g, i)"
    and e: "absent e = Some a0" "leaf e = Some l0"
    and s': "s' = s\<lparr>pt_mem := pm_write (pt_mem s) g i e\<rparr>"
  shows "ok lst d K S av s'" and "length js = Suc lst \<Longrightarrow> look lst (pt_mem s') 0 (pt_root s) js =
    (if js = idxs then Some (if a0 then None else Some (e, lst)) else look lst (pt_mem s) 0 (pt_root s) js)"
proof -
  have tree: "tree lst d K S (pt_mem s) (pt_root s) (set (pt_frames s))" using ok by (simp add: pt_ok_def)
  note T = pt_treeD [OF tree]
  show "ok lst d K S av s'"
    using ok leaf_tree [OF tree g lst, of e i] e by (simp add: pt_ok_def s')
  assume js: "length js = Suc lst"
  have "walk (pt_mem s) (pt_root s) js = Some (g, i) \<longleftrightarrow> js = idxs"
    using walk_inj [OF tree T(1) T(1), of js idxs "(g, i)"] js len w g(1) T(2) by auto
  then show "look lst (pt_mem s') 0 (pt_root s) js =
    (if js = idxs then Some (if a0 then None else Some (e, lst)) else look lst (pt_mem s) 0 (pt_root s) js)"
    using leaf_look [OF tree g e T(1), of js i] js T(2) by (simp add: s')
qed

lemma map_spec:
  assumes law: "alloc_law alloc av" and at: "\<And>i. i \<le> lst \<Longrightarrow> at_level i = Some (i = lst)"
    and ok: "ok lst d K S av s" and lst: "0 < lst" and len: "length idxs = Suc lst"
    and own: "hd idxs \<notin> S" and av: "lst \<le> card (av (pt_al s))"
    and e: "absent e = Some False" "leaf e = Some l"
  shows "\<exists>g i s' d'. pt_create absent mk nxt at_level alloc 0 (pt_root s) idxs s = Some (Some (g, i), s') \<and>
    pt_root s' = pt_root s \<and> ok lst d' K S av (s'\<lparr>pt_mem := pm_write (pt_mem s') g i e\<rparr>) \<and>
    (\<forall>js. length js = Suc lst \<longrightarrow> look lst (pm_write (pt_mem s') g i e) 0 (pt_root s) js =
      (if js = idxs then Some (Some (e, lst)) else look lst (pt_mem s) 0 (pt_root s) js))"
proof -
  have tree: "tree lst d K S (pt_mem s) (pt_root s) (set (pt_frames s))" using ok by (simp add: pt_ok_def)
  note T = pt_treeD [OF tree]
  from create_spec [where lst = lst and d = d and f = "pt_root s" and at_level = at_level and idxs = idxs, OF law at ok T(1)]
    T(2) len own av obtain g i s' d' where
    c: "pt_create absent mk nxt at_level alloc 0 (pt_root s) idxs s = Some (Some (g, i), s')"
      "keeps lst d d' K S av s s'" "walk (pt_mem s') (pt_root s) idxs = Some (g, i)"
      "g \<in> set (pt_frames s')" "d' g = lst" by auto
  have k: "ok lst d' K S av s'" "pt_root s' = pt_root s" using c(2) by (simp_all add: keeps_def)
  have old: "look lst (pt_mem s') 0 (pt_root s) js = look lst (pt_mem s) 0 (pt_root s) js" if "length js = Suc lst" for js
  proof -
    have "\<forall>f \<in> set (pt_frames s). \<forall>js. length js = Suc (lst - d f) \<longrightarrow>
        look lst (pt_mem s') (d f) f js = look lst (pt_mem s) (d f) f js" using c(2) by (simp add: keeps_def)
    from bspec [OF this T(1)] have "look lst (pt_mem s') (d (pt_root s)) (pt_root s) js = look lst (pt_mem s) (d (pt_root s)) (pt_root s) js"
      using that T(2) by simp
    then show ?thesis by (simp only: T(2))
  qed
  from k(2) c(3) have w: "walk (pt_mem s') (pt_root s') idxs = Some (g, i)" by simp
  note W = leaf_write [OF k(1) lst c(4,5) len w e refl]
  show ?thesis
    using c(1) k(2) W old by (intro exI [of _ g] exI [of _ i] exI [of _ s'] exI [of _ d']) auto
qed

lemma unmap_spec:
  assumes ok: "ok lst d K S av s" and lst: "0 < lst" and len: "length idxs = Suc lst" and own: "hd idxs \<notin> S"
  shows "pt_find absent leaf nxt lst (pt_mem s) 0 (pt_root s) idxs = Some None \<or>
    (\<exists>g i. pt_find absent leaf nxt lst (pt_mem s) 0 (pt_root s) idxs = Some (Some (g, i, lst)) \<and>
      ok lst d K S av (s\<lparr>pt_mem := pm_write (pt_mem s) g i 0\<rparr>) \<and>
      (\<forall>js. length js = Suc lst \<longrightarrow> look lst (pm_write (pt_mem s) g i 0) 0 (pt_root s) js =
        (if js = idxs then Some None else look lst (pt_mem s) 0 (pt_root s) js)))"
proof -
  have tree: "tree lst d K S (pt_mem s) (pt_root s) (set (pt_frames s))" using ok by (simp add: pt_ok_def)
  note T = pt_treeD [OF tree]
  have "length idxs = Suc (lst - d (pt_root s))" "\<not> (pt_root s = pt_root s \<and> hd idxs \<in> S)"
    using len own T(2) by simp_all
  from find_walk [OF tree T(1) this] show ?thesis
  proof (elim disjE exE conjE)
    fix g i
    assume g: "pt_find absent leaf nxt lst (pt_mem s) (d (pt_root s)) (pt_root s) idxs = Some (Some (g, i, lst))"
      "walk (pt_mem s) (pt_root s) idxs = Some (g, i)" "g \<in> set (pt_frames s)" "d g = lst"
    show ?thesis
      using g(1) T(2) leaf_write [OF ok lst g(3,4) len g(2) zero_absent refl] by auto
  qed (simp add: T(2))
qed

end

abbreviation rv_ok where "rv_ok \<equiv> pt_ok rv_absent rv_is_leaf rv_ppn rv_ppn_ok 2"

definition la_fr_ok :: "phys_page_num \<Rightarrow> bool" where
  "la_fr_ok n \<longleftrightarrow> n \<noteq> 0 \<and> la_ppn_ok n"

abbreviation la_ok where "la_ok \<equiv> pt_ok la_absent (\<lambda>_. Some False) la_ppn la_fr_ok 3"

lemma rv_valid_entry:
  assumes "rv_ppn_ok n"
  shows "rv_absent (rv_set_valid True (rv_new n f)) = Some False"
    and "rv_is_valid (rv_set_valid True (rv_new n f)) = Some True"
    and "rv_is_leaf (rv_set_valid True (rv_new n f)) = Some (perm_r f \<or> perm_w f \<or> perm_x f)"
    and "rv_ppn (rv_set_valid True (rv_new n f)) = n"
  using rv_viewD [OF rv.view_set_valid [OF rv.view_new [OF assms, of f], of True]] by (simp_all add: rv_absent_def)

lemma rv_zero: "rv_is_valid 0 = Some False" "rv_is_leaf 0 = Some False"
  using rv_viewD [of 0] by (simp_all add: rv_view_eq)

interpretation rvt: radix_table rv_absent rv_is_leaf rv_ppn rv_mk_table rv_ppn_ok
  by unfold_locales (simp_all add: rv_zero rv_absent_def [of 0] rv_mk_table_def rv_valid_entry perm_empty_def)

interpretation lat: radix_table la_absent "\<lambda>_. Some False" la_ppn la_mk_table la_fr_ok
proof
  fix n assume n: "la_fr_ok n"
  have "la_ppn (la_mk_table n) = n"
    using n by (intro la_ppn_of_bits) (auto simp: la_mk_table_def la_fr_ok_def bit_push_bit_iff PAGE_SIZE_BITS_def)
  moreover from this n have "la_mk_table n \<noteq> 0" by (auto simp: la_fr_ok_def la_ppn_def)
  ultimately show "la_absent (la_mk_table n) = Some False \<and> Some False = Some False \<and> la_ppn (la_mk_table n) = n"
    by (simp add: la_absent_def)
qed (simp_all add: la_absent_def)

lemma rv_translate_look:
  "rv_translate_vpn v s = do {
     r \<leftarrow> pt_look rv_absent rv_is_leaf rv_ppn 2 (pt_mem s) 0 (pt_root s) (vpn_indexes Riscv64 v);
     (case r of None \<Rightarrow> Some None
      | Some (e, l) \<Rightarrow> do {
          ok \<leftarrow> rv_is_valid e;
          if \<not> ok then Some None
          else do { level \<leftarrow> rv_level_from l; Some (Some (rv_ppn e + v mod rv_page_count level)) } }) }"
  by (cases "rv_find_pte v s")
    (auto simp: rv_translate_vpn_def pt_look_def rv_find_pte_def Let_def split: option.splits)

lemma la_translate_look:
  "la_translate_vpn v s = do {
     r \<leftarrow> pt_look la_absent (\<lambda>_. Some False) la_ppn 3 (pt_mem s) 0 (pt_root s) (vpn_indexes Loongarch64 v);
     (case r of None \<Rightarrow> Some None
      | Some (e, l) \<Rightarrow> do {
          ok \<leftarrow> la_is_valid e;
          if \<not> ok then Some None
          else do { level \<leftarrow> la_level_from l; Some (Some (la_ppn e + v mod la_page_count level)) } }) }"
  by (cases "la_find_pte v s")
    (auto simp: la_translate_vpn_def pt_look_def la_find_pte_def Let_def split: option.splits)

lemma la_valid_entry:
  fixes f :: map_perm
  assumes "la_ppn_ok n"
  defines "e \<equiv> la_set_valid True (la_new n f) OR LA_MAT_L"
  shows "la_absent e = Some False" and "la_is_valid e = Some True" and "la_ppn e = n"
proof -
  have v: "la_view (la_set_valid True (la_new n f)) =
      Some \<lparr>v_ppn = n, v_perm = f, v_valid = True, v_cow = False, v_dirty = False\<rparr>"
    using la.view_set_valid [OF la.view_new [OF assms(1), of f], of True] by simp
  have same: "la_ppn e = la_ppn (la_set_valid True (la_new n f))"
    unfolding e_def by (rule la_ppn_eqI) (simp add: bit_or_iff pte_simps)
  then show "la_ppn e = n" using la_viewD [OF v] by simp
  have b: "bit e 0 \<and> \<not> bit e 10 \<and> \<not> bit e 11"
    using v unfolding e_def la_view_eq by (simp add: bit_or_iff pte_simps split: if_splits)
  then show "la_is_valid e = Some True"
    by (simp add: la_is_valid_def la_pteflags_eq has_la_flag bit_and_iff bit_masks)
  show "la_absent e = Some False" using b by (auto simp: la_absent_def)
qed

text \<open>A table just made has no entry at all.\<close>

lemma zero_look: "rv_absent 0 = Some True" "la_absent 0 = Some True"
  by (simp_all add: rv_absent_def rv_zero la_absent_def)

lemma pt_new_ok:
  assumes law: "alloc_law alloc av" and fr: "\<forall>n \<in> av al. fr_ok n" and z: "absent 0 = Some True" "leaf 0 = Some False"
    and new: "pt_new_in alloc mem al = Some s"
  shows "pt_ok absent leaf nxt fr_ok lst (\<lambda>_. 0) {} {} av s"
proof -
  from new obtain n al' where n: "alloc al = Some (n, al')"
    and s: "s = \<lparr>pt_root = n, pt_frames = [n], pt_mem = pm_zero mem n, pt_al = al'\<rparr>"
    by (auto simp: pt_new_in_def bind_eq_Some_conv)
  from law n have "n \<in> av al" "av al' = av al - {n}" by (auto simp: alloc_law_def)
  then show ?thesis using fr z by (auto simp: s pt_ok_def pt_tree_def pm_zero_def)
qed

text \<open>An allocator that hands out the frames below a bound in order.\<close>

definition bump_alloc :: "usize \<Rightarrow> usize frame_alloc" where
  "bump_alloc lim n = (if n < lim then Some (n, n + 1) else None)"

definition bump_av :: "usize \<Rightarrow> usize \<Rightarrow> usize set" where
  "bump_av lim n = {k. n \<le> k \<and> k < lim}"

lemma bump_law: "alloc_law (bump_alloc lim) (bump_av lim)"
proof -
  have "n + 1 \<le> k \<longleftrightarrow> n < k" if "n < lim" for n k :: usize
    using that by unat_arith
  then show ?thesis by (auto simp: alloc_law_def bump_alloc_def bump_av_def)
qed

lemma bump_card:
  assumes "unat n + m \<le> unat lim"
  shows "m \<le> card (bump_av lim n)"
proof -
  let ?f = "\<lambda>i. n + of_nat i :: usize"
  have u: "unat (?f i) = unat n + i" if "i < m" for i
  proof -
    have lt: "unat n + i < 2 ^ LENGTH(64)" using that assms unsigned_less [of lim, where 'a = nat] by linarith
    then have "unat (of_nat i :: usize) = i" by (simp add: unat_of_nat take_bit_nat_eq_self)
    then show ?thesis using lt by (simp add: unat_word_ariths)
  qed
  have "inj_on ?f {..<m}" by (rule inj_onI) (metis add_left_cancel lessThan_iff u)
  moreover have "?f ` {..<m} \<subseteq> bump_av lim n"
    using u assms by (auto simp: bump_av_def word_le_nat_alt word_less_nat_alt)
  ultimately show ?thesis using card_mono [of "bump_av lim n" "?f ` {..<m}"] by (simp add: card_image)
qed

section \<open>Correctness of the page tables\<close>

text \<open>
  C9. Page tables of the RISC-V target implement a partial map from page numbers to frames.
  In a well-formed table, with two frames left in the allocator, mapping a page of the part
  that is not shared with the kernel returns, keeps the table well-formed, makes the page
  translate to its frame and leaves the translation of every other page as it was, kernel
  pages included; unmapping the page afterwards succeeds and makes exactly this page
  untranslatable again.
\<close>

theorem rv_map_unmap_correct:
  assumes ok: "rv_ok d K S av s" and law: "alloc_law alloc av" and av: "2 \<le> card (av (pt_al s))"
    and vpn: "unat vpn < 2 ^ VPN_WIDTH Riscv64" "hd (vpn_indexes Riscv64 vpn) \<notin> S" and ppn: "rv_ppn_ok ppn"
  shows "\<exists>c s1 d1 e s2.
    rv_map alloc vpn ppn perm RvSmall s = Some (Inr c, s1) \<and> rv_ok d1 K S av s1 \<and>
    rv_unmap vpn s1 = Some (Inr e, s2) \<and> rv_ok d1 K S av s2 \<and>
    (\<forall>v. unat v < 2 ^ VPN_WIDTH Riscv64 \<longrightarrow>
      rv_translate_vpn v s1 = (if v = vpn then Some (Some ppn) else rv_translate_vpn v s) \<and>
      rv_translate_vpn v s2 = (if v = vpn then Some None else rv_translate_vpn v s))"
proof -
  let ?ix = "vpn_indexes Riscv64" and ?e = "rv_set_valid True (rv_new ppn perm)"
  have len: "length (?ix v) = Suc 2" for v by (simp add: vpn_indexes_facts PG_LEVEL_def)
  have at: "map_option (\<lambda>l. l = RvSmall) (rv_level_from i) = Some (i = 2)" if "i \<le> 2" for i
    using that by (auto simp: rv_level_from_def)
  from rvt.map_spec [OF law at ok _ len vpn(2) av rv_valid_entry(1,3) [OF ppn, of perm]]
  obtain g i s' d' where m: "rv_find_pte_create alloc vpn RvSmall s = Some (Some (g, i), s')"
    "pt_root s' = pt_root s" "rv_ok d' K S av (s'\<lparr>pt_mem := pm_write (pt_mem s') g i ?e\<rparr>)"
    "length js = Suc 2 \<Longrightarrow> rvt.look 2 (pm_write (pt_mem s') g i ?e) 0 (pt_root s) js =
      (if js = ?ix vpn then Some (Some (?e, 2)) else rvt.look 2 (pt_mem s) 0 (pt_root s) js)" for js
    by (auto simp: rv_find_pte_create_def)
  define s1 where "s1 = s'\<lparr>pt_mem := pm_write (pt_mem s') g i ?e\<rparr>"
  have m1: "rv_map alloc vpn ppn perm RvSmall s = Some (Inr (g, i), s1)" "pt_root s1 = pt_root s" "rv_ok d' K S av s1"
    using m(1-3) by (simp_all add: rv_map_def s1_def)
  have l1: "rvt.look 2 (pt_mem s1) 0 (pt_root s) (?ix v) =
      (if v = vpn then Some (Some (?e, 2)) else rvt.look 2 (pt_mem s) 0 (pt_root s) (?ix v))"
    if "unat v < 2 ^ VPN_WIDTH Riscv64" for v
    using m(4) [OF len, of v] vpn_indexes_inj [OF that vpn(1)] by (auto simp: s1_def)
  have "rv_find_pte vpn s1 \<noteq> Some None"
    using l1 [OF vpn(1)] m1(2) by (auto simp: rv_find_pte_def pt_look_def)
  with rvt.unmap_spec [OF m1(3) _ len vpn(2)] obtain g2 i2 where
    u: "rv_find_pte vpn s1 = Some (Some (g2, i2, 2))" "rv_ok d' K S av (s1\<lparr>pt_mem := pm_write (pt_mem s1) g2 i2 0\<rparr>)"
    "length js = Suc 2 \<Longrightarrow> rvt.look 2 (pm_write (pt_mem s1) g2 i2 0) 0 (pt_root s1) js =
      (if js = ?ix vpn then Some None else rvt.look 2 (pt_mem s1) 0 (pt_root s1) js)" for js
    by (auto simp: rv_find_pte_def)
  let ?s2 = "s1\<lparr>pt_mem := pm_write (pt_mem s1) g2 i2 0\<rparr>"
  have "rv_unmap vpn s1 = Some (Inr (pt_mem s1 g2 i2), ?s2)" by (simp add: rv_unmap_def u(1))
  moreover have "rv_translate_vpn v s1 = (if v = vpn then Some (Some ppn) else rv_translate_vpn v s)"
    if "unat v < 2 ^ VPN_WIDTH Riscv64" for v
    using l1 [OF that] m1(2) rv_valid_entry [OF ppn, of perm] by (simp add: rv_translate_look rv_level_from_def)
  moreover have "rv_translate_vpn v ?s2 = (if v = vpn then Some None else rv_translate_vpn v s)"
    if "unat v < 2 ^ VPN_WIDTH Riscv64" for v
    using u(3) [OF len, of v] l1 [OF that] m1(2) vpn_indexes_inj [OF that vpn(1)] by (auto simp: rv_translate_look)
  ultimately show ?thesis using m1(1,3) u(2) by blast
qed

theorem rv_map_unmap_correct_witness:
  "\<exists>s c s1 e s2. pt_new_in (bump_alloc 0x80010) (\<lambda>_ _. 0) 0x80000 = Some s \<and>
     rv_map (bump_alloc 0x80010) 0x12345 0x90000 perm_empty RvSmall s = Some (Inr c, s1) \<and>
     rv_translate_vpn 0x12345 s1 = Some (Some 0x90000) \<and>
     rv_unmap 0x12345 s1 = Some (Inr e, s2) \<and> rv_translate_vpn 0x12345 s2 = Some None"
proof -
  define s :: "usize pt_state" where "s = \<lparr>pt_root = 0x80000, pt_frames = [0x80000], pt_mem = pm_zero (\<lambda>_ _. 0) 0x80000, pt_al = 0x80001\<rparr>"
  have new: "pt_new_in (bump_alloc 0x80010) (\<lambda>_ _. 0) 0x80000 = Some s" by (simp add: pt_new_in_def bump_alloc_def s_def)
  have fr: "\<forall>n \<in> bump_av 0x80010 0x80000. rv_ppn_ok n"
    by (auto simp: bump_av_def rv_ppn_ok_def word_less_nat_alt word_le_nat_alt)
  have ok: "rv_ok (\<lambda>_. 0) {} {} (bump_av 0x80010) s"
    by (rule pt_new_ok [OF bump_law fr _ _ new]) (simp_all add: zero_look rv_zero)
  have c: "2 \<le> card (bump_av 0x80010 (pt_al s))" by (rule bump_card) (simp add: s_def)
  have v: "unat (0x12345 :: usize) < 2 ^ VPN_WIDTH Riscv64" by (simp add: VPN_WIDTH_def VA_WIDTH_def PAGE_SIZE_BITS_def)
  have p: "rv_ppn_ok 0x90000" by (simp add: rv_ppn_ok_def)
  from rv_map_unmap_correct [OF ok bump_law c v _ p, of perm_empty] v new show ?thesis by fastforce
qed

text \<open>
  C10. The same holds of the four-level LoongArch page tables, whose inner entries are bare
  frame addresses: with three frames left in the allocator, mapping a small page makes
  exactly this page translate to its frame, and unmapping it makes exactly this page
  untranslatable.
\<close>

theorem la_map_unmap_correct:
  assumes ok: "la_ok d K S av s" and law: "alloc_law alloc av" and av: "3 \<le> card (av (pt_al s))"
    and vpn: "unat vpn < 2 ^ VPN_WIDTH Loongarch64" "hd (vpn_indexes Loongarch64 vpn) \<notin> S" and ppn: "la_ppn_ok ppn"
  shows "\<exists>c s1 d1 e s2.
    la_map alloc vpn ppn perm LaSmall s = Some (Inr c, s1) \<and> la_ok d1 K S av s1 \<and>
    la_unmap vpn s1 = Some (Inr e, s2) \<and> la_ok d1 K S av s2 \<and>
    (\<forall>v. unat v < 2 ^ VPN_WIDTH Loongarch64 \<longrightarrow>
      la_translate_vpn v s1 = (if v = vpn then Some (Some ppn) else la_translate_vpn v s) \<and>
      la_translate_vpn v s2 = (if v = vpn then Some None else la_translate_vpn v s))"
proof -
  let ?ix = "vpn_indexes Loongarch64" and ?e = "la_set_valid True (la_new ppn perm) OR LA_MAT_L"
  have len: "length (?ix v) = Suc 3" for v by (simp add: vpn_indexes_facts PG_LEVEL_def)
  have at: "map_option (\<lambda>l. l = LaSmall) (la_level_from i) = Some (i = 3)" if "i \<le> 3" for i
    using that by (auto simp: la_level_from_def)
  from lat.map_spec [OF law at ok _ len vpn(2) av la_valid_entry(1) [OF ppn, of perm] refl]
  obtain g i s' d' where m: "la_find_pte_create alloc vpn LaSmall s = Some (Some (g, i), s')"
    "pt_root s' = pt_root s" "la_ok d' K S av (s'\<lparr>pt_mem := pm_write (pt_mem s') g i ?e\<rparr>)"
    "length js = Suc 3 \<Longrightarrow> lat.look 3 (pm_write (pt_mem s') g i ?e) 0 (pt_root s) js =
      (if js = ?ix vpn then Some (Some (?e, 3)) else lat.look 3 (pt_mem s) 0 (pt_root s) js)" for js
    by (auto simp: la_find_pte_create_def)
  define s1 where "s1 = s'\<lparr>pt_mem := pm_write (pt_mem s') g i ?e\<rparr>"
  have m1: "la_map alloc vpn ppn perm LaSmall s = Some (Inr (g, i), s1)" "pt_root s1 = pt_root s" "la_ok d' K S av s1"
    using m(1-3) by (simp_all add: la_map_def s1_def)
  have l1: "lat.look 3 (pt_mem s1) 0 (pt_root s) (?ix v) =
      (if v = vpn then Some (Some (?e, 3)) else lat.look 3 (pt_mem s) 0 (pt_root s) (?ix v))"
    if "unat v < 2 ^ VPN_WIDTH Loongarch64" for v
    using m(4) [OF len, of v] vpn_indexes_inj [OF that vpn(1)] by (auto simp: s1_def)
  have "la_find_pte vpn s1 \<noteq> Some None"
    using l1 [OF vpn(1)] m1(2) by (auto simp: la_find_pte_def pt_look_def)
  with lat.unmap_spec [OF m1(3) _ len vpn(2)] obtain g2 i2 where
    u: "la_find_pte vpn s1 = Some (Some (g2, i2, 3))" "la_ok d' K S av (s1\<lparr>pt_mem := pm_write (pt_mem s1) g2 i2 0\<rparr>)"
    "length js = Suc 3 \<Longrightarrow> lat.look 3 (pm_write (pt_mem s1) g2 i2 0) 0 (pt_root s1) js =
      (if js = ?ix vpn then Some None else lat.look 3 (pt_mem s1) 0 (pt_root s1) js)" for js
    by (auto simp: la_find_pte_def)
  let ?s2 = "s1\<lparr>pt_mem := pm_write (pt_mem s1) g2 i2 0\<rparr>"
  have "la_unmap vpn s1 = Some (Inr (pt_mem s1 g2 i2), ?s2)" by (simp add: la_unmap_def u(1))
  moreover have "la_translate_vpn v s1 = (if v = vpn then Some (Some ppn) else la_translate_vpn v s)"
    if "unat v < 2 ^ VPN_WIDTH Loongarch64" for v
    using l1 [OF that] m1(2) la_valid_entry [OF ppn, of perm] by (simp add: la_translate_look la_level_from_def)
  moreover have "la_translate_vpn v ?s2 = (if v = vpn then Some None else la_translate_vpn v s)"
    if "unat v < 2 ^ VPN_WIDTH Loongarch64" for v
    using u(3) [OF len, of v] l1 [OF that] m1(2) vpn_indexes_inj [OF that vpn(1)] by (auto simp: la_translate_look)
  ultimately show ?thesis using m1(1,3) u(2) by blast
qed

theorem la_map_unmap_correct_witness:
  "\<exists>s c s1 e s2. pt_new_in (bump_alloc 0x80010) (\<lambda>_ _. 0) 0x80000 = Some s \<and>
     la_map (bump_alloc 0x80010) 0x12345 0x90000 perm_empty LaSmall s = Some (Inr c, s1) \<and>
     la_translate_vpn 0x12345 s1 = Some (Some 0x90000) \<and>
     la_unmap 0x12345 s1 = Some (Inr e, s2) \<and> la_translate_vpn 0x12345 s2 = Some None"
proof -
  define s :: "usize pt_state" where "s = \<lparr>pt_root = 0x80000, pt_frames = [0x80000], pt_mem = pm_zero (\<lambda>_ _. 0) 0x80000, pt_al = 0x80001\<rparr>"
  have new: "pt_new_in (bump_alloc 0x80010) (\<lambda>_ _. 0) 0x80000 = Some s" by (simp add: pt_new_in_def bump_alloc_def s_def)
  have fr: "\<forall>n \<in> bump_av 0x80010 0x80000. la_fr_ok n"
    by (auto simp: bump_av_def la_fr_ok_def la_ppn_ok_def word_less_nat_alt word_le_nat_alt)
  have ok: "la_ok (\<lambda>_. 0) {} {} (bump_av 0x80010) s"
    by (rule pt_new_ok [OF bump_law fr _ _ new]) (simp_all add: la_absent_def)
  have c: "3 \<le> card (bump_av 0x80010 (pt_al s))" by (rule bump_card) (simp add: s_def)
  have v: "unat (0x12345 :: usize) < 2 ^ VPN_WIDTH Loongarch64" by (simp add: VPN_WIDTH_def VA_WIDTH_def PAGE_SIZE_BITS_def)
  have p: "la_ppn_ok 0x90000" by (simp add: la_ppn_ok_def)
  from la_map_unmap_correct [OF ok bump_law c v _ p, of perm_empty] v new show ?thesis by fastforce
qed

end
