(* ===== verification/Sys_Error.thy ===== *)
theory Sys_Error
  imports Chronix_Prelude
begin

text \<open>
  The error numbers of \<^verbatim>\<open>os/src/syscall/sys_error.rs\<close>. A system call returns a
  \<^verbatim>\<open>SysResult\<close>, so \<open>Inl e\<close> or \<open>Inr r\<close>; the trap handler turns it into the register value, the
  negated error number or the result (\<^verbatim>\<open>os/src/syscall/mod.rs\<close>).
\<close>

datatype sys_error =
  EPERM | ENOENT | ESRCH | EINTR | EIO | ENXIO | E2BIG | ENOEXEC
| EBADF | ECHILD | EAGAIN | ENOMEM | EACCES | EFAULT | ENOTBLK | EBUSY
| EEXIST | EXDEV | ENODEV | ENOTDIR | EISDIR | EINVAL | ENFILE | EMFILE
| ENOTTY | ETXTBSY | EFBIG | ENOSPC | ESPIPE | EROFS | EMLINK | EPIPE
| EDOM | ERANGE | EDEADLK | ENAMETOOLONG | ENOLCK | ENOSYS | ENOTEMPTY | ELOOP
| ETIME | ENOTSOCK | EOPNOTSUPP | EADDRINUSE | EADDRNOTAVAIL | ECONNRESET | EISCONN | ENOTCONN
| ETIMEOUT | ECONNREFUSED | EINPROGRESS | EOWNERDIED

primrec code :: "sys_error \<Rightarrow> int" where
  "code EPERM = 1"
| "code ENOENT = 2"
| "code ESRCH = 3"
| "code EINTR = 4"
| "code EIO = 5"
| "code ENXIO = 6"
| "code E2BIG = 7"
| "code ENOEXEC = 8"
| "code EBADF = 9"
| "code ECHILD = 10"
| "code EAGAIN = 11"
| "code ENOMEM = 12"
| "code EACCES = 13"
| "code EFAULT = 14"
| "code ENOTBLK = 15"
| "code EBUSY = 16"
| "code EEXIST = 17"
| "code EXDEV = 18"
| "code ENODEV = 19"
| "code ENOTDIR = 20"
| "code EISDIR = 21"
| "code EINVAL = 22"
| "code ENFILE = 23"
| "code EMFILE = 24"
| "code ENOTTY = 25"
| "code ETXTBSY = 26"
| "code EFBIG = 27"
| "code ENOSPC = 28"
| "code ESPIPE = 29"
| "code EROFS = 30"
| "code EMLINK = 31"
| "code EPIPE = 32"
| "code EDOM = 33"
| "code ERANGE = 34"
| "code EDEADLK = 35"
| "code ENAMETOOLONG = 36"
| "code ENOLCK = 37"
| "code ENOSYS = 38"
| "code ENOTEMPTY = 39"
| "code ELOOP = 40"
| "code ETIME = 62"
| "code ENOTSOCK = 88"
| "code EOPNOTSUPP = 95"
| "code EADDRINUSE = 98"
| "code EADDRNOTAVAIL = 99"
| "code ECONNRESET = 104"
| "code EISCONN = 106"
| "code ENOTCONN = 107"
| "code ETIMEOUT = 110"
| "code ECONNREFUSED = 111"
| "code EINPROGRESS = 115"
| "code EOWNERDIED = 130"

type_synonym 'a sys_result = "sys_error + 'a"

abbreviation (input) Err :: "sys_error \<Rightarrow> sys_error + 'a" where "Err \<equiv> Inl"
abbreviation (input) Ok :: "'a \<Rightarrow> sys_error + 'a" where "Ok \<equiv> Inr"

definition sys_ret :: "usize sys_result \<Rightarrow> usize" where
  "sys_ret r = (case r of Inl e \<Rightarrow> of_int (- code e) | Inr v \<Rightarrow> v)"

definition from_i32 :: "int \<Rightarrow> sys_error option" where
  "from_i32 e = find (\<lambda>x. code x = e)
    [EPERM, ENOENT, ESRCH, EINTR, EIO, ENXIO, E2BIG, ENOEXEC, EBADF, ECHILD, EAGAIN, ENOMEM, EACCES, EFAULT, ENOTBLK, EBUSY, EEXIST, EXDEV, ENODEV, ENOTDIR, EISDIR, EINVAL, ENFILE, EMFILE, ENOTTY, ETXTBSY, EFBIG, ENOSPC, ESPIPE, EROFS, EMLINK, EPIPE, EDOM, ERANGE, EDEADLK, ENAMETOOLONG, ENOLCK, ENOSYS, ENOTEMPTY, ELOOP, ETIME, ENOTSOCK, EOPNOTSUPP, EADDRINUSE, EADDRNOTAVAIL, ECONNRESET, EISCONN, ENOTCONN, ETIMEOUT, ECONNREFUSED, EINPROGRESS, EOWNERDIED]"

text \<open>The error numbers identify the errors, and decoding one gives the error back.\<close>

lemma from_i32_code: "from_i32 (code e) = Some e"
  by (cases e) (simp_all add: from_i32_def)

lemma code_range: "0 < code e" "code e \<le> 130"
  by (cases e; simp)+

end
