(* ===== verification/Signal.thy ===== *)
theory Signal
  imports Ordered_Map Sys_Error "HOL-Library.Multiset"
begin

text \<open>
  Signals: the sets, records and numbers of \<^verbatim>\<open>os/src/signal/mod.rs\<close>, actions and default
  handlers of \<^verbatim>\<open>action.rs\<close> and \<^verbatim>\<open>handler.rs\<close>, and the signal manager of \<^verbatim>\<open>manager.rs\<close> with its
  queue of standard signals, which a bitmap keeps free of duplicates, and one queue per
  real-time signal. The address in \<^verbatim>\<open>sa_handler\<close> is one of the kernel's five handlers or a user
  address. Shifting by \<^verbatim>\<open>signo - 1\<close> wraps in the release build, so that signal 0 selects bit 63;
  all 64 bits of a set are declared flags, so \<^verbatim>\<open>SigSet::from_bits\<close> never fails.
\<close>

unbundle bit_operations_syntax

type_synonym sig_set = usize

definition SIGKILL :: nat where "SIGKILL = 9"
definition SIGCHLD :: nat where "SIGCHLD = 17"
definition SIGCONT :: nat where "SIGCONT = 18"
definition SIGSTOP :: nat where "SIGSTOP = 19"
definition SIGRTMIN :: nat where "SIGRTMIN = 32"
definition SIGRTMAX :: nat where "SIGRTMAX = 64"

lemmas sig_nums = SIGKILL_def SIGCHLD_def SIGCONT_def SIGSTOP_def SIGRTMIN_def SIGRTMAX_def

section \<open>Signal sets\<close>

definition sig_bit :: "nat \<Rightarrow> nat" where
  "sig_bit signo = (signo + 63) mod 64"

definition sig_mask :: "nat \<Rightarrow> sig_set" where
  "sig_mask signo = push_bit (sig_bit signo) 1"

definition add_sig :: "nat \<Rightarrow> sig_set \<Rightarrow> sig_set" where
  "add_sig signo s = s OR sig_mask signo"

definition contain_sig :: "sig_set \<Rightarrow> nat \<Rightarrow> bool" where
  "contain_sig s signo \<longleftrightarrow> s AND sig_mask signo = sig_mask signo"

definition remove_sig :: "nat \<Rightarrow> sig_set \<Rightarrow> sig_set" where
  "remove_sig signo s = s AND NOT (sig_mask signo)"

section \<open>Signal information and actions\<close>

record sig_info =
  si_signo :: nat
  si_code :: int
  si_pid :: "nat option"

definition SI_USER :: int where "SI_USER = 0"
definition SI_KERNEL :: int where "SI_KERNEL = 0x80"
definition SI_TKILL :: int where "SI_TKILL = - 6"
definition CLD_EXITED :: int where "CLD_EXITED = 1"

datatype handler = Term_Handler | Ign_Handler | Core_Handler | Stop_Handler | Cont_Handler | User_Handler usize

record sig_action =
  sa_handler :: handler
  sa_flags :: u32
  sa_restorer :: usize
  sa_mask :: sig_set

record ksig_action =
  sa :: sig_action
  is_user :: bool

text \<open>The default actions; \<^verbatim>\<open>get_default_handler\<close> asserts that the number is at most 64.\<close>

definition default_handler :: "nat \<Rightarrow> handler" where
  "default_handler signo =
     (if signo \<in> {1, 2, 9, 10, 12, 13, 14, 15, 16, 26, 27, 29, 30} then Term_Handler
      else if signo \<in> {3, 4, 5, 6, 7, 8, 11, 24, 25, 31} then Core_Handler
      else if signo \<in> {17, 23, 28} then Ign_Handler
      else if signo = 18 then Cont_Handler
      else if signo \<in> {19, 20, 21, 22} then Stop_Handler
      else Term_Handler)"

definition get_default_handler :: "nat \<Rightarrow> handler option" where
  "get_default_handler signo = do { assert_that (signo \<le> SIGRTMAX); Some (default_handler signo) }"

definition ksig_new :: "nat \<Rightarrow> bool \<Rightarrow> ksig_action option" where
  "ksig_new signo is_user_defined = do {
     h \<leftarrow> get_default_handler signo;
     Some \<lparr>sa = \<lparr>sa_handler = h, sa_flags = 0, sa_restorer = 0, sa_mask = 0\<rparr>, is_user = is_user_defined\<rparr> }"

section \<open>The signal manager\<close>

record sig_manager =
  pending_sigs :: "sig_info list"
  pending_rt_sigs :: "(nat, sig_info list) btree"
  bitmap :: sig_set
  blocked_sigs :: sig_set
  sig_handler :: "ksig_action list"
  wake_sigs :: sig_set

text \<open>The handler array has \<^verbatim>\<open>SIGRTMAX + 1\<close> entries; entry 0 is unused.\<close>

definition sm_new :: "sig_manager" where
  "sm_new =
     \<lparr>pending_sigs = [], pending_rt_sigs = [], bitmap = 0, blocked_sigs = 0,
      sig_handler = map (\<lambda>signo. the (ksig_new signo False)) [0 ..< SIGRTMAX + 1], wake_sigs = 0\<rparr>"

definition sm_from_another :: "sig_manager \<Rightarrow> sig_manager" where
  "sm_from_another m =
     \<lparr>pending_sigs = [], pending_rt_sigs = [], bitmap = 0, blocked_sigs = 0,
      sig_handler = sig_handler m, wake_sigs = 0\<rparr>"

definition rt_push :: "sig_info \<Rightarrow> (nat, sig_info list) btree \<Rightarrow> (nat, sig_info list) btree" where
  "rt_push si m =
     (case bt_get m (si_signo si) of
        None \<Rightarrow> bt_insert (si_signo si) [si] m
      | Some _ \<Rightarrow> bt_get_mut (si_signo si) (\<lambda>q. q @ [si]) m)"

definition receive :: "sig_info \<Rightarrow> sig_manager \<Rightarrow> sig_manager option" where
  "receive si m =
     (let signo = si_signo si in
      if signo < SIGRTMIN then
        Some (if \<not> contain_sig (bitmap m) signo
              then m\<lparr>bitmap := add_sig signo (bitmap m), pending_sigs := pending_sigs m @ [si]\<rparr> else m)
      else do {
        assert_that (SIGRTMIN \<le> signo);
        assert_that (signo \<le> SIGRTMAX);
        Some (m\<lparr>pending_rt_sigs := rt_push si (pending_rt_sigs m)\<rparr>) })"

text \<open>The scans over the real-time queues: the first queue of an expected signal that is not empty.\<close>

definition rt_expected :: "sig_set \<Rightarrow> (nat, sig_info list) btree \<Rightarrow> (nat \<times> sig_info list) option" where
  "rt_expected expected m = find (\<lambda>(signo, q). contain_sig expected signo \<and> q \<noteq> []) m"

definition check_pending :: "sig_set \<Rightarrow> sig_manager \<Rightarrow> sig_info option" where
  "check_pending expected m =
     (let x = bitmap m AND expected in
      if x = 0 then (case rt_expected expected (pending_rt_sigs m) of
          Some (_, q) \<Rightarrow> hd_opt q | None \<Rightarrow> None)
      else find (\<lambda>s. contain_sig x (si_signo s)) (pending_sigs m))"

definition check_pending_flag :: "sig_set \<Rightarrow> sig_manager \<Rightarrow> bool" where
  "check_pending_flag expected m =
     (let x = bitmap m AND expected in
      if x = 0 then rt_expected expected (pending_rt_sigs m) \<noteq> None else True)"

definition user_define_sets :: "sig_manager \<Rightarrow> sig_set" where
  "user_define_sets m =
     fold (\<lambda>i s. if is_user (sig_handler m ! i) then add_sig i s else s) [0 ..< length (sig_handler m)] 0"

definition sm_set_sigaction :: "nat \<Rightarrow> ksig_action \<Rightarrow> sig_manager \<Rightarrow> sig_manager" where
  "sm_set_sigaction signo act m =
     (if signo = SIGSTOP \<or> signo = SIGKILL then m
      else if signo \<le> SIGRTMAX then m\<lparr>sig_handler := (sig_handler m)[signo := act]\<rparr>
      else m)"

text \<open>
  \<^verbatim>\<open>dequeue_one\<close>: the first loop pops each of the standard signals once and puts the blocked
  ones back at the end; the second takes the first signal of the first unblocked queue.
\<close>

fun dequeue_std :: "nat \<Rightarrow> sig_manager \<Rightarrow> (sig_info option \<times> sig_manager) option" where
  "dequeue_std 0 m = Some (None, m)"
| "dequeue_std (Suc n) m =
     (case pending_sigs m of
        [] \<Rightarrow> panic
      | s # rest \<Rightarrow>
          if si_signo s \<noteq> SIGKILL \<and> si_signo s \<noteq> SIGSTOP \<and> contain_sig (blocked_sigs m) (si_signo s)
          then dequeue_std n (m\<lparr>pending_sigs := rest @ [s]\<rparr>)
          else Some (Some s, m\<lparr>pending_sigs := rest, bitmap := remove_sig (si_signo s) (bitmap m)\<rparr>))"

fun dequeue_rt ::
  "sig_set \<Rightarrow> (nat, sig_info list) btree \<Rightarrow> (sig_info option \<times> (nat, sig_info list) btree) option" where
  "dequeue_rt blocked [] = Some (None, [])"
| "dequeue_rt blocked ((signo, q) # rest) = do {
     assert_that (SIGRTMIN \<le> signo);
     assert_that (signo \<le> SIGRTMAX);
     if contain_sig blocked signo then do {
       (r, rest') \<leftarrow> dequeue_rt blocked rest;
       Some (r, (signo, q) # rest') }
     else (case q of
         s # q' \<Rightarrow> Some (Some s, (signo, q') # rest)
       | [] \<Rightarrow> do { (r, rest') \<leftarrow> dequeue_rt blocked rest; Some (r, (signo, q) # rest') }) }"

definition dequeue_one :: "sig_manager \<Rightarrow> (sig_info option \<times> sig_manager) option" where
  "dequeue_one m = do {
     (r, m') \<leftarrow> dequeue_std (length (pending_sigs m)) m;
     (case r of
        Some s \<Rightarrow> Some (Some s, m')
      | None \<Rightarrow> do {
          (r', rt) \<leftarrow> dequeue_rt (blocked_sigs m') (pending_rt_sigs m');
          Some (r', m'\<lparr>pending_rt_sigs := rt\<rparr>) }) }"

fun remove_first :: "('a \<Rightarrow> bool) \<Rightarrow> 'a list \<Rightarrow> 'a list" where
  "remove_first P [] = []"
| "remove_first P (x # xs) = (if P x then xs else x # remove_first P xs)"

definition dequeue_expected_one :: "sig_set \<Rightarrow> sig_manager \<Rightarrow> sig_info option \<times> sig_manager" where
  "dequeue_expected_one expected m =
     (let x = bitmap m AND expected in
      if x = 0 then (case rt_expected expected (pending_rt_sigs m) of
          Some (signo, q) \<Rightarrow> (hd_opt q, m\<lparr>pending_rt_sigs := bt_get_mut signo tl (pending_rt_sigs m)\<rparr>)
        | None \<Rightarrow> (None, m))
      else (case find (\<lambda>s. contain_sig x (si_signo s)) (pending_sigs m) of
          Some s \<Rightarrow> (Some s, m\<lparr>bitmap := remove_sig (si_signo s) (bitmap m),
                       pending_sigs := remove_first (\<lambda>s. contain_sig x (si_signo s)) (pending_sigs m)\<rparr>)
        | None \<Rightarrow> (None, m)))"

text \<open>\<^verbatim>\<open>reset_on_exec\<close> runs over \<^verbatim>\<open>1..SIGRTMAX\<close>, which excludes signal 64.\<close>

definition reset_one :: "nat \<Rightarrow> ksig_action list \<Rightarrow> ksig_action list" where
  "reset_one signo hs =
     (if sa_handler (sa (hs ! signo)) = Ign_Handler then hs else hs[signo := the (ksig_new signo False)])"

definition reset_on_exec :: "sig_manager \<Rightarrow> sig_manager" where
  "reset_on_exec m = m\<lparr>sig_handler := fold reset_one [1 ..< SIGRTMAX] (sig_handler m)\<rparr>"

section \<open>Signal sets as sets of numbers\<close>

lemma sig_bit_less: "sig_bit n < 64"
  by (simp add: sig_bit_def)

lemma sig_bit_eq: "1 \<le> a \<Longrightarrow> a \<le> 64 \<Longrightarrow> sig_bit a = a - 1"
  using mod_add_self2 [of "a - 1" 64] by (simp add: sig_bit_def add.commute)

lemma sig_bit_inj: "1 \<le> a \<Longrightarrow> a \<le> 64 \<Longrightarrow> 1 \<le> b \<Longrightarrow> b \<le> 64 \<Longrightarrow> sig_bit a = sig_bit b \<longleftrightarrow> a = b"
  by (auto simp: sig_bit_eq)

lemma bit_sig_mask: "bit (sig_mask n) k \<longleftrightarrow> k = sig_bit n"
  using sig_bit_less [of n] unfolding sig_mask_def bit_push_bit_iff by (auto simp: bit_1_iff)

lemma contain_sig_bit: "contain_sig s n \<longleftrightarrow> bit s (sig_bit n)"
proof
  assume "contain_sig s n"
  then have "bit (s AND sig_mask n) (sig_bit n)" by (simp add: contain_sig_def bit_sig_mask)
  then show "bit s (sig_bit n)" by (simp add: bit_and_iff)
next
  assume "bit s (sig_bit n)"
  then show "contain_sig s n" unfolding contain_sig_def
    by (intro bit_eqI) (auto simp: bit_and_iff bit_sig_mask)
qed

lemma bit_add_sig: "bit (add_sig n s) k \<longleftrightarrow> bit s k \<or> k = sig_bit n"
  by (simp add: add_sig_def bit_or_iff bit_sig_mask)

lemma bit_remove_sig: "bit (remove_sig n s) k \<longleftrightarrow> bit s k \<and> k \<noteq> sig_bit n"
  using bit_imp_le_length [of s k] by (auto simp: remove_sig_def bit_and_iff bit_not_iff bit_sig_mask)

section \<open>Well-formed managers\<close>

definition sm_ok :: "sig_manager \<Rightarrow> bool" where
  "sm_ok m \<longleftrightarrow>
     length (sig_handler m) = SIGRTMAX + 1 \<and>
     (\<forall>s \<in> set (pending_sigs m). 1 \<le> si_signo s \<and> si_signo s < SIGRTMIN) \<and>
     distinct (map si_signo (pending_sigs m)) \<and>
     (\<forall>k. bit (bitmap m) k \<longleftrightarrow> (\<exists>s \<in> set (pending_sigs m). k = sig_bit (si_signo s))) \<and>
     bt_wf (pending_rt_sigs m) \<and>
     (\<forall>(k, q) \<in> set (pending_rt_sigs m). SIGRTMIN \<le> k \<and> k \<le> SIGRTMAX \<and> (\<forall>s \<in> set q. si_signo s = k))"

text \<open>All pending signals, in the order in which the manager would look at them.\<close>

definition pend :: "sig_manager \<Rightarrow> sig_info list" where
  "pend m = pending_sigs m @ concat (map snd (pending_rt_sigs m))"

definition blockedp :: "sig_manager \<Rightarrow> sig_info \<Rightarrow> bool" where
  "blockedp m s \<longleftrightarrow> si_signo s \<noteq> SIGKILL \<and> si_signo s \<noteq> SIGSTOP \<and> contain_sig (blocked_sigs m) (si_signo s)"

lemma sm_ok_new: "sm_ok sm_new"
  by (simp add: sm_ok_def sm_new_def sig_nums del: upt_Suc)

lemma dequeue_std_eq:
  "dequeue_std (length q) (m\<lparr>pending_sigs := q @ d\<rparr>) =
     (case dropWhile (blockedp m) q of
        [] \<Rightarrow> Some (None, m\<lparr>pending_sigs := d @ q\<rparr>)
      | s # rest \<Rightarrow> Some (Some s, m\<lparr>pending_sigs := rest @ d @ takeWhile (blockedp m) q,
                            bitmap := remove_sig (si_signo s) (bitmap m)\<rparr>))"
proof (induction q arbitrary: d)
  case (Cons s q)
  show ?case
  proof (cases "blockedp m s")
    case True
    have "dequeue_std (length (s # q)) (m\<lparr>pending_sigs := (s # q) @ d\<rparr>) =
        dequeue_std (length q) (m\<lparr>pending_sigs := q @ (d @ [s])\<rparr>)"
      using True unfolding blockedp_def by simp
    also note Cons.IH [of "d @ [s]"]
    finally show ?thesis using True by (simp only:) (cases "dropWhile (blockedp m) q"; simp del: dequeue_std.simps dropWhile_eq_Nil_conv)
  next
    case False
    have "dequeue_std (length (s # q)) (m\<lparr>pending_sigs := (s # q) @ d\<rparr>) =
        Some (Some s, m\<lparr>pending_sigs := q @ d, bitmap := remove_sig (si_signo s) (bitmap m)\<rparr>)"
      using False unfolding blockedp_def by auto
    then show ?thesis using False by (simp only:) simp
  qed
qed simp

lemma dequeue_rt_spec:
  assumes "\<forall>(k, q) \<in> set m. SIGRTMIN \<le> k \<and> k \<le> SIGRTMAX"
  shows "(dequeue_rt b m = Some (None, m) \<and> (\<forall>(k, q) \<in> set m. contain_sig b k \<or> q = [])) \<or>
    (\<exists>pre k s q post. m = pre @ (k, s # q) # post \<and> dequeue_rt b m = Some (Some s, pre @ (k, q) # post) \<and>
       \<not> contain_sig b k \<and> (\<forall>(j, p) \<in> set pre. contain_sig b j \<or> p = []))"
  using assms
proof (induction m)
  case (Cons kq m)
  obtain k q where kq: "kq = (k, q)" by force
  have k: "SIGRTMIN \<le> k" "k \<le> SIGRTMAX" using Cons.prems kq by auto
  show ?case
  proof (cases "contain_sig b k \<or> q = []")
    case skip: True
    have step: "dequeue_rt b (kq # m) = do { (r, rest') \<leftarrow> dequeue_rt b m; Some (r, kq # rest') }"
      using skip k kq by auto
    from Cons.IH Cons.prems show ?thesis
    proof (elim meta_impE disjE exE conjE)
      fix pre k' s q' post
      assume m: "m = pre @ (k', s # q') # post" and d: "dequeue_rt b m = Some (Some s, pre @ (k', q') # post)"
        and c: "\<not> contain_sig b k'" "\<forall>(j, p) \<in> set pre. contain_sig b j \<or> p = []"
      have "kq # m = (kq # pre) @ (k', s # q') # post \<and> dequeue_rt b (kq # m) = Some (Some s, (kq # pre) @ (k', q') # post) \<and>
        \<not> contain_sig b k' \<and> (\<forall>(j, p) \<in> set (kq # pre). contain_sig b j \<or> p = [])"
        using m d c step skip kq by simp
      then show ?thesis by blast
    qed (use step skip kq in auto)
  next
    case False
    then obtain s q' where q: "q = s # q'" by (cases q) auto
    have "kq # m = [] @ (k, s # q') # m \<and> dequeue_rt b (kq # m) = Some (Some s, [] @ (k, q') # m) \<and>
        \<not> contain_sig b k \<and> (\<forall>(j, p) \<in> set []. contain_sig b j \<or> p = [])"
      using False k q kq by simp
    then show ?thesis by blast
  qed
qed simp

lemma sm_okD:
  assumes "sm_ok m"
  shows "length (sig_handler m) = SIGRTMAX + 1"
    and "s \<in> set (pending_sigs m) \<Longrightarrow> 1 \<le> si_signo s \<and> si_signo s < SIGRTMIN"
    and "distinct (map si_signo (pending_sigs m))"
    and "bit (bitmap m) k \<longleftrightarrow> (\<exists>s \<in> set (pending_sigs m). k = sig_bit (si_signo s))"
    and "bt_wf (pending_rt_sigs m)"
    and "(n, q) \<in> set (pending_rt_sigs m) \<Longrightarrow> SIGRTMIN \<le> n \<and> n \<le> SIGRTMAX \<and> (\<forall>s \<in> set q. si_signo s = n)"
  using assms unfolding sm_ok_def by blast+

lemma std_contain_iff:
  assumes "sm_ok m" "1 \<le> n" "n \<le> SIGRTMAX"
  shows "contain_sig (bitmap m) n \<longleftrightarrow> n \<in> si_signo ` set (pending_sigs m)"
proof -
  have "sig_bit n = sig_bit (si_signo s) \<longleftrightarrow> n = si_signo s" if "s \<in> set (pending_sigs m)" for s
    using sm_okD(2) [OF assms(1) that] assms(2,3) by (intro sig_bit_inj) (auto simp: sig_nums)
  then show ?thesis by (auto simp: contain_sig_bit sm_okD(4) [OF assms(1)])
qed

text \<open>Taking one standard signal out of the queue and the bitmap keeps the manager well-formed.\<close>

lemma remove_std_ok:
  assumes ok: "sm_ok m" and p: "pending_sigs m = bs @ s # rest" and q: "mset q = mset (bs @ rest)"
  shows "sm_ok (m\<lparr>pending_sigs := q, bitmap := remove_sig (si_signo s) (bitmap m)\<rparr>)"
proof -
  have set_q: "set q = set bs \<union> set rest" using q by (metis set_append set_mset_mset)
  have dist: "distinct (map si_signo (bs @ s # rest))" using sm_okD(3) [OF ok] p by simp
  then have "distinct (map si_signo q)"
    using q by (metis distinct_remove1 map_append mset_map mset_eq_imp_distinct_iff
        distinct_append distinct.simps(2) list.simps(9) disjoint_insert(1) list.simps(15))
  moreover have "t \<in> set q \<longleftrightarrow> t \<in> set (pending_sigs m) \<and> si_signo t \<noteq> si_signo s" for t
    using dist set_q p by (auto simp: image_iff)
  moreover have "sig_bit (si_signo t) = sig_bit (si_signo s) \<longleftrightarrow> si_signo t = si_signo s" if "t \<in> set (pending_sigs m)" for t
    using sm_okD(2) [OF ok that] sm_okD(2) [OF ok, of s] p by (intro sig_bit_inj) (auto simp: sig_nums)
  ultimately show ?thesis
    using ok by (auto simp: sm_ok_def bit_remove_sig)
qed

lemma rt_pop_ok:
  assumes ok: "sm_ok m" and rt: "pending_rt_sigs m = pre @ (k, s # q) # post"
  shows "sm_ok (m\<lparr>pending_rt_sigs := pre @ (k, q) # post\<rparr>)"
proof -
  have "map fst (pre @ (k, q) # post) = map fst (pending_rt_sigs m)" by (simp add: rt)
  then have "bt_wf (pre @ (k, q) # post)" using sm_okD(5) [OF ok] by (simp only: bt_wf_def)
  moreover have "\<forall>s' \<in> set q. si_signo s' = k" "SIGRTMIN \<le> k" "k \<le> SIGRTMAX"
    using sm_okD(6) [OF ok, of k "s # q"] rt by auto
  ultimately show ?thesis using ok rt unfolding sm_ok_def by auto
qed

text \<open>What is taken: the first unblocked standard signal, or the oldest of the lowest real-time ones.\<close>

definition takes :: "sig_manager \<Rightarrow> sig_info \<Rightarrow> sig_manager \<Rightarrow> bool" where
  "takes m s m' \<longleftrightarrow>
     \<not> blockedp m s \<and> mset (pend m) = add_mset s (mset (pend m')) \<and>
     (si_signo s < SIGRTMIN \<or> (\<forall>t \<in> set (pend m). \<not> blockedp m t \<longrightarrow> si_signo s \<le> si_signo t)) \<and>
     filter (\<lambda>t. si_signo t = si_signo s) (pend m) = s # filter (\<lambda>t. si_signo t = si_signo s) (pend m')"

lemma takes_std:
  assumes ok: "sm_ok m" and p: "pending_sigs m = bs @ s # rest" and b: "\<not> blockedp m s"
  shows "takes m s (m\<lparr>pending_sigs := rest @ bs, bitmap := x\<rparr>)"
proof -
  have std: "si_signo s < SIGRTMIN" using sm_okD(2) [OF ok, of s] p by simp
  have d: "t \<in> set bs \<union> set rest \<Longrightarrow> si_signo t \<noteq> si_signo s" for t
    using sm_okD(3) [OF ok] p by (auto simp: image_iff)
  have rt: "filter (\<lambda>t. si_signo t = si_signo s) (concat (map snd (pending_rt_sigs m))) = []"
    using sm_okD(6) [OF ok] std by (fastforce simp: filter_empty_conv)
  have e: "filter (\<lambda>t. si_signo t = si_signo s) bs = []" "filter (\<lambda>t. si_signo t = si_signo s) rest = []"
    using d by (auto simp: filter_empty_conv)
  show ?thesis using b std rt e by (simp add: takes_def pend_def p)
qed

lemma takes_rt:
  assumes ok: "sm_ok m" and std: "\<forall>t \<in> set (pending_sigs m). blockedp m t"
    and rt: "pending_rt_sigs m = pre @ (k, s # q) # post" and b: "\<not> contain_sig (blocked_sigs m) k"
    and pre: "\<forall>(j, p) \<in> set pre. contain_sig (blocked_sigs m) j \<or> p = []"
  shows "takes m s (m\<lparr>pending_rt_sigs := pre @ (k, q) # post\<rparr>)"
proof -
  have K: "si_signo s = k" "SIGRTMIN \<le> k" using sm_okD(6) [OF ok, of k "s # q"] rt by auto
  have num: "si_signo t = j" "SIGRTMIN \<le> j" if "(j, p) \<in> set (pending_rt_sigs m)" "t \<in> set p" for j p t
    using sm_okD(6) [OF ok that(1)] that(2) by auto
  have ord: "j < k" if "(j, p) \<in> set pre" for j p
    using sm_okD(5) [OF ok] rt that by (fastforce simp: bt_wf_append)
  have ord': "k < j" if "(j, p) \<in> set post" for j p
    using sm_okD(5) [OF ok] rt that by (fastforce simp: bt_wf_append)
  have "blockedp m t" if "(j, p) \<in> set pre" "t \<in> set p" for j p t
    using pre that num [of j p t] rt by (fastforce simp: blockedp_def sig_nums)
  then have low: "k \<le> si_signo t" if "t \<in> set (pend m)" "\<not> blockedp m t" for t
    using that std rt num ord' K by (fastforce simp: pend_def)
  have e1: "filter (\<lambda>t. si_signo t = k) (pending_sigs m) = []"
    using sm_okD(2) [OF ok] K by (fastforce simp: filter_empty_conv)
  have e2: "filter (\<lambda>t. si_signo t = k) (concat (map snd pre)) = []"
    using num rt ord by (fastforce simp: filter_empty_conv)
  show ?thesis using b K low e1 e2 by (simp add: takes_def pend_def rt blockedp_def)
qed

lemma rt_push_set:
  assumes wf: "bt_wf m"
  shows "bt_wf (rt_push si m)"
    and "(k, q) \<in> set (rt_push si m) \<longleftrightarrow>
      (if k = si_signo si then q = (case bt_get m k of None \<Rightarrow> [] | Some q' \<Rightarrow> q') @ [si] else (k, q) \<in> set m)"
    and "mset (concat (map snd (rt_push si m))) = add_mset si (mset (concat (map snd m)))"
proof -
  show wf': "bt_wf (rt_push si m)" using wf by (auto simp: rt_push_def split: option.splits)
  have "bt_get (rt_push si m) k = (if k = si_signo si then Some ((case bt_get m k of None \<Rightarrow> [] | Some q' \<Rightarrow> q') @ [si]) else bt_get m k)"
    by (auto simp: rt_push_def bt_get_insert bt_get_get_mut split: option.splits)
  then show "(k, q) \<in> set (rt_push si m) \<longleftrightarrow>
      (if k = si_signo si then q = (case bt_get m k of None \<Rightarrow> [] | Some q' \<Rightarrow> q') @ [si] else (k, q) \<in> set m)"
    using bt_get_iff [OF wf', of k q] bt_get_iff [OF wf, of k q] by auto
  have ins: "mset (concat (map snd (bt_insert k q' m'))) = mset q' + mset (concat (map snd m'))"
    if "bt_get m' k = None" for k q' m'
    using that by (induction k q' m' rule: bt_insert.induct) (auto simp: bt_get_def)
  have mut: "mset (concat (map snd (bt_get_mut k (\<lambda>q. q @ [si]) m'))) = add_mset si (mset (concat (map snd m')))"
    if "bt_get m' k \<noteq> None" "bt_wf m'" for k m'
    using that
  proof (induction m')
    case (Cons xv m')
    obtain x v where xv: "xv = (x, v)" by force
    show ?case
    proof (cases "x = k")
      case True
      then have "\<forall>p \<in> set m'. fst p \<noteq> k" using Cons.prems(2) xv by auto
      then have "bt_get_mut k (\<lambda>q. q @ [si]) m' = m'" by (induction m') (auto simp: bt_get_mut_def)
      then show ?thesis using True xv by (simp add: bt_get_mut_def)
    next
      case False
      then show ?thesis using Cons xv by (auto simp: bt_get_mut_def bt_get_def)
    qed
  qed (simp add: bt_get_def)
  show "mset (concat (map snd (rt_push si m))) = add_mset si (mset (concat (map snd m)))"
    using ins [of m "si_signo si" "[si]"] mut [of m "si_signo si"] wf by (auto simp: rt_push_def split: option.splits)
qed

lemma receive_ok:
  assumes ok: "sm_ok m" and n: "1 \<le> si_signo si" "si_signo si \<le> SIGRTMAX"
  shows "\<exists>m'. receive si m = Some m' \<and> sm_ok m' \<and> blocked_sigs m' = blocked_sigs m \<and> sig_handler m' = sig_handler m \<and>
    (if si_signo si < SIGRTMIN \<and> si_signo si \<in> si_signo ` set (pend m) then m' = m
     else mset (pend m') = add_mset si (mset (pend m)))"
proof (cases "si_signo si < SIGRTMIN")
  case True
  have rt: "si_signo si \<notin> si_signo ` set (concat (map snd (pending_rt_sigs m)))"
    using sm_okD(6) [OF ok] True by fastforce
  have c: "contain_sig (bitmap m) (si_signo si) \<longleftrightarrow> si_signo si \<in> si_signo ` set (pend m)"
    using std_contain_iff [OF ok n] rt by (auto simp: pend_def)
  show ?thesis
  proof (cases "contain_sig (bitmap m) (si_signo si)")
    case dup: True
    then have "receive si m = Some m" using True by (simp add: receive_def Let_def)
    then show ?thesis using dup c True ok by simp
  next
    case new: False
    let ?m = "m\<lparr>bitmap := add_sig (si_signo si) (bitmap m), pending_sigs := pending_sigs m @ [si]\<rparr>"
    have "receive si m = Some ?m" using True new by (simp add: receive_def Let_def)
    moreover have "sm_ok ?m"
      using ok new c n True std_contain_iff [OF ok n] by (auto simp: sm_ok_def bit_add_sig)
    ultimately show ?thesis using new c by (simp add: pend_def)
  qed
next
  case False
  have "receive si m = Some (m\<lparr>pending_rt_sigs := rt_push si (pending_rt_sigs m)\<rparr>)"
    using False n(2) by (simp add: receive_def Let_def)
  moreover have "sm_ok (m\<lparr>pending_rt_sigs := rt_push si (pending_rt_sigs m)\<rparr>)"
  proof -
    have "SIGRTMIN \<le> k \<and> k \<le> SIGRTMAX \<and> (\<forall>s \<in> set q. si_signo s = k)"
      if "(k, q) \<in> set (rt_push si (pending_rt_sigs m))" for k q
    proof (cases "k = si_signo si")
      case True
      then have q: "q = (case bt_get (pending_rt_sigs m) k of None \<Rightarrow> [] | Some q' \<Rightarrow> q') @ [si]"
        using that rt_push_set(2) [OF sm_okD(5) [OF ok], of k q si] by simp
      have "\<forall>s \<in> set q'. si_signo s = k" if "bt_get (pending_rt_sigs m) k = Some q'" for q'
        using that sm_okD(6) [OF ok, of k q'] bt_get_iff [OF sm_okD(5) [OF ok], of k q'] by simp
      then show ?thesis using q True False n(2) by (auto split: option.splits)
    next
      case other: False
      then show ?thesis using that rt_push_set(2) [OF sm_okD(5) [OF ok], of k q si] sm_okD(6) [OF ok, of k q] by simp
    qed
    then show ?thesis using ok rt_push_set(1) [OF sm_okD(5) [OF ok]] by (auto simp: sm_ok_def)
  qed
  ultimately show ?thesis
    using False rt_push_set(3) [OF sm_okD(5) [OF ok], of si] by (simp add: pend_def)
qed

lemma dequeue_one_spec:
  assumes ok: "sm_ok m"
  shows "\<exists>r m'. dequeue_one m = Some (r, m') \<and> sm_ok m' \<and>
    blocked_sigs m' = blocked_sigs m \<and> sig_handler m' = sig_handler m \<and>
    (case r of
       None \<Rightarrow> (\<forall>s \<in> set (pend m). blockedp m s) \<and> pend m' = pend m
     | Some s \<Rightarrow> s \<in> set (pend m) \<and> takes m s m')"
proof (cases "dropWhile (blockedp m) (pending_sigs m)")
  case (Cons s rest)
  let ?bs = "takeWhile (blockedp m) (pending_sigs m)"
  let ?m = "m\<lparr>pending_sigs := rest @ ?bs, bitmap := remove_sig (si_signo s) (bitmap m)\<rparr>"
  have p: "pending_sigs m = ?bs @ s # rest" using takeWhile_dropWhile_id [of "blockedp m" "pending_sigs m"] Cons by simp
  have b: "\<not> blockedp m s" using hd_dropWhile [of "blockedp m" "pending_sigs m"] Cons by simp
  have "dequeue_std (length (pending_sigs m)) m = Some (Some s, ?m)"
    using dequeue_std_eq [where q = "pending_sigs m" and m = m and d = "[]"] Cons by simp
  then have "dequeue_one m = Some (Some s, ?m)" by (simp add: dequeue_one_def)
  moreover have "sm_ok ?m" by (rule remove_std_ok [OF ok p]) simp
  moreover have "s \<in> set (pend m)" by (subst pend_def, subst p) simp
  ultimately show ?thesis using takes_std [OF ok p b] by simp
next
  case Nil
  have std: "\<forall>t \<in> set (pending_sigs m). blockedp m t" using Nil by simp
  have d: "dequeue_std (length (pending_sigs m)) m = Some (None, m)"
    using dequeue_std_eq [where q = "pending_sigs m" and m = m and d = "[]"] unfolding Nil by simp
  have nums: "\<forall>(k, q) \<in> set (pending_rt_sigs m). SIGRTMIN \<le> k \<and> k \<le> SIGRTMAX" using sm_okD(6) [OF ok] by blast
  from dequeue_rt_spec [OF nums, of "blocked_sigs m"] show ?thesis
  proof (elim disjE exE conjE)
    assume a: "dequeue_rt (blocked_sigs m) (pending_rt_sigs m) = Some (None, pending_rt_sigs m)"
      "\<forall>(k, q) \<in> set (pending_rt_sigs m). contain_sig (blocked_sigs m) k \<or> q = []"
    have "blockedp m t" if "(k, q) \<in> set (pending_rt_sigs m)" "t \<in> set q" for k q t
      using a(2) that sm_okD(6) [OF ok that(1)] by (fastforce simp: blockedp_def sig_nums)
    then have "\<forall>t \<in> set (pend m). blockedp m t" using std by (auto simp: pend_def)
    then show ?thesis using a(1) d ok by (simp add: dequeue_one_def)
  next
    fix pre k s q post
    assume a: "pending_rt_sigs m = pre @ (k, s # q) # post"
      "dequeue_rt (blocked_sigs m) (pending_rt_sigs m) = Some (Some s, pre @ (k, q) # post)"
      "\<not> contain_sig (blocked_sigs m) k" "\<forall>(j, p) \<in> set pre. contain_sig (blocked_sigs m) j \<or> p = []"
    have "dequeue_one m = Some (Some s, m\<lparr>pending_rt_sigs := pre @ (k, q) # post\<rparr>)" using a(2) d by (simp add: dequeue_one_def)
    moreover have "s \<in> set (pend m)" by (simp add: pend_def a(1))
    ultimately show ?thesis using takes_rt [OF ok std a(1,3,4)] rt_pop_ok [OF ok a(1)] by simp
  qed
qed

section \<open>Correctness of the signal manager\<close>



text \<open>Any interleaving of arrivals, deliveries and mask changes on one manager.\<close>

inductive sm_run :: "sig_info list \<Rightarrow> sig_info list \<Rightarrow> sig_manager \<Rightarrow> bool" where
  run_new: "sm_run [] [] sm_new"
| run_recv: "sm_run rs ds m \<Longrightarrow> 1 \<le> si_signo si \<Longrightarrow> si_signo si \<le> SIGRTMAX \<Longrightarrow> receive si m = Some m' \<Longrightarrow>
    sm_run (rs @ [si]) ds m'"
| run_deq: "sm_run rs ds m \<Longrightarrow> dequeue_one m = Some (Some s, m') \<Longrightarrow> sm_run rs (ds @ [s]) m'"
| run_mask: "sm_run rs ds m \<Longrightarrow> sm_run rs ds (m\<lparr>blocked_sigs := b\<rparr>)"



lemma find_remove_first:
  "find P xs = Some x \<Longrightarrow> \<exists>bs rest. xs = bs @ x # rest \<and> remove_first P xs = bs @ rest \<and> P x"
  by (induction xs) (auto split: if_splits intro: exI [of _ "[]"] exI [of _ "_ # _"], metis append_Cons)

lemma rt_expected_split:
  assumes "bt_wf m" "rt_expected e m = Some (k, q)"
  shows "\<exists>pre s q' post. m = pre @ (k, s # q') # post \<and> q = s # q' \<and> contain_sig e k \<and>
    bt_get_mut k tl m = pre @ (k, q') # post"
proof -
  from assms(2) have "(k, q) \<in> set m" "contain_sig e k" "q \<noteq> []"
    by (auto simp: rt_expected_def dest!: find_SomeD)
  then obtain pre post s q' where m: "m = pre @ (k, q) # post" "q = s # q'" by (metis list.exhaust split_list)
  have "(k, b) \<notin> set pre \<union> set post" for b using assms(1) m by (fastforce simp: bt_wf_append)
  then have "bt_get_mut k tl pre = pre" "bt_get_mut k tl post = post"
    by (auto simp: bt_get_mut_def intro!: map_idI)
  then show ?thesis using m \<open>contain_sig e k\<close> by (auto simp: bt_get_mut_def)
qed

text \<open>
  C38. Waiting for a set of signals is consistent. On a well-formed manager the flag, the
  peek and the removal agree: \<^verbatim>\<open>check_pending_flag\<close> holds exactly when \<^verbatim>\<open>check_pending\<close> finds a
  signal, which is exactly the one \<^verbatim>\<open>dequeue_expected_one\<close> would remove; that signal is in the
  expected set, it is removed once, and the manager stays well-formed. Both return nothing
  exactly when no pending signal is expected.
\<close>

theorem expected_signal_consistent:
  assumes ok: "sm_ok m"
  shows "check_pending_flag e m = (check_pending e m \<noteq> None) \<and>
    fst (dequeue_expected_one e m) = check_pending e m \<and> sm_ok (snd (dequeue_expected_one e m)) \<and>
    (case check_pending e m of
       None \<Rightarrow> (\<forall>s \<in> set (pend m). \<not> contain_sig e (si_signo s)) \<and> snd (dequeue_expected_one e m) = m
     | Some s \<Rightarrow> contain_sig e (si_signo s) \<and>
         mset (pend m) = add_mset s (mset (pend (snd (dequeue_expected_one e m)))))"
proof (cases "bitmap m AND e = 0")
  case True
  have std: "\<not> contain_sig e (si_signo s)" if "s \<in> set (pending_sigs m)" for s
  proof
    assume "contain_sig e (si_signo s)"
    then have "bit (bitmap m AND e) (sig_bit (si_signo s))"
      using that by (auto simp: contain_sig_bit bit_and_iff sm_okD(4) [OF ok])
    then show False using True by simp
  qed
  show ?thesis
  proof (cases "rt_expected e (pending_rt_sigs m)")
    case None
    then have "\<not> contain_sig e (si_signo s)" if "(k, q) \<in> set (pending_rt_sigs m)" "s \<in> set q" for k q s
      using that sm_okD(6) [OF ok that(1)] by (fastforce simp: rt_expected_def find_None_iff)
    then show ?thesis using True None std ok
      by (auto simp: check_pending_flag_def check_pending_def dequeue_expected_one_def pend_def)
  next
    case (Some kq)
    obtain k q where kq: "kq = (k, q)" by force
    from rt_expected_split [OF sm_okD(5) [OF ok]] Some kq obtain pre s q' post where
      sp: "pending_rt_sigs m = pre @ (k, s # q') # post" "q = s # q'" "contain_sig e k"
        "bt_get_mut k tl (pending_rt_sigs m) = pre @ (k, q') # post" by blast
    have "si_signo s = k" using sm_okD(6) [OF ok, of k "s # q'"] sp(1) by simp
    moreover have "dequeue_expected_one e m = (Some s, m\<lparr>pending_rt_sigs := pre @ (k, q') # post\<rparr>)"
      using True Some kq sp(2) by (simp add: dequeue_expected_one_def sp(4))
    moreover have "check_pending e m = Some s" "check_pending_flag e m"
      using True Some kq sp(2) by (simp_all add: check_pending_def check_pending_flag_def)
    moreover have "mset (pend m) = add_mset s (mset (pend (m\<lparr>pending_rt_sigs := pre @ (k, q') # post\<rparr>)))"
      by (simp add: pend_def sp(1))
    ultimately show ?thesis using sp(3) rt_pop_ok [OF ok sp(1)] by simp
  qed
next
  case False
  then obtain n where n: "bit (bitmap m) n" "bit e n" by (auto simp: bit_eq_iff bit_and_iff)
  then obtain t where t: "t \<in> set (pending_sigs m)" "n = sig_bit (si_signo t)" using sm_okD(4) [OF ok] by blast
  let ?P = "\<lambda>s. contain_sig (bitmap m AND e) (si_signo s)"
  have "?P t" using n t by (simp add: contain_sig_bit bit_and_iff)
  then obtain s where s: "find ?P (pending_sigs m) = Some s" using t(1) by (metis find_None_iff not_Some_eq)
  from find_remove_first [OF s] obtain bs rest where
    p: "pending_sigs m = bs @ s # rest" "remove_first ?P (pending_sigs m) = bs @ rest" "?P s" by blast
  have "sm_ok (m\<lparr>pending_sigs := bs @ rest, bitmap := remove_sig (si_signo s) (bitmap m)\<rparr>)"
    by (rule remove_std_ok [OF ok p(1)]) simp
  moreover have "contain_sig e (si_signo s)" using p(3) by (simp add: contain_sig_bit bit_and_iff)
  moreover have "dequeue_expected_one e m =
      (Some s, m\<lparr>pending_sigs := bs @ rest, bitmap := remove_sig (si_signo s) (bitmap m)\<rparr>)"
    using False s p(2) by (simp add: dequeue_expected_one_def)
  moreover have "check_pending e m = Some s" "check_pending_flag e m"
    using False s by (simp_all add: check_pending_def check_pending_flag_def)
  moreover have "mset (pend m) =
      add_mset s (mset (pend (m\<lparr>pending_sigs := bs @ rest, bitmap := remove_sig (si_signo s) (bitmap m)\<rparr>)))"
    by (simp add: pend_def p(1))
  ultimately show ?thesis by simp
qed

theorem expected_signal_consistent_witness:
  "check_pending_flag 0 sm_new = (check_pending 0 sm_new \<noteq> None) \<and> snd (dequeue_expected_one 0 sm_new) = sm_new"
  using expected_signal_consistent [OF sm_ok_new, of 0] by (simp add: check_pending_def sm_new_def rt_expected_def)

lemma fold_reset:
  assumes "length hs = 65" "b \<le> 64"
  shows "length (fold reset_one [1 ..< b] hs) = 65 \<and>
    (\<forall>n \<le> 64. fold reset_one [1 ..< b] hs ! n =
       (if 1 \<le> n \<and> n < b \<and> sa_handler (sa (hs ! n)) \<noteq> Ign_Handler then the (ksig_new n False) else hs ! n))"
  using assms(2)
proof (induction b)
  case (Suc b)
  show ?case
  proof (cases "b = 0")
    case False
    define f where "f = fold reset_one [1 ..< b] hs"
    have IH: "length f = 65" "\<And>n. n \<le> 64 \<Longrightarrow> f ! n =
        (if 1 \<le> n \<and> n < b \<and> sa_handler (sa (hs ! n)) \<noteq> Ign_Handler then the (ksig_new n False) else hs ! n)"
      using Suc unfolding f_def by simp_all
    have g: "fold reset_one [1 ..< Suc b] hs = reset_one b f" using False by (simp add: f_def)
    have b: "f ! b = hs ! b" using IH(2) [of b] Suc.prems by simp
    have "length (reset_one b f) = 65" using IH(1) by (simp add: reset_one_def)
    moreover have "reset_one b f ! n =
        (if 1 \<le> n \<and> n < Suc b \<and> sa_handler (sa (hs ! n)) \<noteq> Ign_Handler then the (ksig_new n False) else hs ! n)"
      if "n \<le> 64" for n
      using IH(1) IH(2) [OF that] b False that by (cases "n = b") (auto simp: reset_one_def nth_list_update)
    ultimately show ?thesis by (simp only: g) blast
  qed (use assms in simp)
qed (use assms in simp)

text \<open>
  \<^verbatim>\<open>exec\<close> resets the disposition of every handled signal from 1 to 63 to its default and
  leaves ignored signals ignored, the mask and what is pending unchanged. The highest
  real-time signal, 64, is not reset: the loop stops before \<^verbatim>\<open>SIGRTMAX\<close>, so a handler address
  of the old image survives there.
\<close>

theorem reset_on_exec_correct:
  assumes ok: "sm_ok m"
  shows "sm_ok (reset_on_exec m) \<and> pend (reset_on_exec m) = pend m \<and> blocked_sigs (reset_on_exec m) = blocked_sigs m \<and>
    (\<forall>n. 1 \<le> n \<and> n < SIGRTMAX \<longrightarrow> sig_handler (reset_on_exec m) ! n =
      (if sa_handler (sa (sig_handler m ! n)) = Ign_Handler then sig_handler m ! n else the (ksig_new n False))) \<and>
    sig_handler (reset_on_exec m) ! SIGRTMAX = sig_handler m ! SIGRTMAX"
proof -
  have l: "length (sig_handler m) = 65" using sm_okD(1) [OF ok] by (simp add: sig_nums)
  note R = fold_reset [OF l order_refl]
  have e: "reset_on_exec m = m\<lparr>sig_handler := fold reset_one [1 ..< 64] (sig_handler m)\<rparr>"
    by (simp add: reset_on_exec_def sig_nums del: upt_Suc)
  have "sm_ok (reset_on_exec m)" using ok R l by (simp add: sm_ok_def e sig_nums)
  then show ?thesis using R by (auto simp: e pend_def sig_nums)
qed

theorem reset_on_exec_correct_witness:
  "sa_handler (sa (sig_handler (reset_on_exec (sm_set_sigaction 64
     \<lparr>sa = \<lparr>sa_handler = User_Handler 0x1000, sa_flags = 0, sa_restorer = 0, sa_mask = 0\<rparr>, is_user = True\<rparr> sm_new)) ! SIGRTMAX)) =
   User_Handler 0x1000"
proof -
  let ?a = "\<lparr>sa = \<lparr>sa_handler = User_Handler 0x1000, sa_flags = 0, sa_restorer = 0, sa_mask = 0\<rparr>, is_user = True\<rparr>"
  have "sm_ok (sm_set_sigaction 64 ?a sm_new)"
    using sm_ok_new by (simp add: sm_ok_def sm_set_sigaction_def sig_nums)
  moreover have "length (sig_handler sm_new) = 65" by (simp add: sm_new_def sig_nums del: upt_Suc)
  ultimately show ?thesis using reset_on_exec_correct [of "sm_set_sigaction 64 ?a sm_new"]
    by (simp add: sm_set_sigaction_def sig_nums)
qed

end
