(* ===== verification/Fd_Table.thy ===== *)
theory Fd_Table
  imports Sys_Error
begin

text \<open>
  File descriptors: the open flags of \<^verbatim>\<open>os/src/fs/mod.rs\<close>, the descriptor table of
  \<^verbatim>\<open>os/src/task/fs.rs\<close> and the system calls of \<^verbatim>\<open>os/src/syscall/fs.rs\<close> and
  \<^verbatim>\<open>os/src/syscall/misc.rs\<close> that only work on it: \<^verbatim>\<open>dup\<close>, \<^verbatim>\<open>dup3\<close>, \<^verbatim>\<open>close\<close>, \<^verbatim>\<open>fcntl\<close>,
  \<^verbatim>\<open>pipe2\<close> and the descriptor limit of \<^verbatim>\<open>prlimit64\<close>. A file (\<^verbatim>\<open>Arc<dyn File>\<close>) is an
  identity, because descriptors share it; its status flags are kept in a store. Descriptors
  are \<open>nat\<close>, below \<open>2 ^ 64\<close>; growing a table to \<open>2 ^ 63\<close> bytes or more (an entry takes 24)
  panics with a capacity overflow.
\<close>

unbundle bit_operations_syntax

section \<open>Open flags\<close>

type_synonym open_flags = "32 word"
type_synonym fd_flags = "8 word"

definition contains :: "'a::len word \<Rightarrow> 'a word \<Rightarrow> bool" where
  "contains fs f \<longleftrightarrow> fs AND f = f"

definition O_WRONLY :: open_flags where "O_WRONLY = 1"
definition O_RDWR :: open_flags where "O_RDWR = 2"
definition O_ACCMODE :: open_flags where "O_ACCMODE = 3"
definition O_CLOEXEC :: open_flags where "O_CLOEXEC = 0x80000"

text \<open>The union of all flags: bits 0, 1 and 6 to 22.\<close>

definition OF_ALL :: open_flags where
  "OF_ALL = 1 OR 2 OR 3 OR 0x40 OR 0x80 OR 0x100 OR 0x200 OR 0x400 OR 0x800 OR 0x1000 OR 0x101000 OR
     0x10000 OR 0x20000 OR 0x80000 OR 0x2000 OR 0x4000 OR 0x8000 OR 0x40000 OR 0x200000 OR 0x410000"

definition CREATION_FLAGS :: open_flags where
  "CREATION_FLAGS = 0x80000 OR 0x40 OR 0x10000 OR 0x80 OR 0x100 OR 0x20000 OR 0x410000 OR 0x200"

definition of_from_bits :: "open_flags \<Rightarrow> open_flags option" where
  "of_from_bits b = (if b AND NOT OF_ALL = 0 then Some b else None)"

definition of_from_bits_truncate :: "open_flags \<Rightarrow> open_flags" where
  "of_from_bits_truncate b = b AND OF_ALL"

definition read_write :: "open_flags \<Rightarrow> bool \<times> bool" where
  "read_write fs = (if fs = 0 then (True, False) else if contains fs O_WRONLY then (False, True) else (True, True))"

definition readable :: "open_flags \<Rightarrow> bool" where
  "readable fs \<longleftrightarrow> \<not> contains fs O_WRONLY \<or> contains fs O_RDWR"

definition writable :: "open_flags \<Rightarrow> bool" where
  "writable fs \<longleftrightarrow> contains fs O_WRONLY \<or> contains fs O_RDWR"

definition access_mode :: "open_flags \<Rightarrow> open_flags" where
  "access_mode fs = fs AND O_ACCMODE"

definition status :: "open_flags \<Rightarrow> open_flags" where
  "status fs = (fs AND NOT O_ACCMODE) AND NOT CREATION_FLAGS"

definition CLOEXEC :: fd_flags where "CLOEXEC = 1"

definition fd_flags_from :: "open_flags \<Rightarrow> fd_flags" where
  "fd_flags_from v = (if contains v O_CLOEXEC then CLOEXEC else 0)"

section \<open>The descriptor table\<close>

type_synonym fid = nat

record fd_info =
  fi_file :: fid
  fi_flags :: fd_flags

record rlimit =
  rlim_cur :: nat
  rlim_max :: nat

record fdt =
  fd_table :: "fd_info option list"
  fd_rlimit :: rlimit

definition MAX_FDS :: nat where "MAX_FDS = 1024"

definition fdt_new :: "fid \<Rightarrow> fdt" where
  "fdt_new tty =
     \<lparr>fd_table = [Some \<lparr>fi_file = tty, fi_flags = 0\<rparr>, Some \<lparr>fi_file = tty, fi_flags = 0\<rparr>, Some \<lparr>fi_file = tty, fi_flags = 0\<rparr>],
      fd_rlimit = \<lparr>rlim_cur = MAX_FDS, rlim_max = MAX_FDS\<rparr>\<rparr>"

text \<open>\<^verbatim>\<open>Vec::resize(n, None)\<close>.\<close>

definition vec_resize :: "nat \<Rightarrow> fd_info option list \<Rightarrow> fd_info option list option" where
  "vec_resize n xs = (if 2 ^ 63 \<le> n * 24 then panic else Some (take n xs @ replicate (n - length xs) None))"

definition first_free :: "nat \<Rightarrow> fd_info option list \<Rightarrow> nat option" where
  "first_free b xs = find (\<lambda>fd. xs ! fd = None) [b ..< length xs]"

definition alloc_fd :: "fdt \<Rightarrow> nat sys_result \<times> fdt" where
  "alloc_fd t =
     (case first_free 0 (fd_table t) of
        Some fd \<Rightarrow> (Ok fd, t)
      | None \<Rightarrow>
          if length (fd_table t) < rlim_max (fd_rlimit t) then
            (Ok (length (fd_table t)), t\<lparr>fd_table := fd_table t @ [None]\<rparr>)
          else (Err EMFILE, t))"

definition alloc_fd_from :: "nat \<Rightarrow> fdt \<Rightarrow> (nat sys_result \<times> fdt) option" where
  "alloc_fd_from bound t =
     (if rlim_max (fd_rlimit t) < bound then Some (Err EMFILE, t)
      else do {
        tbl \<leftarrow> (if length (fd_table t) \<le> bound then vec_resize ((bound + 1) mod 2 ^ 64) (fd_table t)
                else Some (fd_table t));
        Some (case first_free bound tbl of
            Some fd \<Rightarrow> (Ok fd, t\<lparr>fd_table := tbl\<rparr>)
          | None \<Rightarrow>
              if length tbl < rlim_max (fd_rlimit t) then (Ok (length tbl), t\<lparr>fd_table := tbl @ [None]\<rparr>)
              else (Err EMFILE, t\<lparr>fd_table := tbl\<rparr>)) })"

definition get_fd_info :: "nat \<Rightarrow> fdt \<Rightarrow> fd_info sys_result" where
  "get_fd_info fd t =
     (if length (fd_table t) \<le> fd then Err EBADF
      else case fd_table t ! fd of Some i \<Rightarrow> Ok i | None \<Rightarrow> Err EBADF)"

text \<open>\<^verbatim>\<open>get_mut_fd_info\<close> hands out a mutable reference: the update is an argument here.\<close>

definition get_mut_fd_info :: "nat \<Rightarrow> (fd_info \<Rightarrow> fd_info) \<Rightarrow> fdt \<Rightarrow> unit sys_result \<times> fdt" where
  "get_mut_fd_info fd upd t =
     (if length (fd_table t) \<le> fd then (Err EBADF, t)
      else case fd_table t ! fd of
          Some i \<Rightarrow> (Ok (), t\<lparr>fd_table := (fd_table t)[fd := Some (upd i)]\<rparr>)
        | None \<Rightarrow> (Err EBADF, t))"

definition get_file :: "nat \<Rightarrow> fdt \<Rightarrow> fid sys_result" where
  "get_file fd t =
     (if length (fd_table t) \<le> fd then Err EBADF
      else case fd_table t ! fd of Some i \<Rightarrow> Ok (fi_file i) | None \<Rightarrow> Err EBADF)"

definition put_file :: "nat \<Rightarrow> fd_info \<Rightarrow> fdt \<Rightarrow> unit sys_result \<times> fdt" where
  "put_file fd i t =
     (if length (fd_table t) \<le> fd then (Err EBADF, t)
      else (Ok (), t\<lparr>fd_table := (fd_table t)[fd := Some i]\<rparr>))"

definition remove_fd :: "nat \<Rightarrow> fdt \<Rightarrow> unit sys_result \<times> fdt" where
  "remove_fd fd t =
     (if length (fd_table t) \<le> fd then (Err EBADF, t)
      else if fd_table t ! fd = None then (Err EBADF, t)
      else (Ok (), t\<lparr>fd_table := (fd_table t)[fd := None]\<rparr>))"

text \<open>The two operations that take a slot and fill it, and the final assertion of the first.\<close>

definition alloc_and_put :: "nat \<Rightarrow> fd_info \<Rightarrow> fdt \<Rightarrow> (nat sys_result \<times> fdt) option" where
  "alloc_and_put bound i t = do {
     (r, t') \<leftarrow> alloc_fd_from bound t;
     Some (case r of
         Inl e \<Rightarrow> (Err e, t')
       | Inr new_fd \<Rightarrow> (case put_file new_fd i t' of (Inl e, t'') \<Rightarrow> (Err e, t'') | (Inr _, t'') \<Rightarrow> (Ok new_fd, t''))) }"

definition dup_with_bound :: "nat \<Rightarrow> nat \<Rightarrow> fd_flags \<Rightarrow> fdt \<Rightarrow> (nat sys_result \<times> fdt) option" where
  "dup_with_bound old_fd bound flags t =
     (case get_file old_fd t of
        Inl e \<Rightarrow> Some (Err e, t)
      | Inr file \<Rightarrow> do {
          (r, t') \<leftarrow> alloc_and_put bound \<lparr>fi_file = file, fi_flags = flags\<rparr> t;
          (case r of
             Inl e \<Rightarrow> Some (Err e, t')
           | Inr new_fd \<Rightarrow> do { assert_that (bound \<le> new_fd); Some (Ok new_fd, t') }) })"

definition dup_no_flag :: "nat \<Rightarrow> fdt \<Rightarrow> (nat sys_result \<times> fdt) option" where
  "dup_no_flag old_fd t =
     (case get_file old_fd t of
        Inl e \<Rightarrow> Some (Err e, t)
      | Inr file \<Rightarrow> alloc_and_put 0 \<lparr>fi_file = file, fi_flags = 0\<rparr> t)"

definition place_at :: "nat \<Rightarrow> fd_info \<Rightarrow> fdt \<Rightarrow> (nat sys_result \<times> fdt) option" where
  "place_at new_fd i t =
     (if length (fd_table t) \<le> new_fd \<and> 2 ^ 64 \<le> new_fd + 1 then Some (Err EMFILE, t)
      else do {
        tbl \<leftarrow> (if length (fd_table t) \<le> new_fd then vec_resize (new_fd + 1) (fd_table t) else Some (fd_table t));
        Some (Ok new_fd, t\<lparr>fd_table := tbl[new_fd := Some i]\<rparr>) })"

definition dup3 :: "nat \<Rightarrow> nat \<Rightarrow> fd_flags \<Rightarrow> fdt \<Rightarrow> (nat sys_result \<times> fdt) option" where
  "dup3 old_fd new_fd flags t =
     (case get_file old_fd t of
        Inl e \<Rightarrow> Some (Err e, t)
      | Inr file \<Rightarrow> place_at new_fd \<lparr>fi_file = file, fi_flags = flags\<rparr> t)"

definition dup3_with_flags :: "nat \<Rightarrow> nat \<Rightarrow> fdt \<Rightarrow> (nat sys_result \<times> fdt) option" where
  "dup3_with_flags old_fd new_fd t =
     (case get_fd_info old_fd t of Inl e \<Rightarrow> Some (Err e, t) | Inr i \<Rightarrow> place_at new_fd i t)"

definition set_rlimit :: "rlimit \<Rightarrow> fdt \<Rightarrow> fdt" where
  "set_rlimit l t =
     (let t' = t\<lparr>fd_rlimit := l\<rparr> in
      if rlim_max l \<le> length (fd_table t') then t'\<lparr>fd_table := take (rlim_max l) (fd_table t')\<rparr> else t')"

definition do_close_on_exec :: "fdt \<Rightarrow> fdt" where
  "do_close_on_exec t =
     t\<lparr>fd_table := map (\<lambda>e. case e of Some i \<Rightarrow> if contains (fi_flags i) CLOEXEC then None else Some i | None \<Rightarrow> None)
        (fd_table t)\<rparr>"

section \<open>System calls on descriptors\<close>

definition sys_dup :: "nat \<Rightarrow> fdt \<Rightarrow> (nat sys_result \<times> fdt) option" where
  "sys_dup old_fd t = dup_no_flag old_fd t"

definition sys_dup3 :: "nat \<Rightarrow> nat \<Rightarrow> open_flags \<Rightarrow> fdt \<Rightarrow> (nat sys_result \<times> fdt) option" where
  "sys_dup3 old_fd new_fd flags t =
     (case of_from_bits flags of
        None \<Rightarrow> Some (Err EINVAL, t)
      | Some fl \<Rightarrow>
          if old_fd = new_fd then Some (Err EINVAL, t) else dup3 old_fd new_fd (fd_flags_from fl) t)"

definition sys_close :: "nat \<Rightarrow> fdt \<Rightarrow> nat sys_result \<times> fdt" where
  "sys_close fd t =
     (if 2 ^ 63 \<le> fd then (Err EBADF, t)
      else case remove_fd fd t of (Inl e, t') \<Rightarrow> (Err e, t') | (Inr _, t') \<Rightarrow> (Ok 0, t'))"

text \<open>
  \<^verbatim>\<open>pipe2\<close> on the descriptor table. The two files are the ends \<^verbatim>\<open>make_pipe\<close> returned; an
  unknown flag panics, an error after the first descriptor leaves it open.
\<close>

definition open_file :: "fid \<Rightarrow> fd_flags \<Rightarrow> fdt \<Rightarrow> nat sys_result \<times> fdt" where
  "open_file file flags t =
     (case alloc_fd t of
        (Inl e, t') \<Rightarrow> (Err e, t')
      | (Inr fd, t') \<Rightarrow>
          (case put_file fd \<lparr>fi_file = file, fi_flags = flags\<rparr> t' of
             (Inl e, t'') \<Rightarrow> (Err e, t'') | (Inr _, t'') \<Rightarrow> (Ok fd, t'')))"

definition sys_pipe2 :: "open_flags \<Rightarrow> fid \<Rightarrow> fid \<Rightarrow> fdt \<Rightarrow> ((nat \<times> nat) sys_result \<times> fdt) option" where
  "sys_pipe2 flags read_file write_file t = do {
     fl \<leftarrow> of_from_bits flags;
     Some (case open_file read_file (fd_flags_from fl) t of
         (Inl e, t') \<Rightarrow> (Err e, t')
       | (Inr rfd, t') \<Rightarrow>
           (case open_file write_file (fd_flags_from fl) t' of
              (Inl e, t'') \<Rightarrow> (Err e, t'') | (Inr wfd, t'') \<Rightarrow> (Ok (rfd, wfd), t''))) }"

datatype fcntl_op = F_DUPFD | F_DUPFD_CLOEXEC | F_GETFD | F_SETFD | F_GETFL | F_SETFL | F_UNIMPL

text \<open>\<^verbatim>\<open>FcntlOp::from_repr(op).unwrap_or_default()\<close>; \<^verbatim>\<open>F_UNIMPL\<close> follows \<^verbatim>\<open>F_SETFL = 4\<close>.\<close>

definition fcntl_op_from :: "int \<Rightarrow> fcntl_op" where
  "fcntl_op_from op =
     (if op = 0 then F_DUPFD else if op = 1030 then F_DUPFD_CLOEXEC else if op = 1 then F_GETFD
      else if op = 2 then F_SETFD else if op = 3 then F_GETFL else if op = 4 then F_SETFL else F_UNIMPL)"

text \<open>
  \<^verbatim>\<open>fcntl\<close> works on the table and on the flags of the open files; the argument is truncated
  to the width of \<^verbatim>\<open>i32\<close> where it is read as flags.
\<close>

definition sys_fcntl ::
  "nat \<Rightarrow> int \<Rightarrow> nat \<Rightarrow> fdt \<times> (fid \<Rightarrow> open_flags) \<Rightarrow> (nat sys_result \<times> fdt \<times> (fid \<Rightarrow> open_flags)) option" where
  "sys_fcntl fd op arg s =
     (let (t, fl) = s in
      case fcntl_op_from op of
        F_DUPFD \<Rightarrow> do { (r, t') \<leftarrow> dup_with_bound fd arg (fd_flags_from 0) t; Some (r, t', fl) }
      | F_DUPFD_CLOEXEC \<Rightarrow> do { (r, t') \<leftarrow> dup_with_bound fd arg (fd_flags_from O_CLOEXEC) t; Some (r, t', fl) }
      | F_GETFD \<Rightarrow>
          (case get_fd_info fd t of Inl e \<Rightarrow> Some (Err e, s) | Inr i \<Rightarrow> Some (Ok (unat (fi_flags i)), s))
      | F_SETFD \<Rightarrow>
          (let a = of_from_bits_truncate (of_nat arg) in
           case get_mut_fd_info fd (fi_flags_update (\<lambda>_. fd_flags_from a)) t of
             (Inl e, t') \<Rightarrow> Some (Err e, t', fl) | (Inr _, t') \<Rightarrow> Some (Ok 0, t', fl))
      | F_GETFL \<Rightarrow> (case get_file fd t of Inl e \<Rightarrow> Some (Err e, s) | Inr f \<Rightarrow> Some (Ok (unat (fl f)), s))
      | F_SETFL \<Rightarrow>
          (case get_file fd t of
             Inl e \<Rightarrow> Some (Err e, s)
           | Inr f \<Rightarrow> Some (Ok 0, t, fl(f := status (of_from_bits_truncate (of_nat arg)))))
      | F_UNIMPL \<Rightarrow> Some (Ok 0, s))"

section \<open>The table as a map from descriptors\<close>

definition fd_at :: "fdt \<Rightarrow> nat \<Rightarrow> fd_info option" where
  "fd_at t fd = (if fd < length (fd_table t) then fd_table t ! fd else None)"

text \<open>Descriptors stay below the limit, and the limit is one a table can reach.\<close>

definition fdt_ok :: "fdt \<Rightarrow> bool" where
  "fdt_ok t \<longleftrightarrow> length (fd_table t) \<le> rlim_max (fd_rlimit t) \<and> (rlim_max (fd_rlimit t) + 1) * 24 < 2 ^ 63"

lemma get_file_eq: "get_file fd t = (case fd_at t fd of Some i \<Rightarrow> Ok (fi_file i) | None \<Rightarrow> Err EBADF)"
  by (simp add: get_file_def fd_at_def)

lemma get_fd_info_eq: "get_fd_info fd t = (case fd_at t fd of Some i \<Rightarrow> Ok i | None \<Rightarrow> Err EBADF)"
  by (simp add: get_fd_info_def fd_at_def)

lemma fd_at_append_None [simp]: "fd_at (t\<lparr>fd_table := fd_table t @ replicate n None\<rparr>) = fd_at t"
  by (auto simp: fd_at_def nth_append fun_eq_iff)

lemma fd_at_update: "fd < length (fd_table t) \<Longrightarrow> fd_at (t\<lparr>fd_table := (fd_table t)[fd := e]\<rparr>) = (fd_at t)(fd := e)"
  by (auto simp: fd_at_def nth_list_update)

lemma find_upt:
  "find P [b ..< n] = Some k \<longleftrightarrow> b \<le> k \<and> k < n \<and> P k \<and> (\<forall>j. b \<le> j \<and> j < k \<longrightarrow> \<not> P j)"
proof (induction "n - b" arbitrary: b)
  case (Suc m)
  then have "b < n" by simp
  have IH: "find P [Suc b ..< n] = Some k \<longleftrightarrow> Suc b \<le> k \<and> k < n \<and> P k \<and> (\<forall>j. Suc b \<le> j \<and> j < k \<longrightarrow> \<not> P j)"
    using Suc.hyps(1) [of "Suc b"] Suc.hyps(2) by simp
  show ?case
  proof (cases "P b")
    case True
    then show ?thesis using \<open>b < n\<close> by (auto simp: upt_conv_Cons)
  next
    case False
    then have "(Suc b \<le> k \<and> P k \<and> (\<forall>j. Suc b \<le> j \<and> j < k \<longrightarrow> \<not> P j)) \<longleftrightarrow>
        (b \<le> k \<and> P k \<and> (\<forall>j. b \<le> j \<and> j < k \<longrightarrow> \<not> P j))"
      by (metis Suc_leI le_eq_less_or_eq less_eq_Suc_le)
    then show ?thesis using IH \<open>b < n\<close> False by (auto simp: upt_conv_Cons)
  qed
qed auto

lemma first_free_Some:
  "first_free b (fd_table t) = Some fd \<longleftrightarrow>
     b \<le> fd \<and> fd < length (fd_table t) \<and> fd_at t fd = None \<and> (\<forall>k. b \<le> k \<and> k < fd \<longrightarrow> fd_at t k \<noteq> None)"
  unfolding first_free_def find_upt by (auto simp: fd_at_def)

lemma first_free_None:
  "first_free b (fd_table t) = None \<longleftrightarrow> (\<forall>k. b \<le> k \<and> k < length (fd_table t) \<longrightarrow> fd_at t k \<noteq> None)"
  unfolding first_free_def find_None_iff by (auto simp: fd_at_def)

text \<open>Allocation hands out the lowest free descriptor from the bound on and opens nothing.\<close>

definition lowest_free :: "nat \<Rightarrow> fdt \<Rightarrow> nat \<Rightarrow> bool" where
  "lowest_free b t fd \<longleftrightarrow> b \<le> fd \<and> fd_at t fd = None \<and> (\<forall>k. b \<le> k \<and> k < fd \<longrightarrow> fd_at t k \<noteq> None)"

definition none_free :: "nat \<Rightarrow> fdt \<Rightarrow> bool" where
  "none_free b t \<longleftrightarrow> (\<forall>k. b \<le> k \<and> k < rlim_max (fd_rlimit t) \<longrightarrow> fd_at t k \<noteq> None)"

lemma take_slot:
  assumes ok: "fdt_ok t" and len: "b < length (fd_table t) \<or> b = 0"
    and r: "(r, t') = (case first_free b (fd_table t) of
        Some fd \<Rightarrow> (Ok fd, t)
      | None \<Rightarrow> if length (fd_table t) < rlim_max (fd_rlimit t)
          then (Ok (length (fd_table t)), t\<lparr>fd_table := fd_table t @ [None]\<rparr>) else (Err EMFILE, t))"
  shows "fdt_ok t' \<and> fd_rlimit t' = fd_rlimit t \<and> fd_at t' = fd_at t \<and>
    (case r of Inr fd \<Rightarrow> lowest_free b t fd \<and> fd < length (fd_table t')
     | Inl e \<Rightarrow> e = EMFILE \<and> none_free b t)"
proof (cases "first_free b (fd_table t)")
  case (Some fd)
  with r have "r = Ok fd" "t' = t" by simp_all
  with Some [unfolded first_free_Some] ok show ?thesis by (simp add: lowest_free_def)
next
  case None
  have app: "fd_at (t\<lparr>fd_table := fd_table t @ [None]\<rparr>) = fd_at t" using fd_at_append_None [of t 1] by simp
  have "fd_at t (length (fd_table t)) = None" by (simp add: fd_at_def)
  with None [unfolded first_free_None] ok len app show ?thesis
    using r [unfolded None option.case] by (auto simp: lowest_free_def none_free_def fdt_ok_def split: if_splits)
qed

lemma alloc_fd_spec:
  assumes "fdt_ok t" "alloc_fd t = (r, t')"
  shows "fdt_ok t' \<and> fd_rlimit t' = fd_rlimit t \<and> fd_at t' = fd_at t \<and>
    (case r of Inr fd \<Rightarrow> lowest_free 0 t fd \<and> fd < length (fd_table t') | Inl e \<Rightarrow> e = EMFILE \<and> none_free 0 t)"
  by (rule take_slot) (use assms in \<open>simp_all add: alloc_fd_def\<close>)

lemma alloc_fd_from_spec:
  assumes ok: "fdt_ok t" and b: "bound < rlim_max (fd_rlimit t)"
  shows "\<exists>r t'. alloc_fd_from bound t = Some (r, t') \<and> fdt_ok t' \<and> fd_rlimit t' = fd_rlimit t \<and> fd_at t' = fd_at t \<and>
    (case r of Inr fd \<Rightarrow> lowest_free bound t fd \<and> fd < length (fd_table t') | Inl e \<Rightarrow> e = EMFILE \<and> none_free bound t)"
proof -
  define t1 where "t1 = (if length (fd_table t) \<le> bound
    then t\<lparr>fd_table := fd_table t @ replicate (bound + 1 - length (fd_table t)) None\<rparr> else t)"
  have sz: "(bound + 1) * 24 < 2 ^ 63" "(bound + 1) mod 2 ^ 64 = bound + 1" using ok b by (auto simp: fdt_ok_def)
  have t1: "fdt_ok t1" "bound < length (fd_table t1)" "fd_at t1 = fd_at t" "fd_rlimit t1 = fd_rlimit t"
    using ok b by (auto simp: t1_def fdt_ok_def)
  have lf: "lowest_free bound t1 = lowest_free bound t" "none_free bound t1 = none_free bound t"
    by (simp_all add: lowest_free_def none_free_def t1(3,4) fun_eq_iff)
  obtain r t' where rt: "(r, t') = (case first_free bound (fd_table t1) of
        Some fd \<Rightarrow> (Ok fd, t1)
      | None \<Rightarrow> if length (fd_table t1) < rlim_max (fd_rlimit t1)
          then (Ok (length (fd_table t1)), t1\<lparr>fd_table := fd_table t1 @ [None]\<rparr>) else (Err EMFILE, t1))"
    by (metis prod.exhaust)
  have tbl: "(if length (fd_table t) \<le> bound then vec_resize ((bound + 1) mod 2 ^ 64) (fd_table t) else Some (fd_table t))
      = Some (fd_table t1)" and upd: "t\<lparr>fd_table := fd_table t1\<rparr> = t1"
    using sz by (auto simp: t1_def vec_resize_def)
  have "alloc_fd_from bound t = Some (r, t')"
  proof -
    have "t\<lparr>fd_table := fd_table t1 @ [None]\<rparr> = t1\<lparr>fd_table := fd_table t1 @ [None]\<rparr>" by (simp add: t1_def)
    then show ?thesis using b upd by (simp add: alloc_fd_from_def tbl rt t1(4) split: option.splits)
  qed
  with take_slot [OF t1(1) _ rt, unfolded lf] t1 show ?thesis by simp
qed

lemma put_file_spec:
  "fd < length (fd_table t) \<Longrightarrow> put_file fd i t = (Ok (), t\<lparr>fd_table := (fd_table t)[fd := Some i]\<rparr>)"
  by (simp add: put_file_def)

lemma fdt_ok_update [simp]: "fdt_ok (t\<lparr>fd_table := (fd_table t)[fd := e]\<rparr>) = fdt_ok t"
  by (simp add: fdt_ok_def)

lemma alloc_and_put_spec:
  assumes "fdt_ok t" "bound < rlim_max (fd_rlimit t)"
  shows "\<exists>r t'. alloc_and_put bound i t = Some (r, t') \<and> fdt_ok t' \<and> fd_rlimit t' = fd_rlimit t \<and>
    (case r of Inr fd \<Rightarrow> lowest_free bound t fd \<and> fd_at t' = (fd_at t)(fd \<mapsto> i)
     | Inl e \<Rightarrow> e = EMFILE \<and> none_free bound t \<and> fd_at t' = fd_at t)"
proof -
  from alloc_fd_from_spec [OF assms] obtain r t' where
    a: "alloc_fd_from bound t = Some (r, t')" "fdt_ok t'" "fd_rlimit t' = fd_rlimit t" "fd_at t' = fd_at t"
      "case r of Inr fd \<Rightarrow> lowest_free bound t fd \<and> fd < length (fd_table t') | Inl e \<Rightarrow> e = EMFILE \<and> none_free bound t"
    by blast
  show ?thesis
  proof (cases r)
    case (Inl e)
    then show ?thesis using a by (simp add: alloc_and_put_def)
  next
    case (Inr fd)
    then have "fd < length (fd_table t')" using a(5) by simp
    then show ?thesis using a Inr by (simp add: alloc_and_put_def put_file_spec fd_at_update)
  qed
qed

lemma alloc_and_put_at:
  assumes "alloc_and_put bound i t = Some (Ok fd, t')"
  shows "fd_at t' fd = Some i"
proof -
  obtain q u where q: "alloc_fd_from bound t = Some (q, u)"
    using assms by (cases "alloc_fd_from bound t") (auto simp: alloc_and_put_def)
  show ?thesis
  proof (cases q)
    case (Inr k)
    then show ?thesis
      using assms q by (cases "length (fd_table u) \<le> k") (auto simp: alloc_and_put_def put_file_def fd_at_def)
  qed (use assms q in \<open>simp add: alloc_and_put_def\<close>)
qed

lemma open_file_spec:
  assumes ok: "fdt_ok t" and r: "open_file file flags t = (r, t')"
  shows "fdt_ok t' \<and> fd_rlimit t' = fd_rlimit t \<and>
    (case r of Inr fd \<Rightarrow> lowest_free 0 t fd \<and> fd_at t' = (fd_at t)(fd \<mapsto> \<lparr>fi_file = file, fi_flags = flags\<rparr>)
     | Inl e \<Rightarrow> e = EMFILE \<and> none_free 0 t \<and> fd_at t' = fd_at t)"
proof -
  obtain q t1 where q: "alloc_fd t = (q, t1)" by force
  note a = alloc_fd_spec [OF ok q]
  show ?thesis
  proof (cases q)
    case (Inl e)
    then show ?thesis using a q r by (auto simp: open_file_def)
  next
    case (Inr fd)
    then have "fd < length (fd_table t1)" using a by simp
    then show ?thesis using a q r Inr by (auto simp: open_file_def put_file_spec fd_at_update)
  qed
qed

section \<open>Correctness of the descriptor operations\<close>



text \<open>
  C28. \<^verbatim>\<open>pipe2\<close> with known flags returns two different descriptors, the two lowest free ones
  in order, for the read and the write end, and changes no other descriptor. When none is
  free it fails with \<^verbatim>\<open>EMFILE\<close> and changes nothing; when exactly one is free it fails with
  \<^verbatim>\<open>EMFILE\<close> and leaves the read end open at that descriptor, which the caller never learns.
\<close>

theorem pipe2_descriptors:
  assumes ok: "fdt_ok t" and fl: "of_from_bits flags = Some fl" and p: "sys_pipe2 flags rdf wrf t = Some (r, t')"
  shows "fdt_ok t' \<and>
    (case r of
       Inr (rfd, wfd) \<Rightarrow> rfd < wfd \<and> lowest_free 0 t rfd \<and> lowest_free (Suc rfd) t wfd \<and>
         fd_at t' = (fd_at t)(rfd \<mapsto> \<lparr>fi_file = rdf, fi_flags = fd_flags_from fl\<rparr>, wfd \<mapsto> \<lparr>fi_file = wrf, fi_flags = fd_flags_from fl\<rparr>)
     | Inl e \<Rightarrow> e = EMFILE \<and>
         (none_free 0 t \<and> fd_at t' = fd_at t \<or>
          (\<exists>rfd. lowest_free 0 t rfd \<and> none_free (Suc rfd) t \<and>
             fd_at t' = (fd_at t)(rfd \<mapsto> \<lparr>fi_file = rdf, fi_flags = fd_flags_from fl\<rparr>))))"
proof -
  obtain q t1 where q: "open_file rdf (fd_flags_from fl) t = (q, t1)" by force
  note a = open_file_spec [OF ok q]
  show ?thesis
  proof (cases q)
    case (Inl e)
    then show ?thesis using a q p fl by (auto simp: sys_pipe2_def)
  next
    case (Inr rfd)
    obtain q' t2 where q': "open_file wrf (fd_flags_from fl) t1 = (q', t2)" by force
    have a1: "fdt_ok t1" "fd_rlimit t1 = fd_rlimit t" "lowest_free 0 t rfd"
      "fd_at t1 = (fd_at t)(rfd \<mapsto> \<lparr>fi_file = rdf, fi_flags = fd_flags_from fl\<rparr>)" using a Inr by simp_all
    have l: "lowest_free 0 t1 w \<Longrightarrow> rfd < w \<and> lowest_free (Suc rfd) t w" for w
    proof -
      assume w: "lowest_free 0 t1 w"
      then have ne: "w \<noteq> rfd" "fd_at t w = None" using a1(4) by (auto simp: lowest_free_def split: if_splits)
      have "\<not> w < rfd" using a1(3) ne(2) by (auto simp: lowest_free_def)
      moreover have "fd_at t k \<noteq> None" if "Suc rfd \<le> k" "k < w" for k
        using w that a1(4) by (auto simp: lowest_free_def)
      ultimately show "rfd < w \<and> lowest_free (Suc rfd) t w" using ne by (auto simp: lowest_free_def)
    qed
    have n: "none_free 0 t1 \<Longrightarrow> none_free (Suc rfd) t"
      using a1(2,4) by (auto simp: none_free_def)
    show ?thesis
      using open_file_spec [OF a1(1) q'] a1(3,4) l n q q' p fl Inr by (cases q') (auto simp: sys_pipe2_def)
  qed
qed

theorem pipe2_descriptors_witness:
  "sys_pipe2 0x80000 8 9 (fdt_new 7) = Some (Ok (3, 4), snd (the (sys_pipe2 0x80000 8 9 (fdt_new 7)))) \<and>
   fd_at (snd (the (sys_pipe2 0x80000 8 9 (fdt_new 7)))) 4 = Some \<lparr>fi_file = 9, fi_flags = CLOEXEC\<rparr>"
proof -
  have ok: "fdt_ok (fdt_new 7)" by (simp add: fdt_ok_def fdt_new_def MAX_FDS_def)
  have fl: "of_from_bits 0x80000 = Some 0x80000" by code_simp
  have e: "sys_pipe2 0x80000 8 9 (fdt_new 7) = Some (Ok (3, 4), snd (the (sys_pipe2 0x80000 8 9 (fdt_new 7))))" by code_simp
  have "fd_flags_from 0x80000 = CLOEXEC" by code_simp
  with pipe2_descriptors [OF ok fl e] e show ?thesis by simp
qed

text \<open>
  The descriptor limit is not enforced everywhere. Duplicating with a bound equal to the
  limit succeeds and returns a descriptor at the limit, because the guard is \<open>>\<close> where the
  largest descriptor is the limit minus one; and \<^verbatim>\<open>dup3\<close> opens any descriptor below the
  capacity of a vector, however far above the limit.
\<close>

theorem fd_limit_not_enforced:
  assumes ok: "fdt_ok t" and i: "fd_at t old_fd = Some i" and new: "rlim_max (fd_rlimit t) \<le> new_fd" "(new_fd + 1) * 24 < 2 ^ 63"
  shows "(\<exists>t'. dup_with_bound old_fd (rlim_max (fd_rlimit t)) flags t = Some (Ok (rlim_max (fd_rlimit t)), t') \<and>
      fd_at t' (rlim_max (fd_rlimit t)) = Some \<lparr>fi_file = fi_file i, fi_flags = flags\<rparr>) \<and>
    (\<exists>t'. dup3 old_fd new_fd flags t = Some (Ok new_fd, t') \<and>
      fd_at t' new_fd = Some \<lparr>fi_file = fi_file i, fi_flags = flags\<rparr>)"
proof
  let ?m = "rlim_max (fd_rlimit t)" and ?n = "\<lparr>fi_file = fi_file i, fi_flags = flags\<rparr>"
  define tbl where "tbl = fd_table t @ replicate (?m + 1 - length (fd_table t)) None"
  have len: "length (fd_table t) \<le> ?m" "(?m + 1) * 24 < 2 ^ 63" using ok by (auto simp: fdt_ok_def)
  have l: "length tbl = ?m + 1" "take (?m + 1) (fd_table t) = fd_table t" using len by (simp_all add: tbl_def)
  have rs: "vec_resize ((?m + 1) mod 2 ^ 64) (fd_table t) = Some tbl"
    using len by (simp add: vec_resize_def tbl_def)
  have "[?m ..< length tbl] = [?m]" unfolding l(1) by simp
  moreover have "tbl ! ?m = None" using len(1) by (simp add: nth_append tbl_def)
  ultimately have "first_free ?m tbl = Some ?m" by (simp only: first_free_def) simp
  then have "alloc_fd_from ?m t = Some (Ok ?m, t\<lparr>fd_table := tbl\<rparr>)" using len(1) rs by (simp add: alloc_fd_from_def)
  then have "alloc_and_put ?m ?n t = Some (Ok ?m, t\<lparr>fd_table := tbl[?m := Some ?n]\<rparr>)"
    using l(1) by (simp add: alloc_and_put_def put_file_def)
  then show "\<exists>t'. dup_with_bound old_fd ?m flags t = Some (Ok ?m, t') \<and> fd_at t' ?m = Some ?n"
    using i l(1) by (simp add: dup_with_bound_def get_file_eq fd_at_def)
  show "\<exists>t'. dup3 old_fd new_fd flags t = Some (Ok new_fd, t') \<and> fd_at t' new_fd = Some ?n"
    using i len new by (simp add: dup3_def get_file_eq place_at_def vec_resize_def fd_at_def)
qed

theorem fd_limit_not_enforced_witness:
  "\<exists>t'. dup3 0 5000 0 (fdt_new 7) = Some (Ok 5000, t') \<and> fd_at t' 5000 = Some \<lparr>fi_file = 7, fi_flags = 0\<rparr>"
  using fd_limit_not_enforced [of "fdt_new 7" 0 "\<lparr>fi_file = 7, fi_flags = 0\<rparr>" 5000 0]
  by (simp add: fdt_ok_def fdt_new_def MAX_FDS_def fd_at_def)

text \<open>
  \<^verbatim>\<open>fcntl(F_SETFD, FD_CLOEXEC)\<close> clears the close-on-exec flag instead of setting it: the
  argument is read as open flags, where bit 0 is \<^verbatim>\<open>O_WRONLY\<close>. The descriptor then survives
  \<^verbatim>\<open>exec\<close>; one that came from \<^verbatim>\<open>F_DUPFD_CLOEXEC\<close> does not.
\<close>

theorem setfd_cloexec_is_lost:
  assumes "fd_at t fd = Some i"
  shows "(\<exists>t'. sys_fcntl fd 2 1 (t, fl) = Some (Ok 0, t', fl) \<and>
      fd_at (do_close_on_exec t') fd = Some (i\<lparr>fi_flags := 0\<rparr>)) \<and>
    (\<forall>bound new_fd t' fl'. sys_fcntl fd 1030 bound (t, fl) = Some (Ok new_fd, t', fl') \<longrightarrow>
      fd_at (do_close_on_exec t') new_fd = None)"
proof
  have f: "fd < length (fd_table t)" "fd_table t ! fd = Some i" using assms by (auto simp: fd_at_def split: if_splits)
  have z: "fd_flags_from (of_from_bits_truncate (of_nat 1)) = 0" by code_simp
  have c: "\<not> contains (0 :: fd_flags) CLOEXEC" by code_simp
  show "\<exists>t'. sys_fcntl fd 2 1 (t, fl) = Some (Ok 0, t', fl) \<and> fd_at (do_close_on_exec t') fd = Some (i\<lparr>fi_flags := 0\<rparr>)"
    using f c z by (simp add: sys_fcntl_def fcntl_op_from_def get_mut_fd_info_def do_close_on_exec_def fd_at_def Let_def)
  have cl: "fd_at (do_close_on_exec u) k = None" if "fd_at u k = Some j" "contains (fi_flags j) CLOEXEC" for u k j
    using that by (auto simp: do_close_on_exec_def fd_at_def split: if_splits)
  have x: "contains (fi_flags \<lparr>fi_file = f, fi_flags = fd_flags_from O_CLOEXEC\<rparr>) CLOEXEC" for f
    by (simp add: fd_flags_from_def contains_def)
  show "\<forall>bound new_fd t' fl'. sys_fcntl fd 1030 bound (t, fl) = Some (Ok new_fd, t', fl') \<longrightarrow>
      fd_at (do_close_on_exec t') new_fd = None"
  proof (intro allI impI)
    fix bound new_fd t' fl' assume a: "sys_fcntl fd 1030 bound (t, fl) = Some (Ok new_fd, t', fl')"
    let ?n = "\<lparr>fi_file = fi_file i, fi_flags = fd_flags_from O_CLOEXEC\<rparr>"
    obtain r u where q: "alloc_and_put bound ?n t = Some (r, u)"
      using a assms by (cases "alloc_and_put bound ?n t") (auto simp: sys_fcntl_def fcntl_op_from_def dup_with_bound_def get_file_eq)
    then have "r = Ok new_fd" "u = t'"
      using a assms by (cases r; auto simp: sys_fcntl_def fcntl_op_from_def dup_with_bound_def get_file_eq bind_eq_Some_conv)+
    with q have "fd_at t' new_fd = Some ?n" by (simp add: alloc_and_put_at)
    then show "fd_at (do_close_on_exec t') new_fd = None" by (rule cl) (rule x)
  qed
qed

theorem setfd_cloexec_is_lost_witness:
  "\<exists>t' fl. sys_fcntl 0 2 1 (fdt_new 7, \<lambda>_. 0) = Some (Ok 0, t', fl) \<and> fd_at (do_close_on_exec t') 0 \<noteq> None"
  using setfd_cloexec_is_lost [of "fdt_new 7" 0 "\<lparr>fi_file = 7, fi_flags = 0\<rparr>" "\<lambda>_. 0"]
  by (auto simp: fdt_new_def fd_at_def)

end
