(* ===== verification/Process.thy ===== *)
theory Process
  imports Signal Fd_Table
begin

text \<open>
  Processes and threads: the tid allocator (\<^verbatim>\<open>os/src/task/tid.rs\<close>), thread groups, creation
  and exit (\<^verbatim>\<open>os/src/task/task.rs\<close>), the task and process-group managers
  (\<^verbatim>\<open>os/src/task/manager.rs\<close>), delivery of signals to threads and processes
  (\<^verbatim>\<open>os/src/task/signal.rs\<close>), and the system calls of \<^verbatim>\<open>os/src/syscall/process.rs\<close> and
  \<^verbatim>\<open>os/src/syscall/signal.rs\<close> that work on them.

  A task control block is the \<open>task\<close> stored under its tid. What the threads of a process share
  through \<^verbatim>\<open>Arc\<close>s that \<^verbatim>\<open>fork\<close> clones for \<^verbatim>\<open>CLONE_THREAD\<close> and creates otherwise (thread group,
  children, parent, process group id) is one \<open>proc\<close>, stored under the tid of the leader. A weak
  reference is a tid; upgrading it succeeds when the task is still stored. Descriptor
  tables, which tasks can share independently of their process, are stored under a table id.
  The address space, the robust list and the futex wake-ups of \<^verbatim>\<open>mm_release\<close>, working directory,
  timers and time accounting, which \<^verbatim>\<open>fork\<close> and \<^verbatim>\<open>do_exit\<close> also touch, are no part of this
  state. A task's waker is present once the task has been polled.
\<close>

section \<open>The tid allocator\<close>

record tid_alloc =
  ta_current :: nat
  ta_recycled :: "nat list"

definition INITPROC_PID :: nat where "INITPROC_PID = 1"

definition ta_new :: tid_alloc where
  "ta_new = \<lparr>ta_current = INITPROC_PID, ta_recycled = []\<rparr>"

text \<open>\<^verbatim>\<open>Vec::pop\<close> takes from the end.\<close>

definition ta_alloc :: "tid_alloc \<Rightarrow> nat \<times> tid_alloc" where
  "ta_alloc a =
     (case last_opt (ta_recycled a) of
        Some tid \<Rightarrow> (tid, a\<lparr>ta_recycled := butlast (ta_recycled a)\<rparr>)
      | None \<Rightarrow> (ta_current a, a\<lparr>ta_current := ta_current a + 1\<rparr>))"

definition ta_dealloc :: "nat \<Rightarrow> tid_alloc \<Rightarrow> tid_alloc option" where
  "ta_dealloc pid a = do {
     assert_that (pid < ta_current a);
     assert_that (pid \<notin> set (ta_recycled a));
     Some (a\<lparr>ta_recycled := ta_recycled a @ [pid]\<rparr>) }"

section \<open>Tasks and thread groups\<close>

datatype task_status = Ready | Running | Zombie | Stopped | Interruptable | UnInterruptable

record task =
  t_tid :: nat
  t_group :: nat
  t_status :: task_status
  t_exit_code :: usize
  t_sig :: sig_manager
  t_waker :: bool
  t_woken :: bool
  t_files :: nat

record proc =
  p_members :: "(nat, nat) btree"
  p_alive :: nat
  p_exiting :: bool
  p_exit_code :: usize
  p_parent :: "nat option"
  p_children :: "(nat, nat) btree"
  p_pgid :: nat

record ksys =
  k_tasks :: "nat \<Rightarrow> task option"
  k_procs :: "nat \<Rightarrow> proc option"
  k_tm :: "(nat, nat) btree"
  k_pg :: "(nat, nat list) btree"
  k_ta :: tid_alloc
  k_files :: "nat \<Rightarrow> fdt option"

abbreviation is_zombie :: "task \<Rightarrow> bool" where
  "is_zombie t \<equiv> t_status t = Zombie"

definition set_task :: "nat \<Rightarrow> task \<Rightarrow> ksys \<Rightarrow> ksys" where
  "set_task tid t k = k\<lparr>k_tasks := (k_tasks k)(tid \<mapsto> t)\<rparr>"

definition set_proc :: "nat \<Rightarrow> proc \<Rightarrow> ksys \<Rightarrow> ksys" where
  "set_proc g p k = k\<lparr>k_procs := (k_procs k)(g \<mapsto> p)\<rparr>"

text \<open>The shared part of the process of a task.\<close>

definition proc_of :: "nat \<Rightarrow> ksys \<Rightarrow> proc option" where
  "proc_of tid k = do { t \<leftarrow> k_tasks k tid; k_procs k (t_group t) }"

definition tg_new :: proc where
  "tg_new = \<lparr>p_members = [], p_alive = 0, p_exiting = False, p_exit_code = 0,
             p_parent = None, p_children = [], p_pgid = 0\<rparr>"

definition tg_push :: "task \<Rightarrow> proc \<Rightarrow> proc" where
  "tg_push t p =
     (let p' = (if \<not> is_zombie t then p\<lparr>p_alive := p_alive p + 1\<rparr> else p) in
      p'\<lparr>p_members := bt_insert (t_tid t) (t_tid t) (p_members p')\<rparr>)"

definition tg_sub_alive :: "nat \<Rightarrow> proc \<Rightarrow> proc option" where
  "tg_sub_alive v p = (if p_alive p < v then panic else Some (p\<lparr>p_alive := p_alive p - v\<rparr>))"

definition tg_clear :: "proc \<Rightarrow> proc" where
  "tg_clear p = p\<lparr>p_alive := 0, p_members := []\<rparr>"

text \<open>\<^verbatim>\<open>iter\<close> yields the members that can still be upgraded, by ascending tid.\<close>

definition tg_iter :: "proc \<Rightarrow> ksys \<Rightarrow> task list" where
  "tg_iter p k = List.map_filter (\<lambda>(tid, _). k_tasks k tid) (p_members p)"

section \<open>Signals to threads and processes\<close>

definition wake :: "task \<Rightarrow> task option" where
  "wake t = do { assert_that (t_waker t); Some (t\<lparr>t_woken := True\<rparr>) }"

definition recv_sigs :: "sig_info \<Rightarrow> task \<Rightarrow> task option" where
  "recv_sigs si t = do {
     m \<leftarrow> receive si (t_sig t);
     let t' = t\<lparr>t_sig := m\<rparr>;
     if contain_sig (wake_sigs m) (si_signo si) \<and> t_status t' = Interruptable then wake t' else Some t' }"

definition recv_at :: "nat \<Rightarrow> sig_info \<Rightarrow> ksys \<Rightarrow> ksys option" where
  "recv_at tid si k = do {
     t \<leftarrow> k_tasks k tid;
     t' \<leftarrow> recv_sigs si t;
     Some (set_task tid t' k) }"

text \<open>The first thread of the group that does not block the signal, else the first thread.\<close>

definition recv_sigs_process_level :: "nat \<Rightarrow> sig_info \<Rightarrow> ksys \<Rightarrow> ksys option" where
  "recv_sigs_process_level tid si k = do {
     p \<leftarrow> proc_of tid k;
     let ts = tg_iter p k;
     t \<leftarrow> (case find (\<lambda>t. \<not> contain_sig (blocked_sigs (t_sig t)) (si_signo si)) ts of
         Some t \<Rightarrow> Some t
       | None \<Rightarrow> hd_opt ts);
     recv_at (t_tid t) si k }"

definition notify_parent :: "nat \<Rightarrow> ksys \<Rightarrow> ksys option" where
  "notify_parent tid k = do {
     t \<leftarrow> k_tasks k tid;
     p \<leftarrow> k_procs k (t_group t);
     (case p_parent p of
        Some q \<Rightarrow>
          if k_tasks k q \<noteq> None
          then recv_sigs_process_level q \<lparr>si_signo = SIGCHLD, si_code = CLD_EXITED, si_pid = Some (t_group t)\<rparr> k
          else Some k
      | None \<Rightarrow> Some k) }"

definition set_wake_up_sigs :: "sig_set \<Rightarrow> task \<Rightarrow> task option" where
  "set_wake_up_sigs sigs t = do {
     assert_that (t_status t = Interruptable \<or> t_status t = Stopped);
     Some (t\<lparr>t_sig := (t_sig t)\<lparr>wake_sigs := sigs OR sig_mask SIGKILL OR sig_mask SIGSTOP\<rparr>\<rparr>) }"

section \<open>Exit\<close>

text \<open>Handing the children of the last thread over to the init process.\<close>

definition adopt :: "nat \<Rightarrow> ksys \<Rightarrow> ksys option" where
  "adopt child k = do {
     c \<leftarrow> k_tasks k child;
     k' \<leftarrow> (if is_zombie c
           then recv_sigs_process_level INITPROC_PID \<lparr>si_signo = SIGCHLD, si_code = CLD_EXITED, si_pid = None\<rparr> k
           else Some k);
     p \<leftarrow> k_procs k' (t_group c);
     Some (set_proc (t_group c) (p\<lparr>p_parent := Some INITPROC_PID\<rparr>) k') }"

fun adopt_all :: "nat list \<Rightarrow> ksys \<Rightarrow> ksys option" where
  "adopt_all [] k = Some k"
| "adopt_all (c # cs) k = do { k' \<leftarrow> adopt c k; adopt_all cs k' }"

definition reparent :: "nat \<Rightarrow> ksys \<Rightarrow> ksys option" where
  "reparent g k = do {
     p \<leftarrow> k_procs k g;
     if p_children p = [] then Some k
     else do {
       k1 \<leftarrow> adopt_all (map snd (p_children p)) k;
       i \<leftarrow> proc_of INITPROC_PID k1;
       it \<leftarrow> k_tasks k1 INITPROC_PID;
       let k2 = set_proc (t_group it) (i\<lparr>p_children := fold (\<lambda>(c, v) m. bt_insert c v m) (p_children p) (p_children i)\<rparr>) k1;
       p2 \<leftarrow> k_procs k2 g;
       Some (set_proc g (p2\<lparr>p_children := []\<rparr>) k2) } }"

definition clear_files :: "nat \<Rightarrow> ksys \<Rightarrow> ksys" where
  "clear_files f k = k\<lparr>k_files := (k_files k)(f := map_option (fd_table_update (\<lambda>_. [])) (k_files k f))\<rparr>"

definition do_exit :: "usize \<Rightarrow> nat \<Rightarrow> ksys \<Rightarrow> ksys option" where
  "do_exit ecode tid k = do {
     t \<leftarrow> k_tasks k tid;
     if is_zombie t then Some k
     else do {
       assert_that (t_tid t \<noteq> INITPROC_PID);
       p \<leftarrow> k_procs k (t_group t);
       p1 \<leftarrow> tg_sub_alive 1 p;
       let is_last = (p_alive p1 = 0);
       let p2 = (if p_alive p1 = 0 \<and> \<not> p_exiting p1 then p1\<lparr>p_exiting := True, p_exit_code := ecode\<rparr> else p1);
       let k1 = set_proc (t_group t) p2 (set_task tid (t\<lparr>t_exit_code := ecode, t_status := Zombie\<rparr>) k);
       if is_last then do {
         k2 \<leftarrow> reparent (t_group t) k1;
         notify_parent tid (clear_files (t_files t) k2) }
       else Some k1 } }"

fun kill_members :: "nat \<Rightarrow> nat \<Rightarrow> task list \<Rightarrow> ksys \<Rightarrow> ksys option" where
  "kill_members self pid [] k = Some k"
| "kill_members self pid (t # ts) k =
     (if t_tid t = self \<or> is_zombie t then kill_members self pid ts k
      else do {
        k' \<leftarrow> recv_at (t_tid t) \<lparr>si_signo = SIGKILL, si_code = SI_KERNEL, si_pid = Some pid\<rparr> k;
        kill_members self pid ts k' })"

definition do_group_exit :: "usize \<Rightarrow> nat \<Rightarrow> ksys \<Rightarrow> ksys option" where
  "do_group_exit ecode tid k = do {
     t \<leftarrow> k_tasks k tid;
     p \<leftarrow> k_procs k (t_group t);
     if p_exiting p then do_exit (p_exit_code p) tid k
     else do {
       let k1 = set_proc (t_group t) (p\<lparr>p_exiting := True, p_exit_code := ecode\<rparr>) k;
       k2 \<leftarrow> kill_members tid (t_group t) (tg_iter p k1) k1;
       do_exit ecode tid k2 } }"

definition sys_exit :: "i32 \<Rightarrow> nat \<Rightarrow> ksys \<Rightarrow> ksys option" where
  "sys_exit exit_code tid k = do_exit (push_bit 8 (scast exit_code AND 0xFF)) tid k"

definition sys_exit_group :: "i32 \<Rightarrow> nat \<Rightarrow> ksys \<Rightarrow> ksys option" where
  "sys_exit_group exit_code tid k = do_group_exit (push_bit 8 (scast exit_code AND 0xFF)) tid k"

section \<open>The managers\<close>

definition tm_add_task :: "nat \<Rightarrow> ksys \<Rightarrow> ksys" where
  "tm_add_task tid k = k\<lparr>k_tm := bt_insert tid tid (k_tm k)\<rparr>"

definition tm_remove_task :: "nat \<Rightarrow> ksys \<Rightarrow> ksys option" where
  "tm_remove_task tid k = do { assert_that (tid \<noteq> INITPROC_PID); Some (k\<lparr>k_tm := bt_remove tid (k_tm k)\<rparr>) }"

definition tm_get_task :: "nat \<Rightarrow> ksys \<Rightarrow> task option" where
  "tm_get_task tid k = (case bt_get (k_tm k) tid of None \<Rightarrow> None | Some t \<Rightarrow> k_tasks k t)"

text \<open>Setting the process group id writes the cell the threads of a process share.\<close>

definition set_pgid :: "nat \<Rightarrow> nat \<Rightarrow> ksys \<Rightarrow> ksys option" where
  "set_pgid tid pgid k = do {
     t \<leftarrow> k_tasks k tid;
     p \<leftarrow> k_procs k (t_group t);
     Some (set_proc (t_group t) (p\<lparr>p_pgid := pgid\<rparr>) k) }"

definition pg_add_group :: "nat \<Rightarrow> ksys \<Rightarrow> ksys option" where
  "pg_add_group leader k = do {
     k' \<leftarrow> set_pgid leader leader k;
     Some (k'\<lparr>k_pg := bt_insert leader [leader] (k_pg k')\<rparr>) }"

definition pg_add_task_to_group :: "nat \<Rightarrow> nat \<Rightarrow> ksys \<Rightarrow> ksys option" where
  "pg_add_task_to_group pgid tid k = do {
     k' \<leftarrow> set_pgid tid pgid k;
     g \<leftarrow> bt_get (k_pg k') pgid;
     Some (k'\<lparr>k_pg := bt_get_mut pgid (\<lambda>g. g @ [tid]) (k_pg k')\<rparr>) }"

text \<open>\<^verbatim>\<open>remove\<close> keeps the members that are alive and are the given task.\<close>

definition pg_remove :: "nat \<Rightarrow> ksys \<Rightarrow> ksys option" where
  "pg_remove tid k = do {
     p \<leftarrow> proc_of tid k;
     g \<leftarrow> bt_get (k_pg k) (p_pgid p);
     Some (k\<lparr>k_pg := bt_get_mut (p_pgid p) (filter (\<lambda>t. k_tasks k t \<noteq> None \<and> t = tid)) (k_pg k)\<rparr>) }"

section \<open>Fork\<close>

record clone_flags =
  cf_thread :: bool
  cf_sighand :: bool
  cf_files :: bool

text \<open>
  \<^verbatim>\<open>fork\<close> as far as processes, threads and signals go. A thread joins the group of the forking
  task; a process gets a group of its own, whose parent is the forking task and whose
  process group is that of the forking task. The descriptor table is shared under
  \<^verbatim>\<open>CLONE_FILES\<close> and copied otherwise.
\<close>

definition fork :: "clone_flags \<Rightarrow> nat \<Rightarrow> ksys \<Rightarrow> (nat \<times> ksys) option" where
  "fork flag tid k = do {
     t \<leftarrow> k_tasks k tid;
     let (new, ta) = ta_alloc (k_ta k);
     p \<leftarrow> k_procs k (t_group t);
     let sm = (if cf_sighand flag then sm_from_another (t_sig t) else sm_new);
     let g = (if cf_thread flag then t_group t else new);
     let c = \<lparr>t_tid = new, t_group = g, t_status = t_status t, t_exit_code = 0, t_sig = sm, t_waker = False, t_woken = False,
              t_files = (if cf_files flag then t_files t else new)\<rparr>;
     let p0 = (if cf_thread flag then p else tg_new\<lparr>p_parent := Some tid, p_pgid := p_pgid p\<rparr>);
     let k1 = set_task new c (k\<lparr>k_ta := ta, k_files := (if cf_files flag then k_files k else (k_files k)(new := k_files k (t_files t)))\<rparr>);
     let k2 = (if cf_thread flag then k1
               else set_proc (t_group t) (p\<lparr>p_children := bt_insert new new (p_children p)\<rparr>) k1);
     let k3 = set_proc g (tg_push c p0) k2;
     k4 \<leftarrow> (if cf_thread flag then Some k3 else pg_add_task_to_group (p_pgid p0) new k3);
     Some (new, tm_add_task new k4) }"

section \<open>Waiting for children\<close>

text \<open>A child can be reaped when its leader is a zombie and no thread of it is alive.\<close>

definition reapable :: "ksys \<Rightarrow> nat \<Rightarrow> bool" where
  "reapable k c =
     (case k_tasks k c of
        Some t \<Rightarrow> is_zombie t \<and> (case k_procs k (t_group t) of Some p \<Rightarrow> p_alive p = 0 | None \<Rightarrow> False)
      | None \<Rightarrow> False)"

definition wait_pick :: "int \<Rightarrow> nat \<Rightarrow> ksys \<Rightarrow> (sys_error + nat option) option" where
  "wait_pick pid tid k = do {
     p \<leftarrow> proc_of tid k;
     Some (if pid = - 1 then Ok (find (reapable k) (map snd (p_children p)))
           else if 0 < pid then
             (case bt_get (p_children p) (nat pid) of
                Some c \<Rightarrow> if reapable k c then Ok (Some c) else Ok None
              | None \<Rightarrow> Err ECHILD)
           else Err EINVAL) }"

definition wait_find :: "int \<Rightarrow> nat \<Rightarrow> ksys \<Rightarrow> (sys_error + nat option) option" where
  "wait_find pid tid k = do {
     p \<leftarrow> proc_of tid k;
     if p_children p = [] then Some (Err ECHILD) else wait_pick pid tid k }"

fun tm_remove_all :: "nat list \<Rightarrow> ksys \<Rightarrow> ksys option" where
  "tm_remove_all [] k = Some k"
| "tm_remove_all (x # xs) k = do { k' \<leftarrow> tm_remove_task x k; tm_remove_all xs k' }"

text \<open>Reaping: the exit status, and the child removed from the managers and from the children.\<close>

definition reap :: "nat \<Rightarrow> nat \<Rightarrow> ksys \<Rightarrow> ((nat \<times> usize) \<times> ksys) option" where
  "reap tid c k = do {
     ct \<leftarrow> k_tasks k c;
     cp \<leftarrow> k_procs k (t_group ct);
     k1 \<leftarrow> tm_remove_all (map t_tid (tg_iter cp k)) k;
     let k2 = set_proc (t_group ct) (tg_clear cp) k1;
     t \<leftarrow> k_tasks k2 tid;
     p \<leftarrow> k_procs k2 (t_group t);
     let k3 = set_proc (t_group t) (p\<lparr>p_children := bt_remove (t_tid ct) (p_children p)\<rparr>) k2;
     k4 \<leftarrow> pg_remove tid k3;
     Some ((t_tid ct, t_exit_code ct), k4) }"

text \<open>
  The exit status goes to user memory first; \<open>ptr_ok\<close> says that the pointer is null or
  writable, and when it is not, the child is not reaped.
\<close>

definition wait_finish :: "bool \<Rightarrow> nat \<Rightarrow> nat \<Rightarrow> ksys \<Rightarrow> ((nat \<times> usize) option sys_result \<times> ksys) option" where
  "wait_finish ptr_ok tid c k =
     (if ptr_ok then do { (res, k') \<leftarrow> reap tid c k; Some (Ok (Some res), k') } else Some (Err EINVAL, k))"

definition wait_park :: "nat \<Rightarrow> ksys \<Rightarrow> ksys option" where
  "wait_park tid k = do {
     t \<leftarrow> k_tasks k tid;
     t' \<leftarrow> set_wake_up_sigs (NOT (blocked_sigs (t_sig t)) OR sig_mask SIGCHLD) (t\<lparr>t_status := Interruptable\<rparr>);
     Some (set_task tid t' k) }"

text \<open>\<^verbatim>\<open>waitpid\<close> up to the point where it suspends, and from there on; \<open>Ok None\<close> is suspended.\<close>

definition sys_waitpid :: "int \<Rightarrow> bool \<Rightarrow> bool \<Rightarrow> nat \<Rightarrow> ksys \<Rightarrow> ((nat \<times> usize) option sys_result \<times> ksys) option" where
  "sys_waitpid pid ptr_ok wnohang tid k = do {
     r \<leftarrow> wait_find pid tid k;
     (case r of
        Inl e \<Rightarrow> Some (Err e, k)
      | Inr (Some c) \<Rightarrow> wait_finish ptr_ok tid c k
      | Inr None \<Rightarrow>
          if wnohang then Some (Ok (Some (0, 0)), k)
          else do { k' \<leftarrow> wait_park tid k; Some (Ok None, k') }) }"

definition wait_resume :: "int \<Rightarrow> bool \<Rightarrow> nat \<Rightarrow> ksys \<Rightarrow> ((nat \<times> usize) option sys_result \<times> ksys) option" where
  "wait_resume pid ptr_ok tid k = do {
     t \<leftarrow> k_tasks k tid;
     let (si, m) = dequeue_expected_one (sig_mask SIGCHLD) (t_sig t);
     let k1 = set_task tid (t\<lparr>t_status := Running, t_sig := m\<rparr>) k;
     (case si of
        None \<Rightarrow> Some (Err EINTR, k1)
      | Some _ \<Rightarrow> do {
          r \<leftarrow> wait_pick pid tid k1;
          (case r of
             Inl e \<Rightarrow> Some (Err e, k1)
           | Inr (Some c) \<Rightarrow> wait_finish ptr_ok tid c k1
           | Inr None \<Rightarrow> do { k2 \<leftarrow> wait_park tid k1; Some (Ok None, k2) }) }) }"

section \<open>Signals between processes\<close>

fun for_leaders :: "sig_info \<Rightarrow> nat list \<Rightarrow> ksys \<Rightarrow> ksys option" where
  "for_leaders si [] k = Some k"
| "for_leaders si (t # ts) k = do {
     tt \<leftarrow> k_tasks k t;
     k' \<leftarrow> (if t_tid tt = t_group tt then recv_sigs_process_level t si k else Some k);
     for_leaders si ts k' }"

fun for_tid :: "nat \<Rightarrow> sig_info \<Rightarrow> nat list \<Rightarrow> ksys \<Rightarrow> ksys option" where
  "for_tid tid si [] k = Some k"
| "for_tid tid si (t # ts) k = do {
     tt \<leftarrow> k_tasks k t;
     k' \<leftarrow> (if t_tid tt = tid then recv_sigs_process_level t si k else Some k);
     for_tid tid si ts k' }"

text \<open>
  \<^verbatim>\<open>kill\<close>: the members of a process group are upgraded and unwrapped, so a member that is
  gone panics; all tasks of the task manager are alive.
\<close>

definition sys_kill :: "int \<Rightarrow> int \<Rightarrow> nat \<Rightarrow> ksys \<Rightarrow> (nat sys_result \<times> ksys) option" where
  "sys_kill pid signo cur k =
     (if signo = 0 then Some (Ok 0, k)
      else if signo < 0 \<or> int SIGRTMAX \<le> signo then Some (Err EINVAL, k)
      else do {
        ct \<leftarrow> k_tasks k cur;
        cp \<leftarrow> k_procs k (t_group ct);
        let si = \<lparr>si_signo = nat signo, si_code = SI_USER, si_pid = Some (t_group ct)\<rparr>;
        if pid = 0 then do {
          g \<leftarrow> bt_get (k_pg k) (p_pgid cp);
          k' \<leftarrow> for_leaders si g k;
          Some (Ok 0, k') }
        else if pid = - 1 then do {
          k' \<leftarrow> for_leaders si (filter (\<lambda>t. t \<noteq> INITPROC_PID) (map fst (k_tm k))) k;
          Some (Ok 0, k') }
        else if pid < - 1 then do {
          g \<leftarrow> bt_get (k_pg k) (p_pgid cp);
          k' \<leftarrow> for_tid (nat (- pid)) (si\<lparr>si_pid := Some (p_pgid cp)\<rparr>) g k;
          Some (Ok 0, k') }
        else (case tm_get_task (nat pid) k of
            Some t \<Rightarrow>
              if t_tid t = t_group t then do {
                k' \<leftarrow> recv_sigs_process_level (t_tid t) si k;
                Some (Ok 0, k') }
              else Some (Err ESRCH, k)
          | None \<Rightarrow> Some (Err ESRCH, k)) })"

definition sys_tkill :: "int \<Rightarrow> int \<Rightarrow> nat \<Rightarrow> ksys \<Rightarrow> (nat sys_result \<times> ksys) option" where
  "sys_tkill tid sig cur k =
     (if sig < 0 \<or> int SIGRTMAX \<le> sig \<or> tid < 0 then Some (Err EINVAL, k)
      else do {
        ct \<leftarrow> k_tasks k cur;
        (case tm_get_task (nat tid) k of
           None \<Rightarrow> Some (Err ESRCH, k)
         | Some t \<Rightarrow> do {
             k' \<leftarrow> recv_at (t_tid t) \<lparr>si_signo = nat sig, si_code = SI_TKILL, si_pid = Some (t_group ct)\<rparr> k;
             Some (Ok 0, k') }) })"

definition sys_tgkill :: "int \<Rightarrow> int \<Rightarrow> int \<Rightarrow> nat \<Rightarrow> ksys \<Rightarrow> (nat sys_result \<times> ksys) option" where
  "sys_tgkill tgid tid signo cur k =
     (if signo < 0 \<or> int SIGRTMAX \<le> signo \<or> tid < 0 then Some (Err EINVAL, k)
      else if tgid < 0 \<or> tid < 0 then Some (Err EINVAL, k)
      else do {
        ct \<leftarrow> k_tasks k cur;
        (case tm_get_task (nat tgid) k of
           None \<Rightarrow> Some (Err ESRCH, k)
         | Some t \<Rightarrow>
             if t_tid t = t_group t then do {
               p \<leftarrow> k_procs k (t_group t);
               (case find (\<lambda>th. t_tid th = nat tid) (tg_iter p k) of
                  Some th \<Rightarrow> do {
                    k' \<leftarrow> recv_at (t_tid th) \<lparr>si_signo = nat signo, si_code = SI_TKILL, si_pid = Some (t_group ct)\<rparr> k;
                    Some (Ok 0, k') }
                | None \<Rightarrow> Some (Err ESRCH, k)) }
             else Some (Err ESRCH, k)) })"

section \<open>Process groups\<close>

definition sys_getppid :: "nat \<Rightarrow> ksys \<Rightarrow> nat option" where
  "sys_getppid cur k = do {
     p \<leftarrow> proc_of cur k;
     (case p_parent p of
        Some q \<Rightarrow> do { t \<leftarrow> k_tasks k q; Some (t_group t) }
      | None \<Rightarrow> do { t \<leftarrow> k_tasks k INITPROC_PID; Some (t_group t) }) }"

definition sys_getpgid :: "nat \<Rightarrow> nat \<Rightarrow> ksys \<Rightarrow> nat sys_result option" where
  "sys_getpgid pid cur k =
     (if pid = 0 then do { p \<leftarrow> proc_of cur k; Some (Ok (p_pgid p)) }
      else (case tm_get_task pid k of
          Some t \<Rightarrow> do { p \<leftarrow> proc_of (t_tid t) k; Some (Ok (p_pgid p)) }
        | None \<Rightarrow> Some (Err ESRCH)))"

text \<open>\<^verbatim>\<open>setpgid\<close> unwraps the lookup of the process, so an unknown pid panics.\<close>

definition sys_setpgid :: "nat \<Rightarrow> nat \<Rightarrow> nat \<Rightarrow> ksys \<Rightarrow> (nat sys_result \<times> ksys) option" where
  "sys_setpgid pid pgid cur k = do {
     t \<leftarrow> (if pid = 0 then k_tasks k cur else tm_get_task pid k);
     k' \<leftarrow> (if pgid = 0 then pg_add_group (t_tid t) k
           else if bt_get (k_pg k) pgid \<noteq> None then pg_add_task_to_group pgid (t_tid t) k
           else pg_add_group (t_tid t) k);
     Some (Ok 0, k') }"

section \<open>The first process\<close>

definition add_initproc :: ksys where
  "add_initproc =
     (let (tid, ta) = ta_alloc ta_new;
          t = \<lparr>t_tid = tid, t_group = tid, t_status = Ready, t_exit_code = 0, t_sig = sm_new, t_waker = False, t_woken = False,
                 t_files = tid\<rparr>;
          k0 = \<lparr>k_tasks = Map.empty, k_procs = Map.empty, k_tm = [], k_pg = [], k_ta = ta,
                  k_files = [tid \<mapsto> fdt_new 0]\<rparr>;
          k1 = set_proc tid (tg_push t (tg_new\<lparr>p_pgid := tid\<rparr>)) (set_task tid t k0)
      in the (pg_add_group tid (tm_add_task tid k1)))"

section \<open>Tids in use\<close>

text \<open>Along a history of allocations and releases: the handles that have not been dropped.\<close>

inductive ta_run :: "nat list \<Rightarrow> tid_alloc \<Rightarrow> bool" where
  ta_run_new: "ta_run [] ta_new"
| ta_run_alloc: "ta_run hs a \<Longrightarrow> ta_alloc a = (tid, a') \<Longrightarrow> ta_run (tid # hs) a'"
| ta_run_drop: "ta_run hs a \<Longrightarrow> tid \<in> set hs \<Longrightarrow> ta_dealloc tid a = Some a' \<Longrightarrow> ta_run (remove1 tid hs) a'"

definition ta_ok :: "nat list \<Rightarrow> tid_alloc \<Rightarrow> bool" where
  "ta_ok hs a \<longleftrightarrow> distinct (hs @ ta_recycled a) \<and> set (hs @ ta_recycled a) = {INITPROC_PID ..< ta_current a} \<and>
     INITPROC_PID \<le> ta_current a"

lemma ta_ok_alloc:
  assumes ok: "ta_ok hs a" and al: "ta_alloc a = (tid, a')"
  shows "ta_ok (tid # hs) a'" and "tid \<notin> set hs"
proof -
  have d: "distinct hs" "distinct (ta_recycled a)" "set hs \<inter> set (ta_recycled a) = {}"
    and u: "set hs \<union> set (ta_recycled a) = {INITPROC_PID ..< ta_current a}" and c: "INITPROC_PID \<le> ta_current a"
    using ok by (simp_all add: ta_ok_def)
  have "ta_ok (tid # hs) a' \<and> tid \<notin> set hs"
  proof (cases "ta_recycled a = []")
    case True
    then have e: "tid = ta_current a" "a' = a\<lparr>ta_current := ta_current a + 1\<rparr>" using al by (auto simp: ta_alloc_def)
    have hs: "set hs = {INITPROC_PID ..< ta_current a}" using u True by simp
    then have "insert (ta_current a) (set hs) = {INITPROC_PID ..< ta_current a + 1}"
      using atLeastLessThanSuc [of INITPROC_PID "ta_current a"] c by simp
    then show ?thesis using d(1) True hs c by (simp add: ta_ok_def e)
  next
    case False
    then obtain r x where r: "ta_recycled a = r @ [x]" by (metis rev_exhaust)
    then have e: "tid = x" "a' = a\<lparr>ta_recycled := r\<rparr>" using al by (auto simp: ta_alloc_def)
    have "insert x (set hs \<union> set r) = {INITPROC_PID ..< ta_current a}" using u r by auto
    then show ?thesis using d c r by (simp add: ta_ok_def e)
  qed
  then show "ta_ok (tid # hs) a'" "tid \<notin> set hs" by simp_all
qed

lemma ta_ok_drop:
  assumes ok: "ta_ok hs a" and tid: "tid \<in> set hs"
  shows "\<exists>a'. ta_dealloc tid a = Some a' \<and> ta_ok (remove1 tid hs) a'"
proof -
  have "tid < ta_current a" "tid \<notin> set (ta_recycled a)" "distinct hs" using ok tid by (auto simp: ta_ok_def)
  then show ?thesis using ok tid by (auto simp: ta_dealloc_def ta_ok_def)
qed

lemma ta_run_ok: "ta_run hs a \<Longrightarrow> ta_ok hs a"
proof (induction rule: ta_run.induct)
  case ta_run_new
  show ?case by (simp add: ta_ok_def ta_new_def)
next
  case (ta_run_alloc hs a tid a')
  then show ?case by (simp add: ta_ok_alloc(1))
next
  case (ta_run_drop hs a tid a')
  then show ?case using ta_ok_drop [of hs a tid] by auto
qed

text \<open>
  C32. Thread ids are unique. However allocations and drops of handles interleave, the live
  handles are pairwise distinct, a new one is different from all of them, dropping a live
  handle never fails an assertion, and every id below the high-water mark is either live or
  recycled, so none is lost.
\<close>

theorem tids_unique:
  assumes "ta_run hs a"
  shows "distinct hs \<and> fst (ta_alloc a) \<notin> set hs \<and> (\<forall>tid. tid \<in> set hs \<longrightarrow> ta_dealloc tid a \<noteq> None) \<and>
    set hs \<union> set (ta_recycled a) = {INITPROC_PID ..< ta_current a}"
proof -
  note ok = ta_run_ok [OF assms]
  obtain tid a' where "ta_alloc a = (tid, a')" by force
  then have "fst (ta_alloc a) \<notin> set hs" using ta_ok_alloc(2) [OF ok] by simp
  moreover have "ta_dealloc tid a \<noteq> None" if "tid \<in> set hs" for tid using ta_ok_drop [OF ok that] by auto
  ultimately show ?thesis using ok by (simp add: ta_ok_def)
qed

theorem tids_unique_witness:
  "ta_run [1] (snd (ta_alloc ta_new)) \<and> fst (ta_alloc (snd (ta_alloc ta_new))) \<noteq> 1"
proof -
  have run: "ta_run [1] (snd (ta_alloc ta_new))"
    by (rule ta_run_alloc [OF ta_run_new]) (simp add: ta_alloc_def ta_new_def INITPROC_PID_def)
  from tids_unique [OF run] run show ?thesis by simp
qed


section \<open>Well-formed systems\<close>

definition member :: "ksys \<Rightarrow> nat \<Rightarrow> nat \<Rightarrow> bool" where
  "member k g tid \<longleftrightarrow> (\<exists>p. k_procs k g = Some p \<and> (tid, tid) \<in> set (p_members p))"

definition task_ok :: "ksys \<Rightarrow> nat \<Rightarrow> task \<Rightarrow> bool" where
  "task_ok k tid t \<longleftrightarrow> t_tid t = tid \<and> sm_ok (t_sig t) \<and> k_procs k (t_group t) \<noteq> None \<and>
     (t_status t = Interruptable \<longrightarrow> t_waker t) \<and> (\<not> is_zombie t \<longrightarrow> member k (t_group t) tid)"

definition live_at :: "ksys \<Rightarrow> nat \<Rightarrow> bool" where
  "live_at k tid \<longleftrightarrow> (case k_tasks k tid of Some t \<Rightarrow> \<not> is_zombie t | None \<Rightarrow> False)"

text \<open>The counter of a thread group is the number of its members that are not zombies.\<close>

definition proc_wf :: "ksys \<Rightarrow> nat \<Rightarrow> proc \<Rightarrow> bool" where
  "proc_wf k g p \<longleftrightarrow>
     bt_wf (p_members p) \<and> (\<forall>(a, b) \<in> set (p_members p). b = a \<and> (\<exists>t. k_tasks k a = Some t \<and> t_group t = g)) \<and>
     p_alive p = length (filter (live_at k) (map fst (p_members p))) \<and>
     bt_wf (p_children p) \<and> (\<forall>(c, v) \<in> set (p_children p). v = c \<and> (\<exists>t. k_tasks k c = Some t \<and> t_group t = c))"

definition sys_ok :: "ksys \<Rightarrow> bool" where
  "sys_ok k \<longleftrightarrow> (\<forall>tid t. k_tasks k tid = Some t \<longrightarrow> task_ok k tid t) \<and> (\<forall>g p. k_procs k g = Some p \<longrightarrow> proc_wf k g p)"

text \<open>Two tasks that differ in their pending signals and wake-ups only.\<close>

definition same_task :: "task \<Rightarrow> task \<Rightarrow> bool" where
  "same_task t t' \<longleftrightarrow> t_tid t' = t_tid t \<and> t_group t' = t_group t \<and> t_status t' = t_status t \<and>
     t_exit_code t' = t_exit_code t \<and> t_waker t' = t_waker t \<and> (sm_ok (t_sig t) \<longrightarrow> sm_ok (t_sig t')) \<and>
     si_signo ` set (pend (t_sig t)) \<subseteq> si_signo ` set (pend (t_sig t'))"

definition sig_only :: "ksys \<Rightarrow> ksys \<Rightarrow> bool" where
  "sig_only k k' \<longleftrightarrow> k_procs k' = k_procs k \<and> k_tm k' = k_tm k \<and> k_pg k' = k_pg k \<and> k_ta k' = k_ta k \<and> k_files k' = k_files k \<and>
     (\<forall>tid. rel_option same_task (k_tasks k tid) (k_tasks k' tid))"

lemma same_task_refl [simp]: "same_task t t"
  by (simp add: same_task_def)

lemma same_task_trans: "same_task a b \<Longrightarrow> same_task b c \<Longrightarrow> same_task a c"
  unfolding same_task_def by (metis subset_trans)

lemma rel_same_trans: "rel_option same_task x y \<Longrightarrow> rel_option same_task y z \<Longrightarrow> rel_option same_task x z"
  by (cases x; cases y; cases z) (auto intro: same_task_trans)

lemma sig_only_refl [simp]: "sig_only k k"
  by (simp add: sig_only_def option.rel_refl)

lemma sig_only_trans:
  assumes "sig_only a b" "sig_only b c"
  shows "sig_only a c"
proof -
  have "rel_option same_task (k_tasks a tid) (k_tasks c tid)" for tid
    using assms rel_same_trans unfolding sig_only_def by blast
  then show ?thesis using assms by (simp add: sig_only_def)
qed

lemma sig_only_Some:
  "sig_only k k' \<Longrightarrow> k_tasks k tid = Some t \<Longrightarrow> \<exists>t'. k_tasks k' tid = Some t' \<and> same_task t t'"
  by (metis sig_only_def option.rel_cases option.distinct(1) option.inject)

lemma sig_only_Some_rev:
  "sig_only k k' \<Longrightarrow> k_tasks k' tid = Some t' \<Longrightarrow> \<exists>t. k_tasks k tid = Some t \<and> same_task t t'"
  by (metis sig_only_def option.rel_cases option.distinct(1) option.inject)

lemma sig_only_live: "sig_only k k' \<Longrightarrow> live_at k' = live_at k"
proof
  fix tid assume a: "sig_only k k'"
  show "live_at k' tid = live_at k tid"
    using sig_only_Some [OF a, of tid] sig_only_Some_rev [OF a, of tid]
    by (cases "k_tasks k tid"; cases "k_tasks k' tid") (auto simp: live_at_def same_task_def)
qed

lemma sig_only_ok:
  assumes "sig_only k k'" "sys_ok k"
  shows "sys_ok k'"
proof -
  have procs: "k_procs k' = k_procs k" using assms(1) by (simp add: sig_only_def)
  have "task_ok k' tid t'" if t': "k_tasks k' tid = Some t'" for tid t'
  proof -
    obtain t where "k_tasks k tid = Some t" "same_task t t'" using sig_only_Some_rev [OF assms(1) t'] by blast
    then show ?thesis using assms(2) procs by (auto simp: sys_ok_def task_ok_def same_task_def member_def)
  qed
  moreover have "proc_wf k' g p" if p: "k_procs k' g = Some p" for g p
  proof -
    have wf: "proc_wf k g p" using assms(2) p procs by (simp add: sys_ok_def)
    have "\<exists>t'. k_tasks k' a = Some t' \<and> t_group t' = h" if "\<exists>t. k_tasks k a = Some t \<and> t_group t = h" for a h
      using that sig_only_Some [OF assms(1), of a] by (auto simp: same_task_def)
    then show ?thesis using wf sig_only_live [OF assms(1)] unfolding proc_wf_def by fastforce
  qed
  ultimately show ?thesis by (simp add: sys_ok_def)
qed

lemma recv_sigs_ok:
  assumes "task_ok k tid t" "1 \<le> si_signo si" "si_signo si \<le> SIGRTMAX"
  shows "\<exists>t'. recv_sigs si t = Some t' \<and> same_task t t' \<and> si_signo si \<in> si_signo ` set (pend (t_sig t'))"
proof -
  have ok: "sm_ok (t_sig t)" and w: "t_status t = Interruptable \<longrightarrow> t_waker t" using assms(1) by (auto simp: task_ok_def)
  from receive_ok [OF ok assms(2,3)] obtain m where m: "receive si (t_sig t) = Some m" "sm_ok m"
    "if si_signo si < SIGRTMIN \<and> si_signo si \<in> si_signo ` set (pend (t_sig t)) then m = t_sig t
     else mset (pend m) = add_mset si (mset (pend (t_sig t)))" by blast
  have sub: "si_signo ` set (pend (t_sig t)) \<subseteq> si_signo ` set (pend m)" "si_signo si \<in> si_signo ` set (pend m)"
  proof -
    have "set (pend m) = insert si (set (pend (t_sig t)))" if "mset (pend m) = add_mset si (mset (pend (t_sig t)))"
      using arg_cong [OF that, of set_mset] by simp
    then show "si_signo ` set (pend (t_sig t)) \<subseteq> si_signo ` set (pend m)" "si_signo si \<in> si_signo ` set (pend m)"
      using m(3) by (auto split: if_splits)
  qed
  show ?thesis
    using m(1,2) w sub by (auto simp: recv_sigs_def wake_def same_task_def assert_that_def Let_def)
qed

lemma recv_at_ok:
  assumes "sys_ok k" "k_tasks k tid = Some t" "1 \<le> si_signo si" "si_signo si \<le> SIGRTMAX"
  shows "\<exists>k' t'. recv_at tid si k = Some k' \<and> sig_only k k' \<and> k_tasks k' tid = Some t' \<and>
    si_signo si \<in> si_signo ` set (pend (t_sig t'))"
proof -
  have "task_ok k tid t" using assms(1,2) by (simp add: sys_ok_def)
  from recv_sigs_ok [OF this assms(3,4)] obtain t' where
    t': "recv_sigs si t = Some t'" "same_task t t'" "si_signo si \<in> si_signo ` set (pend (t_sig t'))" by blast
  have "sig_only k (set_task tid t' k)" using assms(2) t'(2)
    by (auto simp: sig_only_def set_task_def option.rel_refl)
  then show ?thesis using assms(2) t' by (auto simp: recv_at_def set_task_def)
qed

text \<open>A task whose process has a member left that can be reached.\<close>

definition reachable :: "ksys \<Rightarrow> nat \<Rightarrow> bool" where
  "reachable k tid \<longleftrightarrow> (\<exists>p. proc_of tid k = Some p \<and> p_members p \<noteq> [])"

lemma tg_iter_in:
  assumes "sys_ok k" "k_procs k g = Some p" "t \<in> set (tg_iter p k)"
  shows "k_tasks k (t_tid t) = Some t" "t_group t = g" "(t_tid t, t_tid t) \<in> set (p_members p)"
proof -
  from assms(3) obtain a b where ab: "(a, b) \<in> set (p_members p)" "k_tasks k a = Some t"
    by (auto simp: tg_iter_def List.map_filter_def)
  have wf: "proc_wf k g p" and ok: "task_ok k a t" using assms(1,2) ab(2) by (auto simp: sys_ok_def)
  from wf ab have "b = a" "t_group t = g" by (auto simp: proc_wf_def)
  then show "k_tasks k (t_tid t) = Some t" "t_group t = g" "(t_tid t, t_tid t) \<in> set (p_members p)"
    using ok ab by (auto simp: task_ok_def)
qed

lemma tg_iter_nonempty:
  assumes "sys_ok k" "k_procs k g = Some p" "p_members p \<noteq> []"
  shows "tg_iter p k \<noteq> []"
proof -
  obtain a b rest where m: "p_members p = (a, b) # rest" using assms(3) by (cases "p_members p") auto
  have "proc_wf k g p" using assms(1,2) by (simp add: sys_ok_def)
  then obtain t where "k_tasks k a = Some t" using m by (auto simp: proc_wf_def)
  then show ?thesis by (simp add: tg_iter_def List.map_filter_def m)
qed

text \<open>A signal to a process arrives at some thread of it and changes nothing else.\<close>

lemma process_level_ok:
  assumes ok: "sys_ok k" and r: "reachable k tid" and n: "1 \<le> si_signo si" "si_signo si \<le> SIGRTMAX"
  shows "\<exists>k' u t' t. recv_sigs_process_level tid si k = Some k' \<and> sig_only k k' \<and> k_tasks k' u = Some t' \<and>
    k_tasks k tid = Some t \<and> t_group t' = t_group t \<and> si_signo si \<in> si_signo ` set (pend (t_sig t'))"
proof -
  from r obtain t p where t: "k_tasks k tid = Some t" "k_procs k (t_group t) = Some p" "p_members p \<noteq> []" "proc_of tid k = Some p"
    by (auto simp: reachable_def proc_of_def bind_eq_Some_conv)
  let ?c = "case find (\<lambda>t. \<not> contain_sig (blocked_sigs (t_sig t)) (si_signo si)) (tg_iter p k) of
      Some t \<Rightarrow> Some t | None \<Rightarrow> hd_opt (tg_iter p k)"
  obtain u where u: "?c = Some u" "u \<in> set (tg_iter p k)"
  proof (cases "find (\<lambda>t. \<not> contain_sig (blocked_sigs (t_sig t)) (si_signo si)) (tg_iter p k)")
    case None
    obtain v where "hd_opt (tg_iter p k) = Some v" using tg_iter_nonempty [OF ok t(2,3)] by (cases "tg_iter p k") auto
    then show ?thesis using that None hd_opt_in_set by fastforce
  next
    case (Some v)
    then show ?thesis using that find_SomeD [OF Some] by simp
  qed
  have "recv_sigs_process_level tid si k = recv_at (t_tid u) si k"
    using t(4) u(1) by (simp add: recv_sigs_process_level_def)
  moreover have g: "k_tasks k (t_tid u) = Some u" "t_group u = t_group t" using tg_iter_in [OF ok t(2) u(2)] by auto
  moreover from recv_at_ok [OF ok g(1) n] obtain k' t' where "recv_at (t_tid u) si k = Some k'" "sig_only k k'"
    "k_tasks k' (t_tid u) = Some t'" "si_signo si \<in> si_signo ` set (pend (t_sig t'))" by blast
  ultimately show ?thesis using t(1) sig_only_Some [of k k' "t_tid u" u] by (fastforce simp: same_task_def)
qed


section \<open>Handing over children\<close>

lemma set_proc_ok:
  assumes ok: "sys_ok k" and p: "k_procs k g = Some p" and m: "p_members p' = p_members p" "p_alive p' = p_alive p"
    and c: "bt_wf (p_children p')" "\<forall>(c, v) \<in> set (p_children p'). v = c \<and> (\<exists>t. k_tasks k c = Some t \<and> t_group t = c)"
  shows "sys_ok (set_proc g p' k)"
proof -
  let ?k = "set_proc g p' k"
  have l: "live_at ?k = live_at k" by (simp add: live_at_def set_proc_def fun_eq_iff)
  have tk: "k_tasks ?k = k_tasks k" by (simp add: set_proc_def)
  have mem: "member ?k h a = member k h a" for h a using p m by (auto simp: member_def set_proc_def)
  have "task_ok ?k tid t" if "k_tasks k tid = Some t" for tid t
  proof -
    have "task_ok k tid t" using ok that by (simp add: sys_ok_def)
    then show ?thesis by (auto simp: task_ok_def mem) (auto simp: set_proc_def split: if_splits)
  qed
  moreover have "proc_wf ?k h q" if "k_procs ?k h = Some q" for h q
  proof (cases "h = g")
    case True
    then have "q = p'" using that by (simp add: set_proc_def)
    moreover have "proc_wf k g p" using ok p by (simp add: sys_ok_def)
    ultimately show ?thesis using m c True l tk by (simp add: proc_wf_def)
  next
    case False
    then have "proc_wf k h q" using that ok by (simp add: set_proc_def sys_ok_def)
    then show ?thesis using l tk by (simp add: proc_wf_def)
  qed
  ultimately show ?thesis by (simp add: sys_ok_def tk)
qed

definition adopted :: "nat set \<Rightarrow> ksys \<Rightarrow> ksys \<Rightarrow> bool" where
  "adopted cs k k' \<longleftrightarrow> k_files k' = k_files k \<and> (\<forall>tid. rel_option same_task (k_tasks k tid) (k_tasks k' tid)) \<and>
     k_procs k' = (\<lambda>h. map_option (\<lambda>p. if h \<in> cs then p\<lparr>p_parent := Some INITPROC_PID\<rparr> else p) (k_procs k h))"

lemma adopted_Some:
  assumes "adopted cs k k'" "k_tasks k tid = Some t"
  shows "\<exists>t'. k_tasks k' tid = Some t' \<and> same_task t t'"
proof -
  have "rel_option same_task (k_tasks k tid) (k_tasks k' tid)" using assms(1) unfolding adopted_def by blast
  then show ?thesis using assms(2) by (cases "k_tasks k' tid") auto
qed

lemma adopted_reachable:
  assumes "adopted cs k k'" "reachable k tid"
  shows "reachable k' tid"
proof -
  obtain t p where t: "k_tasks k tid = Some t" "k_procs k (t_group t) = Some p" "p_members p \<noteq> []"
    using assms(2) by (auto simp: reachable_def proc_of_def bind_eq_Some_conv)
  obtain t' where t': "k_tasks k' tid = Some t'" "t_group t' = t_group t"
    using adopted_Some [OF assms(1) t(1)] by (auto simp: same_task_def)
  have "\<exists>p'. k_procs k' (t_group t) = Some p' \<and> p_members p' = p_members p"
    using assms(1) t(2) by (auto simp: adopted_def)
  then show ?thesis using t' t(3) by (auto simp: reachable_def proc_of_def)
qed

lemma adopt_ok:
  assumes ok: "sys_ok k" and init: "reachable k INITPROC_PID" and c: "k_tasks k c = Some ct" "t_group ct = c"
  shows "\<exists>k'. adopt c k = Some k' \<and> sys_ok k' \<and> adopted {c} k k'"
proof -
  let ?si = "\<lparr>si_signo = SIGCHLD, si_code = CLD_EXITED, si_pid = None\<rparr>"
  obtain p where p: "k_procs k c = Some p" using ok c by (fastforce simp: sys_ok_def task_ok_def)
  have wf: "proc_wf k c p" using ok p by (simp add: sys_ok_def)
  have "\<exists>k1. (if is_zombie ct then recv_sigs_process_level INITPROC_PID ?si k else Some k) = Some k1 \<and> sig_only k k1"
    using process_level_ok [OF ok init, of ?si] by (auto simp: sig_nums)
  then obtain k1 where k1: "(if is_zombie ct then recv_sigs_process_level INITPROC_PID ?si k else Some k) = Some k1" "sig_only k k1"
    by blast
  have ok1: "sys_ok k1" by (rule sig_only_ok [OF k1(2) ok])
  have p1: "k_procs k1 c = Some p" using k1(2) p by (simp add: sig_only_def)
  let ?k = "set_proc c (p\<lparr>p_parent := Some INITPROC_PID\<rparr>) k1"
  have "proc_wf k1 c p" using ok1 p1 by (simp add: sys_ok_def)
  then have "sys_ok ?k" by (intro set_proc_ok [OF ok1 p1]) (auto simp: proc_wf_def)
  moreover have "adopted {c} k ?k"
    using k1(2) p by (auto simp: adopted_def sig_only_def set_proc_def fun_eq_iff option.map_ident)
  ultimately show ?thesis using c k1(1) p1 by (auto simp: adopt_def)
qed

lemma adopt_all_ok:
  assumes "\<forall>c \<in> set cs. \<exists>t. k_tasks k c = Some t \<and> t_group t = c" "sys_ok k" "reachable k INITPROC_PID"
  shows "\<exists>k'. adopt_all cs k = Some k' \<and> sys_ok k' \<and> adopted (set cs) k k'"
  using assms
proof (induction cs arbitrary: k)
  case Nil
  then show ?case by (auto simp: adopted_def option.rel_refl option.map_ident)
next
  case (Cons c cs)
  obtain t where t: "k_tasks k c = Some t" "t_group t = c" using Cons.prems(1) by auto
  from adopt_ok [OF Cons.prems(2,3) t] obtain k1 where k1: "adopt c k = Some k1" "sys_ok k1" "adopted {c} k k1" by blast
  have "\<forall>d \<in> set cs. \<exists>t. k_tasks k1 d = Some t \<and> t_group t = d"
    using Cons.prems(1) adopted_Some [OF k1(3)] by (fastforce simp: same_task_def)
  from Cons.IH [OF this k1(2) adopted_reachable [OF k1(3) Cons.prems(3)]] obtain k2 where
    k2: "adopt_all cs k1 = Some k2" "sys_ok k2" "adopted (set cs) k1 k2" by blast
  have "rel_option same_task (k_tasks k tid) (k_tasks k2 tid)" for tid
    using k1(3) k2(3) rel_same_trans unfolding adopted_def by blast
  moreover have "k_procs k2 = (\<lambda>h. map_option (\<lambda>p. if h \<in> set (c # cs) then p\<lparr>p_parent := Some INITPROC_PID\<rparr> else p) (k_procs k h))"
    using k1(3) k2(3) by (auto simp: adopted_def option.map_comp fun_eq_iff intro!: option.map_cong)
  moreover have "k_files k2 = k_files k" using k1(3) k2(3) by (simp add: adopted_def)
  ultimately have "adopted (set (c # cs)) k k2" by (simp only: adopted_def) simp
  then show ?case using k1 k2 by auto
qed

lemma fold_bt_insert_wf: "bt_wf m \<Longrightarrow> bt_wf (fold (\<lambda>(c, v) m. bt_insert c v m) cs m)"
  by (induction cs arbitrary: m) auto

lemma fold_bt_insert_get:
  "bt_get (fold (\<lambda>(c, v) m. bt_insert c v m) cs m) x =
     (case map_of (rev cs) x of Some v \<Rightarrow> Some v | None \<Rightarrow> bt_get m x)"
  by (induction cs arbitrary: m) (auto simp: bt_get_insert map_add_def split: option.splits)

lemma reparent_ok:
  assumes ok: "sys_ok k" and init: "reachable k INITPROC_PID" and p: "k_procs k g = Some p"
    and it: "k_tasks k INITPROC_PID = Some it" "t_group it \<noteq> g"
  shows "\<exists>k' p' pi. reparent g k = Some k' \<and> sys_ok k' \<and> (\<forall>tid. rel_option same_task (k_tasks k tid) (k_tasks k' tid)) \<and>
    k_procs k' g = Some p' \<and> p_children p' = [] \<and> p_members p' = p_members p \<and> (p_parent p' = p_parent p \<or> g \<in> set (map fst (p_children p))) \<and>
    k_procs k' (t_group it) = Some pi \<and>
    (\<forall>c \<in> set (map fst (p_children p)). bt_get (p_children pi) c = Some c \<and>
      (\<exists>q. k_procs k' c = Some q \<and> p_parent q = Some INITPROC_PID)) \<and>
    (\<forall>h q. k_procs k h = Some q \<longrightarrow> (\<exists>q'. k_procs k' h = Some q' \<and> p_members q' = p_members q)) \<and> k_files k' = k_files k"
proof (cases "p_children p = []")
  case True
  obtain pi where "k_procs k (t_group it) = Some pi" using ok it(1) by (fastforce simp: sys_ok_def task_ok_def)
  then show ?thesis using True p ok by (simp add: reparent_def option.rel_refl)
next
  case False
  let ?cs = "map snd (p_children p)"
  have wf: "proc_wf k g p" using ok p by (simp add: sys_ok_def)
  then have ch: "\<forall>c \<in> set ?cs. \<exists>t. k_tasks k c = Some t \<and> t_group t = c" and vc: "\<forall>(c, v) \<in> set (p_children p). v = c"
    by (fastforce simp: proc_wf_def)+
  have keys: "set ?cs = set (map fst (p_children p))" using vc by force
  from adopt_all_ok [OF ch ok init] obtain k1 where k1: "adopt_all ?cs k = Some k1" "sys_ok k1" "adopted (set ?cs) k k1" by blast
  obtain it1 where it1: "k_tasks k1 INITPROC_PID = Some it1" "t_group it1 = t_group it"
    using adopted_Some [OF k1(3) it(1)] by (auto simp: same_task_def)
  obtain i where i: "k_procs k1 (t_group it) = Some i" using k1(2) it1 by (fastforce simp: sys_ok_def task_ok_def)
  have wfi: "proc_wf k1 (t_group it) i" using k1(2) i by (simp add: sys_ok_def)
  let ?m = "fold (\<lambda>(c, v) m. bt_insert c v m) (p_children p) (p_children i)"
  have ch1: "\<exists>t. k_tasks k1 c = Some t \<and> t_group t = c" if "c \<in> set ?cs" for c
    using ch that adopted_Some [OF k1(3)] by (fastforce simp: same_task_def)
  have wfm: "bt_wf ?m" using wfi by (simp add: proc_wf_def fold_bt_insert_wf)
  have "v = c \<and> (\<exists>t. k_tasks k1 c = Some t \<and> t_group t = c)" if "(c, v) \<in> set ?m" for c v
  proof -
    have "bt_get ?m c = Some v" using that bt_get_iff [OF wfm] by simp
    then consider "(c, v) \<in> set (p_children p)" | "(c, v) \<in> set (p_children i)"
      unfolding fold_bt_insert_get using map_of_SomeD [of "rev (p_children p)" c v] wfi
      by (auto simp: proc_wf_def bt_get_iff split: option.splits)
    then show ?thesis
    proof cases
      case 1
      then have "v = c" "v \<in> set ?cs" using vc by force+
      then show ?thesis using ch1 by simp
    next
      case 2
      then show ?thesis using wfi unfolding proc_wf_def by blast
    qed
  qed
  then have ok2: "sys_ok (set_proc (t_group it) (i\<lparr>p_children := ?m\<rparr>) k1)" (is "sys_ok ?k2")
    using wfm by (intro set_proc_ok [OF k1(2) i]) auto
  have p2: "k_procs ?k2 g = Some (if g \<in> set ?cs then p\<lparr>p_parent := Some INITPROC_PID\<rparr> else p)" (is "_ = Some ?p2")
    using p it(2) k1(3) by (simp add: set_proc_def adopted_def)
  have "sys_ok (set_proc g (?p2\<lparr>p_children := []\<rparr>) ?k2)" (is "sys_ok ?k3") by (rule set_proc_ok [OF ok2 p2]) auto
  note ok3 = this
  have eq: "reparent g k = Some ?k3"
    using p False k1(1) it1 i p2 by (simp add: reparent_def proc_of_def Let_def)
  have moved: "bt_get ?m c = Some c \<and> (\<exists>q. k_procs ?k3 c = Some q \<and> p_parent q = Some INITPROC_PID)"
    if c: "c \<in> set (map fst (p_children p))" for c
  proof
    have "bt_wf (p_children p)" using wf by (simp add: proc_wf_def)
    then have "distinct (map fst (rev (p_children p)))" using bt_wf_distinct by (simp add: rev_map [symmetric])
    moreover have "(c, c) \<in> set (rev (p_children p))" using c vc by auto
    ultimately show "bt_get ?m c = Some c" unfolding fold_bt_insert_get by (simp add: map_of_eq_Some_iff)
    have cc: "c \<in> set ?cs" using c keys by simp
    obtain q where q: "k_procs k1 c = Some q" using ch1 [OF cc] k1(2) by (fastforce simp: sys_ok_def task_ok_def)
    then have "p_parent q = Some INITPROC_PID" using k1(3) cc by (auto simp: adopted_def)
    then show "\<exists>q. k_procs ?k3 c = Some q \<and> p_parent q = Some INITPROC_PID"
      using q cc i p2 by (cases "c = g"; cases "c = t_group it") (auto simp: set_proc_def)
  qed
  have rel: "\<forall>tid. rel_option same_task (k_tasks k tid) (k_tasks ?k3 tid)"
    using k1(3) by (simp add: adopted_def set_proc_def)
  show ?thesis
  proof (intro exI conjI)
    show "k_procs ?k3 g = Some (?p2\<lparr>p_children := []\<rparr>)" by (simp add: set_proc_def)
    show "k_procs ?k3 (t_group it) = Some (i\<lparr>p_children := ?m\<rparr>)" using it(2) by (simp add: set_proc_def)
    show "p_parent (?p2\<lparr>p_children := []\<rparr>) = p_parent p \<or> g \<in> set (map fst (p_children p))" using keys by simp
    show "\<forall>c \<in> set (map fst (p_children p)). bt_get (p_children (i\<lparr>p_children := ?m\<rparr>)) c = Some c \<and>
      (\<exists>q. k_procs ?k3 c = Some q \<and> p_parent q = Some INITPROC_PID)" using moved by simp
    show "\<forall>h q. k_procs k h = Some q \<longrightarrow> (\<exists>q'. k_procs ?k3 h = Some q' \<and> p_members q' = p_members q)"
      using p i k1(3) by (auto simp: set_proc_def adopted_def)
    show "k_files ?k3 = k_files k" using k1(3) by (simp add: set_proc_def adopted_def)
  qed (use ok3 eq rel in simp_all)
qed


section \<open>Correctness of exit\<close>

lemma filter_drop_one:
  "distinct xs \<Longrightarrow> x \<in> set xs \<Longrightarrow> P x \<Longrightarrow> length (filter P xs) = Suc (length (filter (P(x := False)) xs))"
proof (induction xs)
  case (Cons y ys)
  show ?case
  proof (cases "x = y")
    case True
    then have "filter (P(x := False)) ys = filter P ys" using Cons.prems(1) by (intro filter_cong) auto
    then show ?thesis using True Cons.prems(3) by (simp del: fun_upd_apply add: fun_upd_same)
  next
    case False
    then show ?thesis using Cons by (simp del: fun_upd_apply add: fun_upd_other)
  qed
qed simp

text \<open>Marking a thread as exited and counting it out of its group.\<close>

lemma zombie_ok:
  assumes ok: "sys_ok k" and t: "k_tasks k tid = Some t" "\<not> is_zombie t" and p: "k_procs k (t_group t) = Some p"
    and p': "p_members p' = p_members p" "p_alive p' = p_alive p - 1" "p_children p' = p_children p"
  shows "0 < p_alive p" and "sys_ok (set_proc (t_group t) p' (set_task tid (t\<lparr>t_exit_code := e, t_status := Zombie\<rparr>) k))"
proof -
  let ?z = "t\<lparr>t_exit_code := e, t_status := Zombie\<rparr>"
  let ?k = "set_proc (t_group t) p' (set_task tid ?z k)"
  have tok: "task_ok k tid t" and wf: "proc_wf k (t_group t) p" using ok t p by (auto simp: sys_ok_def)
  have l: "live_at ?k = (live_at k)(tid := False)" by (auto simp: live_at_def set_proc_def set_task_def fun_eq_iff)
  have in_m: "tid \<in> set (map fst (p_members p))" using tok t(2) p by (force simp: task_ok_def member_def)
  have d: "distinct (map fst (p_members p))" using wf bt_wf_distinct by (auto simp: proc_wf_def)
  have lt: "live_at k tid" using t by (simp add: live_at_def)
  have cnt: "p_alive p = Suc (length (filter (live_at ?k) (map fst (p_members p))))"
    using filter_drop_one [where P = "live_at k", OF d in_m lt] wf by (simp only: l proc_wf_def)
  then show "0 < p_alive p" by simp
  have tk: "k_tasks ?k u = (if u = tid then Some ?z else k_tasks k u)" for u by (simp add: set_proc_def set_task_def)
  have mem: "member ?k h a = member k h a" for h a using p p'(1) by (auto simp: member_def set_proc_def set_task_def)
  have pr: "k_procs ?k h \<noteq> None \<longleftrightarrow> k_procs k h \<noteq> None" for h using p by (simp add: set_proc_def set_task_def)
  have ex: "\<exists>s. k_tasks ?k a = Some s \<and> t_group s = h" if "\<exists>s. k_tasks k a = Some s \<and> t_group s = h" for a h
    using that t(1) by (auto simp: tk)
  have "task_ok ?k u s" if "k_tasks ?k u = Some s" for u s
  proof (cases "u = tid")
    case True
    then show ?thesis using that tok pr [of "t_group t"] by (simp add: tk task_ok_def del: not_None_eq) auto
  next
    case False
    then have "task_ok k u s" using that ok by (simp add: tk sys_ok_def)
    then show ?thesis using pr by (simp add: task_ok_def mem del: not_None_eq)
  qed
  moreover have "proc_wf ?k h q" if "k_procs ?k h = Some q" for h q
  proof (cases "h = t_group t")
    case True
    then have q: "q = p'" using that by (simp add: set_proc_def)
    show ?thesis unfolding proc_wf_def q True p'
      using wf ex cnt unfolding proc_wf_def by fastforce
  next
    case False
    then have wfq: "proc_wf k h q" using that ok by (simp add: set_proc_def set_task_def sys_ok_def)
    have "tid \<notin> set (map fst (p_members q))" using wfq t(1) False by (fastforce simp: proc_wf_def)
    then have "filter (live_at ?k) (map fst (p_members q)) = filter (live_at k) (map fst (p_members q))"
      unfolding l by (intro filter_cong) auto
    then show ?thesis using wfq ex unfolding proc_wf_def by fastforce
  qed
  ultimately show "sys_ok ?k" by (simp add: sys_ok_def)
qed


lemma notify_parent_ok:
  assumes ok: "sys_ok k" and t: "k_tasks k tid = Some t" and p: "k_procs k (t_group t) = Some p"
    and r: "\<And>q. p_parent p = Some q \<Longrightarrow> k_tasks k q \<noteq> None \<Longrightarrow> reachable k q"
  shows "\<exists>k'. notify_parent tid k = Some k' \<and> sig_only k k' \<and>
    (\<forall>q qt. p_parent p = Some q \<and> k_tasks k q = Some qt \<longrightarrow>
      (\<exists>u ut. k_tasks k' u = Some ut \<and> t_group ut = t_group qt \<and> SIGCHLD \<in> si_signo ` set (pend (t_sig ut))))"
proof (cases "\<exists>q qt. p_parent p = Some q \<and> k_tasks k q = Some qt")
  case True
  then obtain q qt where q: "p_parent p = Some q" "k_tasks k q = Some qt" by blast
  let ?si = "\<lparr>si_signo = SIGCHLD, si_code = CLD_EXITED, si_pid = Some (t_group t)\<rparr>"
  from process_level_ok [OF ok r [OF q(1)], of ?si] q(2) obtain k' u ut where
    "recv_sigs_process_level q ?si k = Some k'" "sig_only k k'" "k_tasks k' u = Some ut" "t_group ut = t_group qt"
    "SIGCHLD \<in> si_signo ` set (pend (t_sig ut))" by (auto simp: sig_nums)
  then show ?thesis using t p q by (auto simp: notify_parent_def)
next
  case False
  then have "notify_parent tid k = Some k" using t p by (auto simp: notify_parent_def split: option.splits)
  then show ?thesis using False by auto
qed

lemma sys_ok_cong:
  assumes "k_tasks k' = k_tasks k" "k_procs k' = k_procs k"
  shows "sys_ok k' = sys_ok k"
proof -
  have "live_at k' = live_at k" using assms by (simp add: live_at_def fun_eq_iff)
  then show ?thesis using assms by (simp add: sys_ok_def task_ok_def proc_wf_def member_def)
qed

lemma sys_ok_managers [simp]:
  "sys_ok (k\<lparr>k_tm := a\<rparr>) = sys_ok k" "sys_ok (k\<lparr>k_pg := b\<rparr>) = sys_ok k" "sys_ok (k\<lparr>k_ta := d\<rparr>) = sys_ok k"
  "sys_ok (k\<lparr>k_files := f\<rparr>) = sys_ok k"
  by (rule sys_ok_cong; simp)+

lemma clear_files_simps [simp]:
  "k_tasks (clear_files f k) = k_tasks k" "k_procs (clear_files f k) = k_procs k" "sys_ok (clear_files f k) = sys_ok k"
  by (simp_all add: clear_files_def)

text \<open>Reachability only depends on the tasks' groups and on which groups have members.\<close>

lemma reachable_mono:
  assumes "reachable k q" and "\<And>s. k_tasks k q = Some s \<Longrightarrow> \<exists>s'. k_tasks k' q = Some s' \<and> t_group s' = t_group s"
    and "\<And>h p. k_procs k h = Some p \<Longrightarrow> \<exists>p'. k_procs k' h = Some p' \<and> p_members p' = p_members p"
  shows "reachable k' q"
proof -
  obtain s p where s: "k_tasks k q = Some s" "k_procs k (t_group s) = Some p" "p_members p \<noteq> []"
    using assms(1) by (auto simp: reachable_def proc_of_def bind_eq_Some_conv)
  from assms(2) [OF s(1)] assms(3) [OF s(2)] s(3) show ?thesis by (auto simp: reachable_def proc_of_def)
qed

text \<open>What the exit of the last thread of a process does after the thread was counted out.\<close>

lemma last_exit_ok:
  assumes ok: "sys_ok k" and z: "k_tasks k tid = Some z" and p: "k_procs k (t_group z) = Some p" "p_alive p = 0"
    and init: "reachable k INITPROC_PID" "k_tasks k INITPROC_PID = Some it" "t_group it \<noteq> t_group z"
    and par: "\<And>q. p_parent p = Some q \<Longrightarrow> k_tasks k q \<noteq> None \<Longrightarrow> reachable k q"
  shows "\<exists>k' z' p' pi. do { k2 \<leftarrow> reparent (t_group z) k; notify_parent tid (clear_files f k2) } = Some k' \<and> sys_ok k' \<and>
    k_tasks k' tid = Some z' \<and> same_task z z' \<and> k_procs k' (t_group z) = Some p' \<and> p_alive p' = 0 \<and> p_children p' = [] \<and>
    k_files k' = (k_files k)(f := map_option (fd_table_update (\<lambda>_. [])) (k_files k f)) \<and> k_procs k' (t_group it) = Some pi \<and>
    (\<forall>c \<in> set (map fst (p_children p)). bt_get (p_children pi) c = Some c \<and> (\<exists>q. k_procs k' c = Some q \<and> p_parent q = Some INITPROC_PID)) \<and>
    (\<forall>q qt. p_parent p = Some q \<and> k_tasks k q = Some qt \<and> t_group z \<notin> set (map fst (p_children p)) \<longrightarrow>
      (\<exists>u ut. k_tasks k' u = Some ut \<and> t_group ut = t_group qt \<and> SIGCHLD \<in> si_signo ` set (pend (t_sig ut))))"
proof -
  from reparent_ok [OF ok init(1) p(1) init(2,3)] obtain k2 p3 pi where
    k2: "reparent (t_group z) k = Some k2" "sys_ok k2" "\<forall>u. rel_option same_task (k_tasks k u) (k_tasks k2 u)"
      "k_procs k2 (t_group z) = Some p3" "p_children p3 = []" "p_members p3 = p_members p"
      "p_parent p3 = p_parent p \<or> t_group z \<in> set (map fst (p_children p))" "k_procs k2 (t_group it) = Some pi"
      "\<forall>c \<in> set (map fst (p_children p)). bt_get (p_children pi) c = Some c \<and> (\<exists>q. k_procs k2 c = Some q \<and> p_parent q = Some INITPROC_PID)"
      "\<forall>h q. k_procs k h = Some q \<longrightarrow> (\<exists>q'. k_procs k2 h = Some q' \<and> p_members q' = p_members q)" "k_files k2 = k_files k"
    by blast
  have rel: "\<exists>s'. k_tasks k2 u = Some s' \<and> same_task s s'" if "k_tasks k u = Some s" for u s
    using k2(3) [rule_format, of u] that by (cases "k_tasks k2 u") auto
  have reach: "reachable k2 q" if "reachable k q" for q
    using reachable_mono [OF that, of k2] rel k2(10) by (fastforce simp: same_task_def)
  obtain z2 where z2: "k_tasks k2 tid = Some z2" "same_task z z2" using rel [OF z] by blast
  then have g2: "t_group z2 = t_group z" by (simp add: same_task_def)
  have "live_at k2 u = live_at k u" for u
    using k2(3) [rule_format, of u] by (cases "k_tasks k u"; cases "k_tasks k2 u") (auto simp: live_at_def same_task_def)
  then have "live_at k2 = live_at k" by blast
  moreover have "proc_wf k (t_group z) p" "proc_wf k2 (t_group z) p3" using ok k2(2,4) p(1) by (auto simp: sys_ok_def)
  ultimately have al3: "p_alive p3 = 0" using k2(6) p(2) by (simp add: proc_wf_def)
  let ?k = "clear_files f k2"
  have par2: "reachable ?k q" if q: "p_parent p3 = Some q" "k_tasks ?k q \<noteq> None" for q
  proof -
    have "k_tasks k q \<noteq> None" using q(2) k2(3) [rule_format, of q] by (cases "k_tasks k q") auto
    moreover have "q = INITPROC_PID \<or> p_parent p = Some q" using q(1) k2(4,7,9) by auto
    ultimately have "reachable k2 q" using reach init(1) par by blast
    then show ?thesis by (simp add: reachable_def proc_of_def)
  qed
  have "sys_ok ?k" "k_tasks ?k tid = Some z2" "k_procs ?k (t_group z2) = Some p3" using k2(2,4) z2(1) g2 by simp_all
  from notify_parent_ok [OF this par2] obtain k3 where
    k3: "notify_parent tid ?k = Some k3" "sig_only ?k k3"
      "\<forall>q qt. p_parent p3 = Some q \<and> k_tasks k2 q = Some qt \<longrightarrow>
        (\<exists>u ut. k_tasks k3 u = Some ut \<and> t_group ut = t_group qt \<and> SIGCHLD \<in> si_signo ` set (pend (t_sig ut)))" by auto
  have pr: "k_procs k3 = k_procs k2" "k_files k3 = k_files ?k" using k3(2) by (simp_all add: sig_only_def)
  obtain z3 where z3: "k_tasks k3 tid = Some z3" "same_task z2 z3" using sig_only_Some [OF k3(2)] z2(1) by auto
  have "\<exists>u ut. k_tasks k3 u = Some ut \<and> t_group ut = t_group qt \<and> SIGCHLD \<in> si_signo ` set (pend (t_sig ut))"
    if q: "p_parent p = Some q" "k_tasks k q = Some qt" "t_group z \<notin> set (map fst (p_children p))" for q qt
    using rel [OF q(2)] k2(7) k3(3) q(1,3) by (fastforce simp: same_task_def)
  moreover have "sys_ok k3" using sig_only_ok [OF k3(2)] k2(2) by simp
  moreover have "same_task z z3" by (rule same_task_trans [OF z2(2) z3(2)])
  ultimately show ?thesis using k2(1,4,5,8,9,11) k3(1) z3(1) al3 pr by (intro exI [of _ k3]) (auto simp: clear_files_def)
qed

lemma do_exit_spec:
  assumes ok: "sys_ok k" and t: "k_tasks k tid = Some t" "\<not> is_zombie t" "tid \<noteq> INITPROC_PID"
    and p: "k_procs k (t_group t) = Some p"
    and init: "reachable k INITPROC_PID" "k_tasks k INITPROC_PID = Some it" "t_group it \<noteq> t_group t"
    and par: "\<forall>q. p_parent p = Some q \<and> k_tasks k q \<noteq> None \<longrightarrow> reachable k q"
  shows "\<exists>k' t' p'. do_exit ecode tid k = Some k' \<and> sys_ok k' \<and>
    k_tasks k' tid = Some t' \<and> is_zombie t' \<and> t_exit_code t' = ecode \<and>
    k_procs k' (t_group t) = Some p' \<and> p_alive p = Suc (p_alive p') \<and>
    (p_alive p' \<noteq> 0 \<longrightarrow> k_files k' = k_files k \<and> (\<forall>u. u \<noteq> tid \<longrightarrow> k_tasks k' u = k_tasks k u)) \<and>
    (p_alive p' = 0 \<longrightarrow> p_children p' = [] \<and>
      (\<forall>f. k_files k (t_files t) = Some f \<longrightarrow> k_files k' (t_files t) = Some (f\<lparr>fd_table := []\<rparr>)) \<and>
      (\<forall>c \<in> set (map fst (p_children p)). \<exists>pi q. k_procs k' (t_group it) = Some pi \<and> bt_get (p_children pi) c = Some c \<and>
        k_procs k' c = Some q \<and> p_parent q = Some INITPROC_PID) \<and>
      (\<forall>q qt. p_parent p = Some q \<and> k_tasks k q = Some qt \<and> t_group t \<notin> set (map fst (p_children p)) \<longrightarrow>
        (\<exists>u ut. k_tasks k' u = Some ut \<and> t_group ut = t_group qt \<and> SIGCHLD \<in> si_signo ` set (pend (t_sig ut)))))"
proof -
  let ?g = "t_group t" and ?z = "t\<lparr>t_exit_code := ecode, t_status := Zombie\<rparr>"
  define p1 where "p1 = p\<lparr>p_alive := p_alive p - 1\<rparr>"
  define p2 where "p2 = (if p_alive p1 = 0 \<and> \<not> p_exiting p1 then p1\<lparr>p_exiting := True, p_exit_code := ecode\<rparr> else p1)"
  define k1 where "k1 = set_proc ?g p2 (set_task tid ?z k)"
  have p2: "p_members p2 = p_members p" "p_alive p2 = p_alive p - 1" "p_children p2 = p_children p" "p_parent p2 = p_parent p"
    by (auto simp: p2_def p1_def)
  have al: "0 < p_alive p" by (rule zombie_ok(1) [OF ok t(1,2) p p2(1,2,3)])
  have ok1: "sys_ok k1" unfolding k1_def by (rule zombie_ok(2) [OF ok t(1,2) p p2(1,2,3)])
  have tt: "t_tid t = tid" using ok t(1) by (auto simp: sys_ok_def task_ok_def)
  have step: "do_exit ecode tid k = (if p_alive p1 = 0 then do { k2 \<leftarrow> reparent ?g k1; notify_parent tid (clear_files (t_files t) k2) } else Some k1)"
    using t p tt al by (simp add: do_exit_def tg_sub_alive_def p1_def p2_def k1_def Let_def)
  have t1: "k_tasks k1 tid = Some ?z" "k_procs k1 (t_group ?z) = Some p2" "k_files k1 = k_files k"
    and other: "u \<noteq> tid \<Longrightarrow> k_tasks k1 u = k_tasks k u" for u by (simp_all add: k1_def set_proc_def set_task_def)
  show ?thesis
  proof (cases "p_alive p1 = 0")
    case False
    then show ?thesis using step ok1 t1 al p2(2) other by (auto simp: p1_def)
  next
    case True
    have tk: "\<exists>s'. k_tasks k1 u = Some s' \<and> t_group s' = t_group s" if "k_tasks k u = Some s" for u s
      using that t(1) t1(1) other [of u] by (cases "u = tid") auto
    have reach: "reachable k1 q" if "reachable k q" for q
    proof (rule reachable_mono [OF that tk])
      show "\<exists>q'. k_procs k1 h = Some q' \<and> p_members q' = p_members q" if "k_procs k h = Some q" for h q
        using that p p2(1) by (auto simp: k1_def set_proc_def set_task_def)
    qed
    obtain it1 where it1: "k_tasks k1 INITPROC_PID = Some it1" "t_group it1 = t_group it" using tk [OF init(2)] by blast
    have al2: "p_alive p2 = 0" using True p2(2) by (simp add: p1_def)
    have par1: "reachable k1 q" if "p_parent p2 = Some q" "k_tasks k1 q \<noteq> None" for q
      using that par [rule_format, of q] reach p2(4) other [of q] t(1) by (cases "q = tid") auto
    have ne: "t_group it1 \<noteq> t_group ?z" using it1(2) init(3) by simp
    from last_exit_ok [OF ok1 t1(1,2) al2 reach [OF init(1)] it1(1) ne par1, of "t_files t"] obtain k3 z3 p3 pi where
      k3: "do { k2 \<leftarrow> reparent ?g k1; notify_parent tid (clear_files (t_files t) k2) } = Some k3" "sys_ok k3"
        "k_tasks k3 tid = Some z3" "same_task ?z z3" "k_procs k3 ?g = Some p3" "p_alive p3 = 0" "p_children p3 = []"
        "k_files k3 = (k_files k1)(t_files t := map_option (fd_table_update (\<lambda>_. [])) (k_files k1 (t_files t)))"
        "k_procs k3 (t_group it) = Some pi"
        "\<forall>c \<in> set (map fst (p_children p)). bt_get (p_children pi) c = Some c \<and> (\<exists>q. k_procs k3 c = Some q \<and> p_parent q = Some INITPROC_PID)"
        "\<forall>q qt. p_parent p = Some q \<and> k_tasks k1 q = Some qt \<and> ?g \<notin> set (map fst (p_children p)) \<longrightarrow>
          (\<exists>u ut. k_tasks k3 u = Some ut \<and> t_group ut = t_group qt \<and> SIGCHLD \<in> si_signo ` set (pend (t_sig ut)))"
      unfolding p2(3,4) it1(2) by auto
    have "p_alive p = Suc (p_alive p3)" using al k3(6) True by (simp add: p1_def)
    moreover have "\<exists>u ut. k_tasks k3 u = Some ut \<and> t_group ut = t_group qt \<and> SIGCHLD \<in> si_signo ` set (pend (t_sig ut))"
      if q: "p_parent p = Some q" "k_tasks k q = Some qt" "?g \<notin> set (map fst (p_children p))" for q qt
      using tk [OF q(2)] k3(11) q(1,3) by fastforce
    moreover have "is_zombie z3" "t_exit_code z3 = ecode" using k3(4) by (auto simp: same_task_def)
    ultimately show ?thesis using step True k3(1-3,5-10) t1(3) by (intro exI [of _ k3] exI [of _ z3] exI [of _ p3]) auto
  qed
qed

end
