(* ===== verification/Process_Life.thy ===== *)
theory Process_Life
  imports Process
begin

text \<open>
  The life of a process: what \<^verbatim>\<open>fork\<close> creates, what \<^verbatim>\<open>waitpid\<close> reaps and how a group exits, for the
  definitions of theory \<open>Process\<close>.
\<close>

section \<open>Correctness of fork\<close>

lemma sm_ok_from_another: "sm_ok m \<Longrightarrow> sm_ok (sm_from_another m)"
  by (simp add: sm_ok_def sm_from_another_def)

lemma keys_bt_insert:
  assumes "bt_wf m" "x \<notin> set (map fst m)"
  shows "length (filter P (map fst (bt_insert x v m))) = (if P x then 1 else 0) + length (filter P (map fst m))"
  using assms by (induction x v m rule: bt_insert.induct) auto

lemma set_bt_insert_new:
  assumes "x \<notin> set (map fst m)"
  shows "set (bt_insert x v m) = insert (x, v) (set m)"
  using assms by (induction x v m rule: bt_insert.induct) auto

text \<open>Storing a new live task in a group: the group counts it and everything else stays well-formed.\<close>

lemma new_task_ok:
  assumes ok: "sys_ok k" and new: "k_tasks k (t_tid c) = None"
    and c: "sm_ok (t_sig c)" "t_status c = Running \<or> t_status c = Ready"
    and g: "k_procs k (t_group c) = Some p0 \<or> (k_procs k (t_group c) = None \<and> p_members p0 = [] \<and> p_alive p0 = 0 \<and> p_children p0 = [])"
  shows "sys_ok (set_proc (t_group c) (tg_push c p0) (set_task (t_tid c) c k))"
proof -
  let ?n = "t_tid c" and ?k = "set_proc (t_group c) (tg_push c p0) (set_task (t_tid c) c k)"
  have live: "\<not> is_zombie c" using c(2) by auto
  have tk: "k_tasks ?k u = (if u = ?n then Some c else k_tasks k u)" for u by (simp add: set_proc_def set_task_def)
  have l: "live_at ?k = (live_at k)(?n := True)" using live by (auto simp: live_at_def tk fun_eq_iff)
  have ex: "\<exists>s. k_tasks ?k a = Some s \<and> t_group s = h" if "\<exists>s. k_tasks k a = Some s \<and> t_group s = h" for a h
    using that new by (auto simp: tk)
  have same: "proc_wf ?k h q" if "proc_wf k h q" for h q
  proof -
    have "?n \<notin> set (map fst (p_members q))" using that new by (fastforce simp: proc_wf_def)
    then have "filter (live_at ?k) (map fst (p_members q)) = filter (live_at k) (map fst (p_members q))"
      unfolding l by (intro filter_cong) force+
    then show ?thesis using that ex unfolding proc_wf_def by fastforce
  qed
  have wf0: "proc_wf k (t_group c) p0" using g
  proof
    assume "k_procs k (t_group c) = Some p0"
    then show ?thesis using ok by (simp add: sys_ok_def)
  qed (simp add: proc_wf_def)
  have fresh: "?n \<notin> set (map fst (p_members p0))" using wf0 new by (fastforce simp: proc_wf_def)
  have push: "p_members (tg_push c p0) = bt_insert ?n ?n (p_members p0)" "p_alive (tg_push c p0) = p_alive p0 + 1"
    "p_children (tg_push c p0) = p_children p0" using live by (simp_all add: tg_push_def)
  have wf1: "proc_wf ?k (t_group c) (tg_push c p0)"
  proof -
    have w: "proc_wf ?k (t_group c) p0" by (rule same [OF wf0])
    have "p_alive p0 + 1 = length (filter (live_at ?k) (map fst (bt_insert ?n ?n (p_members p0))))"
      using w keys_bt_insert [of "p_members p0" ?n "live_at ?k" ?n] fresh by (simp add: proc_wf_def l)
    then show ?thesis using w set_bt_insert_new [OF fresh, of ?n] unfolding proc_wf_def push by (auto simp: tk)
  qed
  have pk: "k_procs ?k h = (if h = t_group c then Some (tg_push c p0) else k_procs k h)" for h
    by (simp add: set_proc_def set_task_def)
  have "proc_wf ?k h q" if "k_procs ?k h = Some q" for h q
    using that wf1 same ok by (auto simp: pk sys_ok_def split: if_splits)
  moreover have "task_ok ?k u s" if "k_tasks ?k u = Some s" for u s
  proof (cases "u = ?n")
    case True
    then have "s = c" using that by (simp add: tk)
    then show ?thesis using c True set_bt_insert_new [OF fresh, of ?n] push(1)
      by (auto simp: task_ok_def pk member_def)
  next
    case False
    then have "task_ok k u s" using that ok by (simp add: tk sys_ok_def)
    then show ?thesis using g push(1) set_bt_insert_new [OF fresh, of ?n]
      by (auto simp: task_ok_def pk member_def)
  qed
  ultimately show ?thesis by (simp add: sys_ok_def)
qed

text \<open>Adding a child to the list of a process.\<close>

lemma add_child_ok:
  assumes ok: "sys_ok k" and p: "k_procs k g = Some p" and c: "k_tasks k c = Some ct" "t_group ct = c"
  shows "sys_ok (set_proc g (p\<lparr>p_children := bt_insert c c (p_children p)\<rparr>) k)"
proof (rule set_proc_ok [OF ok p])
  have wf: "proc_wf k g p" using ok p by (simp add: sys_ok_def)
  then show "bt_wf (p_children (p\<lparr>p_children := bt_insert c c (p_children p)\<rparr>))" by (auto simp: proc_wf_def)
  have ch: "v = d \<and> (\<exists>t. k_tasks k d = Some t \<and> t_group t = d)" if "(d, v) \<in> set (p_children p)" for d v
    using wf that unfolding proc_wf_def by blast
  have "v = d \<and> (\<exists>t. k_tasks k d = Some t \<and> t_group t = d)" if "(d, v) \<in> set (bt_insert c c (p_children p))" for d v
  proof (cases "(d, v) = (c, c)")
    case False
    then have "(d, v) \<in> set (p_children p)" using that wf set_bt_insert [of "p_children p" c c] by (auto simp: proc_wf_def)
    then show ?thesis by (rule ch)
  qed (use c in simp)
  then show "\<forall>(d, v) \<in> set (p_children (p\<lparr>p_children := bt_insert c c (p_children p)\<rparr>)). v = d \<and> (\<exists>t. k_tasks k d = Some t \<and> t_group t = d)"
    by auto
qed simp_all

lemma fork_spec:
  assumes ok: "sys_ok k" and t: "k_tasks k tid = Some t" "t_status t = Running \<or> t_status t = Ready"
    and p: "k_procs k (t_group t) = Some p" and new: "ta_alloc (k_ta k) = (new, ta)" "k_tasks k new = None" "k_procs k new = None"
    and pg: "bt_get (k_pg k) (p_pgid p) \<noteq> None"
  shows "\<exists>k' c p'. fork flag tid k = Some (new, k') \<and> sys_ok k' \<and>
    k_tasks k' = (k_tasks k)(new \<mapsto> c) \<and> t_status c = t_status t \<and> pend (t_sig c) = [] \<and> blocked_sigs (t_sig c) = 0 \<and>
    sig_handler (t_sig c) = (if cf_sighand flag then sig_handler (t_sig t) else sig_handler sm_new) \<and>
    t_files c = (if cf_files flag then t_files t else new) \<and> k_files k' (t_files c) = k_files k (t_files t) \<and>
    k_procs k' (t_group c) = Some p' \<and> k_pg k' = (if cf_thread flag then k_pg k else bt_get_mut (p_pgid p) (\<lambda>g. g @ [new]) (k_pg k)) \<and>
    (if cf_thread flag then t_group c = t_group t \<and> p_alive p' = p_alive p + 1
     else t_group c = new \<and> p_alive p' = 1 \<and> p_members p' = [(new, new)] \<and> p_parent p' = Some tid \<and> p_pgid p' = p_pgid p \<and>
       \<not> p_exiting p' \<and> p_children p' = [] \<and> k_procs k' (t_group t) = Some (p\<lparr>p_children := bt_insert new new (p_children p)\<rparr>))"
proof -
  let ?sm = "if cf_sighand flag then sm_from_another (t_sig t) else sm_new"
  let ?g = "if cf_thread flag then t_group t else new"
  define kf where "kf = k\<lparr>k_ta := ta, k_files := (if cf_files flag then k_files k else (k_files k)(new := k_files k (t_files t)))\<rparr>"
  define c where "c = \<lparr>t_tid = new, t_group = ?g, t_status = t_status t, t_exit_code = 0, t_sig = ?sm, t_waker = False, t_woken = False,
      t_files = (if cf_files flag then t_files t else new)\<rparr>"
  have kf: "k_tasks kf = k_tasks k" "k_procs kf = k_procs k" "sys_ok kf" "k_pg kf = k_pg k" "k_files kf (t_files c) = k_files k (t_files t)"
    using ok by (simp_all add: kf_def c_def)
  have tk: "task_ok k tid t" using ok t(1) by (simp add: sys_ok_def)
  have sm: "sm_ok ?sm" using tk sm_ok_new sm_ok_from_another by (simp add: task_ok_def)
  have ne: "new \<noteq> t_group t" using p new(3) by auto
  have sig: "pend ?sm = []" "blocked_sigs ?sm = 0"
    "sig_handler ?sm = (if cf_sighand flag then sig_handler (t_sig t) else sig_handler sm_new)"
    by (simp_all add: sm_new_def sm_from_another_def pend_def)
  have c: "t_tid c = new" "t_group c = ?g" "t_status c = t_status t" "t_sig c = ?sm" "t_files c = (if cf_files flag then t_files t else new)"
    by (simp_all add: c_def)
  show ?thesis
  proof (cases "cf_thread flag")
    case True
    define k3 where "k3 = set_proc (t_group t) (tg_push c p) (set_task new c kf)"
    have f: "fork flag tid k = Some (new, tm_add_task new k3)"
      using t(1) p new(1) True by (simp add: fork_def c_def k3_def kf_def Let_def)
    have "sys_ok k3"
      using new_task_ok [of kf c p] kf new(2) sm t(2) p True by (simp add: c k3_def)
    moreover have "k_tasks (tm_add_task new k3) = (k_tasks k)(new \<mapsto> c)" "k_procs (tm_add_task new k3) (t_group t) = Some (tg_push c p)"
      "k_files (tm_add_task new k3) = k_files kf" "k_pg (tm_add_task new k3) = k_pg k"
      using kf by (simp_all add: tm_add_task_def k3_def set_proc_def set_task_def)
    moreover have "p_alive (tg_push c p) = p_alive p + 1" using t(2) c by (auto simp: tg_push_def)
    moreover have "sys_ok (tm_add_task new k3) = sys_ok k3" by (simp add: tm_add_task_def)
    ultimately show ?thesis using f True sig kf(5)
      by (intro exI [of _ "tm_add_task new k3"] exI [of _ c] exI [of _ "tg_push c p"]) (simp add: c)
  next
    case False
    define p0 where "p0 = tg_new\<lparr>p_parent := Some tid, p_pgid := p_pgid p\<rparr>"
    define k2 where "k2 = set_proc new (tg_push c p0) (set_task new c kf)"
    define k3 where "k3 = set_proc (t_group t) (p\<lparr>p_children := bt_insert new new (p_children p)\<rparr>) k2"
    define k4 where "k4 = k3\<lparr>k_pg := bt_get_mut (p_pgid p) (\<lambda>g. g @ [new]) (k_pg k3)\<rparr>"
    have g: "t_group c = new" using False c by simp
    have pn: "tg_push c p0\<lparr>p_pgid := p_pgid p\<rparr> = tg_push c p0" by (simp add: tg_push_def p0_def Let_def)
    have k3n: "k_tasks k3 = (k_tasks k)(new \<mapsto> c)" "k_procs k3 new = Some (tg_push c p0)" "k_pg k3 = k_pg k" "k_files k3 = k_files kf"
      "k_procs k3 (t_group t) = Some (p\<lparr>p_children := bt_insert new new (p_children p)\<rparr>)"
      using ne kf by (simp_all add: k3_def k2_def set_proc_def set_task_def)
    have "set_proc new (tg_push c p0) k3 = k3" using fun_upd_triv [of "k_procs k3" new] k3n(2) by (simp add: set_proc_def)
    then have "set_pgid new (p_pgid p) k3 = Some k3" using k3n g pn by (simp add: set_pgid_def)
    then have add: "pg_add_task_to_group (p_pgid p) new k3 = Some k4"
      using pg k3n(3) by (auto simp: pg_add_task_to_group_def k4_def)
    have k3': "set_proc new (tg_push c p0) (set_proc (t_group t) (p\<lparr>p_children := bt_insert new new (p_children p)\<rparr>) (set_task new c kf)) = k3"
      using ne by (simp add: k3_def k2_def set_proc_def fun_upd_twist)
    have step: "fork flag tid k = do { k4 \<leftarrow> pg_add_task_to_group (p_pgid p) new (set_proc new (tg_push c p0)
        (set_proc (t_group t) (p\<lparr>p_children := bt_insert new new (p_children p)\<rparr>) (set_task new c kf))); Some (new, tm_add_task new k4) }"
      using t(1) p new(1) False by (simp add: fork_def Let_def kf_def c_def p0_def)
    have f: "fork flag tid k = Some (new, tm_add_task new k4)"
      using step add k3' by simp
    have "sys_ok k2"
      unfolding k2_def using new_task_ok [of kf c p0] kf new(2,3) sm t(2) g c(1) by (simp add: c p0_def tg_new_def)
    then have "sys_ok k3"
      unfolding k3_def using p ne g kf by (intro add_child_ok [where ct = c]) (simp_all add: k2_def set_proc_def set_task_def)
    then have "sys_ok (tm_add_task new k4)" by (simp add: tm_add_task_def k4_def)
    moreover have "p_alive (tg_push c p0) = 1" "p_members (tg_push c p0) = [(new, new)]" "p_parent (tg_push c p0) = Some tid"
      "p_pgid (tg_push c p0) = p_pgid p" "p_children (tg_push c p0) = []" "\<not> p_exiting (tg_push c p0)" using t(2) c by (auto simp: tg_push_def p0_def tg_new_def)
    ultimately show ?thesis using f False sig kf(5) k3n g
      by (intro exI [of _ "tm_add_task new k4"] exI [of _ c] exI [of _ "tg_push c p0"])
        (simp add: c tm_add_task_def k4_def bt_get_insert)
  qed
qed

section \<open>Correctness of wait\<close>

lemma tm_remove_all_ok:
  assumes "INITPROC_PID \<notin> set xs"
  shows "tm_remove_all xs k = Some (k\<lparr>k_tm := fold bt_remove xs (k_tm k)\<rparr>)"
  using assms by (induction xs arbitrary: k) (auto simp: tm_remove_task_def)

lemma fold_bt_remove_get:
  "bt_get (fold bt_remove xs m) x = (if x \<in> set xs then None else bt_get m x)"
  by (induction xs arbitrary: m) (auto simp: bt_get_remove)

text \<open>Emptying the group of a process whose threads are all dead.\<close>

lemma clear_group_ok:
  assumes ok: "sys_ok k" and p: "k_procs k g = Some p" "p_alive p = 0"
  shows "sys_ok (set_proc g (tg_clear p) k)"
proof -
  let ?k = "set_proc g (tg_clear p) k"
  have l: "live_at ?k = live_at k" by (simp add: live_at_def set_proc_def fun_eq_iff)
  have tk: "k_tasks ?k = k_tasks k" by (simp add: set_proc_def)
  have wf: "proc_wf k g p" using ok p(1) by (simp add: sys_ok_def)
  have dead: "\<not> live_at k a" if "(a, a) \<in> set (p_members p)" for a
  proof -
    have "length (filter (live_at k) (map fst (p_members p))) = 0" using wf p(2) unfolding proc_wf_def by argo
    then have "filter (live_at k) (map fst (p_members p)) = []" by blast
    then show ?thesis using that by (force simp: filter_empty_conv)
  qed
  have "task_ok ?k tid t" if t: "k_tasks k tid = Some t" for tid t
  proof -
    have tok: "task_ok k tid t" using ok t by (simp add: sys_ok_def)
    have "t_group t \<noteq> g" if "\<not> is_zombie t"
    proof
      assume "t_group t = g"
      then have "(tid, tid) \<in> set (p_members p)" using tok that p(1) by (auto simp: task_ok_def member_def)
      then show False using dead [of tid] that t by (simp add: live_at_def)
    qed
    then show ?thesis using tok by (auto simp: task_ok_def member_def set_proc_def)
  qed
  moreover have "proc_wf ?k h q" if "k_procs ?k h = Some q" for h q
  proof (cases "h = g")
    case True
    then have "q = tg_clear p" using that by (simp add: set_proc_def)
    then show ?thesis using wf tk by (simp add: proc_wf_def tg_clear_def)
  next
    case False
    then have "proc_wf k h q" using that ok by (simp add: set_proc_def sys_ok_def)
    then show ?thesis using l tk by (simp add: proc_wf_def)
  qed
  ultimately show ?thesis by (simp add: sys_ok_def tk)
qed

lemma remove_child_ok:
  assumes ok: "sys_ok k" and p: "k_procs k g = Some p"
  shows "sys_ok (set_proc g (p\<lparr>p_children := bt_remove c (p_children p)\<rparr>) k)"
proof (rule set_proc_ok [OF ok p])
  have wf: "proc_wf k g p" using ok p by (simp add: sys_ok_def)
  then show "bt_wf (p_children (p\<lparr>p_children := bt_remove c (p_children p)\<rparr>))" by (auto simp: proc_wf_def)
  have ch: "v = d \<and> (\<exists>t. k_tasks k d = Some t \<and> t_group t = d)" if "(d, v) \<in> set (p_children p)" for d v
    using wf that unfolding proc_wf_def by blast
  then show "\<forall>(d, v) \<in> set (p_children (p\<lparr>p_children := bt_remove c (p_children p)\<rparr>)). v = d \<and> (\<exists>t. k_tasks k d = Some t \<and> t_group t = d)"
    by auto
qed simp_all

lemma set_tg_iter:
  assumes "sys_ok k" "k_procs k g = Some p"
  shows "set (map t_tid (tg_iter p k)) = set (map fst (p_members p))"
proof -
  have wf: "proc_wf k g p" using assms by (simp add: sys_ok_def)
  have "\<exists>t \<in> set (tg_iter p k). t_tid t = a" if "(a, b) \<in> set (p_members p)" for a b
  proof -
    obtain t where t: "k_tasks k a = Some t" using wf \<open>(a, b) \<in> set (p_members p)\<close> unfolding proc_wf_def by blast
    then have "t \<in> set (tg_iter p k)" using that by (force simp: tg_iter_def List.map_filter_def)
    moreover have "t_tid t = a" using assms(1) t by (auto simp: sys_ok_def task_ok_def)
    ultimately show ?thesis by blast
  qed
  moreover have "t_tid t \<in> set (map fst (p_members p))" if "t \<in> set (tg_iter p k)" for t
    using tg_iter_in(3) [OF assms that] by force
  ultimately show ?thesis by force
qed

lemma reap_ok:
  assumes ok: "sys_ok k" and t: "k_tasks k tid = Some t" "k_procs k (t_group t) = Some p"
    and c: "k_tasks k c = Some ct" "t_group ct = c" "k_procs k c = Some cp" "p_alive cp = 0" "c \<noteq> t_group t"
    and init: "INITPROC_PID \<notin> set (map fst (p_members cp))" and pg: "bt_get (k_pg k) (p_pgid p) = Some g"
  shows "\<exists>k'. reap tid c k = Some ((c, t_exit_code ct), k') \<and> sys_ok k' \<and> k_tasks k' = k_tasks k \<and> k_files k' = k_files k \<and>
    k_procs k' = (k_procs k)(c \<mapsto> tg_clear cp, t_group t \<mapsto> p\<lparr>p_children := bt_remove c (p_children p)\<rparr>) \<and>
    bt_get (k_tm k') = (\<lambda>x. if x \<in> set (map fst (p_members cp)) then None else bt_get (k_tm k) x) \<and>
    bt_get (k_pg k') = (bt_get (k_pg k))(p_pgid p \<mapsto> filter (\<lambda>x. x = tid) g)"
proof -
  have tt: "t_tid ct = c" using ok c(1) by (auto simp: sys_ok_def task_ok_def)
  have set: "set (map t_tid (tg_iter cp k)) = set (map fst (p_members cp))" by (rule set_tg_iter [OF ok c(3)])
  define k1 where "k1 = k\<lparr>k_tm := fold bt_remove (map t_tid (tg_iter cp k)) (k_tm k)\<rparr>"
  define k2 where "k2 = set_proc c (tg_clear cp) k1"
  define k3 where "k3 = set_proc (t_group t) (p\<lparr>p_children := bt_remove c (p_children p)\<rparr>) k2"
  define k4 where "k4 = k3\<lparr>k_pg := bt_get_mut (p_pgid p) (filter (\<lambda>x. k_tasks k3 x \<noteq> None \<and> x = tid)) (k_pg k3)\<rparr>"
  have rm: "tm_remove_all (map t_tid (tg_iter cp k)) k = Some k1"
    unfolding k1_def by (rule tm_remove_all_ok) (use init set in simp)
  have k3: "k_tasks k3 = k_tasks k" "k_procs k3 (t_group t) = Some (p\<lparr>p_children := bt_remove c (p_children p)\<rparr>)" "k_pg k3 = k_pg k"
    by (simp_all add: k3_def k2_def k1_def set_proc_def)
  have "sys_ok k2" unfolding k2_def using ok c(3,4) by (intro clear_group_ok) (simp_all add: k1_def)
  then have "sys_ok k3" unfolding k3_def using t(2) c(5) by (intro remove_child_ok) (simp_all add: k2_def k1_def set_proc_def)
  then have ok4: "sys_ok k4" by (simp add: k4_def)
  have "pg_remove tid k3 = Some k4" using k3 t(1) pg by (simp add: pg_remove_def proc_of_def k4_def)
  then have eq: "reap tid c k = Some ((c, t_exit_code ct), k4)"
    using c(1,2,3,5) rm t tt by (simp add: reap_def k3_def k2_def k1_def set_proc_def Let_def)
  have "bt_get (k_pg k4) = (bt_get (k_pg k))(p_pgid p \<mapsto> filter (\<lambda>x. x = tid) g)"
    using pg k3 t(1) by (auto simp: k4_def bt_get_get_mut fun_eq_iff intro!: filter_cong)
  moreover have "bt_get (k_tm k4) = (\<lambda>x. if x \<in> set (map fst (p_members cp)) then None else bt_get (k_tm k) x)"
    using set by (simp add: k4_def k3_def k2_def k1_def set_proc_def fold_bt_remove_get fun_eq_iff del: set_map)
  ultimately show ?thesis using eq ok4 by (intro exI [of _ k4]) (simp add: k4_def k3_def k2_def k1_def set_proc_def)
qed

lemma kill_members_ok:
  assumes "sys_ok k" "\<forall>t \<in> set ts. \<exists>t'. k_tasks k (t_tid t) = Some t' \<and> same_task t t'"
  shows "\<exists>k'. kill_members self pid ts k = Some k' \<and> sig_only k k' \<and>
    (\<forall>t \<in> set ts. t_tid t \<noteq> self \<and> \<not> is_zombie t \<longrightarrow>
      (\<exists>t'. k_tasks k' (t_tid t) = Some t' \<and> SIGKILL \<in> si_signo ` set (pend (t_sig t'))))"
  using assms
proof (induction ts arbitrary: k)
  case (Cons t ts)
  show ?case
  proof (cases "t_tid t = self \<or> is_zombie t")
    case True
    then show ?thesis using Cons.IH [OF Cons.prems(1)] Cons.prems(2) by auto
  next
    case False
    let ?si = "\<lparr>si_signo = SIGKILL, si_code = SI_KERNEL, si_pid = Some pid\<rparr>"
    obtain t0 where t0: "k_tasks k (t_tid t) = Some t0" using Cons.prems(2) by auto
    from recv_at_ok [OF Cons.prems(1) t0, of ?si] obtain k1 t1 where
      k1: "recv_at (t_tid t) ?si k = Some k1" "sig_only k k1" "k_tasks k1 (t_tid t) = Some t1"
        "SIGKILL \<in> si_signo ` set (pend (t_sig t1))" by (auto simp: sig_nums)
    have "\<forall>u \<in> set ts. \<exists>u'. k_tasks k1 (t_tid u) = Some u' \<and> same_task u u'"
      using Cons.prems(2) sig_only_Some [OF k1(2)] same_task_trans by (metis list.set_intros(2))
    from Cons.IH [OF sig_only_ok [OF k1(2) Cons.prems(1)] this] obtain k2 where
      k2: "kill_members self pid ts k1 = Some k2" "sig_only k1 k2"
        "\<forall>t \<in> set ts. t_tid t \<noteq> self \<and> \<not> is_zombie t \<longrightarrow>
          (\<exists>t'. k_tasks k2 (t_tid t) = Some t' \<and> SIGKILL \<in> si_signo ` set (pend (t_sig t')))" by blast
    obtain t2 where "k_tasks k2 (t_tid t) = Some t2" "same_task t1 t2" using sig_only_Some [OF k2(2) k1(3)] by blast
    then have "\<exists>t'. k_tasks k2 (t_tid t) = Some t' \<and> SIGKILL \<in> si_signo ` set (pend (t_sig t'))"
      using k1(4) by (auto simp: same_task_def)
    then show ?thesis using False k1(1) k2 sig_only_trans [OF k1(2) k2(2)] by auto
  qed
qed simp

lemma two_live_members:
  assumes ok: "sys_ok k" and p: "k_procs k g = Some p"
    and t: "k_tasks k a = Some s" "\<not> is_zombie s" "t_group s = g" and u: "k_tasks k b = Some r" "\<not> is_zombie r" "t_group r = g"
    and ne: "a \<noteq> b"
  shows "2 \<le> p_alive p"
proof -
  have wf: "proc_wf k g p" using ok p by (simp add: sys_ok_def)
  have mem: "x \<in> set (filter (live_at k) (map fst (p_members p)))"
    if "k_tasks k x = Some y" "\<not> is_zombie y" "t_group y = g" for x y
  proof -
    have "task_ok k x y" using ok that(1) by (simp add: sys_ok_def)
    then have "(x, x) \<in> set (p_members p)" using that p by (auto simp: task_ok_def member_def)
    then show ?thesis using that by (force simp: live_at_def)
  qed
  have "card {a, b} \<le> card (set (filter (live_at k) (map fst (p_members p))))"
    using mem [OF t] mem [OF u] by (intro card_mono) auto
  also have "\<dots> \<le> length (filter (live_at k) (map fst (p_members p)))" by (rule card_length)
  finally show ?thesis using ne wf by (simp add: proc_wf_def)
qed

section \<open>The system after boot\<close>

abbreviation init_task :: task where
  "init_task \<equiv> \<lparr>t_tid = 1, t_group = 1, t_status = Ready, t_exit_code = 0, t_sig = sm_new, t_waker = False, t_woken = False, t_files = 1\<rparr>"

lemma add_initproc_eq:
  "add_initproc =
    \<lparr>k_tasks = [1 \<mapsto> init_task], k_procs = [1 \<mapsto> tg_new\<lparr>p_members := [(1, 1)], p_alive := 1, p_pgid := 1\<rparr>],
     k_tm = [(1, 1)], k_pg = [(1, [1])], k_ta = \<lparr>ta_current = 2, ta_recycled = []\<rparr>, k_files = [1 \<mapsto> fdt_new 0]\<rparr>"
  by (simp add: add_initproc_def ta_alloc_def ta_new_def INITPROC_PID_def set_proc_def set_task_def tg_push_def
      tg_new_def tm_add_task_def pg_add_group_def set_pgid_def Let_def)

lemma add_initproc_ok: "sys_ok add_initproc"
  using sm_ok_new by (auto simp: add_initproc_eq sys_ok_def task_ok_def proc_wf_def member_def live_at_def tg_new_def)

text \<open>The first fork of the init process, for the examples below.\<close>

lemma first_fork:
  assumes "\<not> cf_thread flag"
  obtains k c q where "fork flag 1 add_initproc = Some (2, k)" "sys_ok k" "k_tasks k = [1 \<mapsto> init_task, 2 \<mapsto> c]"
    "t_group c = 2" "t_status c = Ready" "pend (t_sig c) = []" "k_procs k 2 = Some q" "p_alive q = 1" "p_members q = [(2, 2)]"
    "p_parent q = Some 1" "p_children q = []" "k_pg k = [(1, [1, 2])]" "\<not> p_exiting q"
proof -
  let ?p = "tg_new\<lparr>p_members := [(1, 1)], p_alive := 1, p_pgid := 1\<rparr>"
  have h: "k_tasks add_initproc 1 = Some init_task" "t_status init_task = Running \<or> t_status init_task = Ready"
      "k_procs add_initproc (t_group init_task) = Some ?p" "ta_alloc (k_ta add_initproc) = (2, \<lparr>ta_current = 3, ta_recycled = []\<rparr>)"
      "k_tasks add_initproc 2 = None" "k_procs add_initproc 2 = None" "bt_get (k_pg add_initproc) (p_pgid ?p) \<noteq> None"
    by (simp_all add: add_initproc_eq ta_alloc_def bt_get_def)
  from fork_spec [OF add_initproc_ok h, of flag, unfolded if_not_P [OF assms]] obtain k c q where
    k: "fork flag 1 add_initproc = Some (2, k)" "sys_ok k" "k_tasks k = (k_tasks add_initproc)(2 \<mapsto> c)" "t_status c = t_status init_task"
      "pend (t_sig c) = []" "k_procs k (t_group c) = Some q" "t_group c = 2" "p_alive q = 1" "p_members q = [(2, 2)]" "p_parent q = Some 1"
      "\<not> p_exiting q" "p_children q = []" "k_pg k = bt_get_mut (p_pgid ?p) (\<lambda>g. g @ [2]) (k_pg add_initproc)"
    by blast
  show ?thesis by (rule that [of k c q]) (use k in \<open>simp_all add: add_initproc_eq bt_get_mut_def\<close>)
qed

lemma reachable_live: "sys_ok k \<Longrightarrow> k_tasks k tid = Some t \<Longrightarrow> \<not> is_zombie t \<Longrightarrow> reachable k tid"
  by (fastforce simp: sys_ok_def task_ok_def member_def reachable_def proc_of_def)

text \<open>
  C11. Exit does its bookkeeping exactly. In a well-formed system, a live thread that is not
  the init process exits without a panic: it becomes a zombie with the given code, its group
  counts one live thread fewer, and the system stays well-formed. As long as other threads
  of the process live, no other task and no descriptor table changes. When it was the last
  one, its descriptor table is emptied, all children are handed to the init process, which
  then lists them and is recorded as their parent, the process has no children left, and
  some thread of the parent process has \<^verbatim>\<open>SIGCHLD\<close> pending.
\<close>

theorem do_exit_correct:
  assumes ok: "sys_ok k" and t: "k_tasks k tid = Some t" "\<not> is_zombie t" "tid \<noteq> INITPROC_PID"
    and p: "k_procs k (t_group t) = Some p"
    and init: "reachable k INITPROC_PID" "k_tasks k INITPROC_PID = Some it" "t_group it \<noteq> t_group t"
    and par: "\<forall>q. p_parent p = Some q \<and> k_tasks k q \<noteq> None \<longrightarrow> reachable k q"
  shows "\<exists>k' t' p'. do_exit ecode tid k = Some k' \<and> sys_ok k' \<and>
    k_tasks k' tid = Some t' \<and> is_zombie t' \<and> t_exit_code t' = ecode \<and>
    k_procs k' (t_group t) = Some p' \<and> p_alive p = Suc (p_alive p') \<and>
    (p_alive p' \<noteq> 0 \<longrightarrow> k_files k' = k_files k \<and> (\<forall>u. u \<noteq> tid \<longrightarrow> k_tasks k' u = k_tasks k u)) \<and>
    (p_alive p' = 0 \<longrightarrow> p_children p' = [] \<and>
      (\<forall>f. k_files k (t_files t) = Some f \<longrightarrow> k_files k' (t_files t) = Some (f\<lparr>fd_table := []\<rparr>)) \<and>
      (\<forall>c \<in> set (map fst (p_children p)). \<exists>pi q. k_procs k' (t_group it) = Some pi \<and> bt_get (p_children pi) c = Some c \<and>
        k_procs k' c = Some q \<and> p_parent q = Some INITPROC_PID) \<and>
      (\<forall>q qt. p_parent p = Some q \<and> k_tasks k q = Some qt \<and> t_group t \<notin> set (map fst (p_children p)) \<longrightarrow>
        (\<exists>u ut. k_tasks k' u = Some ut \<and> t_group ut = t_group qt \<and> SIGCHLD \<in> si_signo ` set (pend (t_sig ut)))))"
  by (rule do_exit_spec [OF ok t p init par])

theorem do_exit_correct_witness:
  "\<exists>k k' t' i q. fork \<lparr>cf_thread = False, cf_sighand = False, cf_files = False\<rparr> 1 add_initproc = Some (2, k) \<and>
     do_exit 256 2 k = Some k' \<and> k_tasks k' 2 = Some t' \<and> is_zombie t' \<and> t_exit_code t' = 256 \<and>
     k_tasks k' i = Some q \<and> t_group q = 1 \<and> SIGCHLD \<in> si_signo ` set (pend (t_sig q))"
proof -
  let ?f = "\<lparr>cf_thread = False, cf_sighand = False, cf_files = False\<rparr>"
  obtain k c q where k: "fork ?f 1 add_initproc = Some (2, k)" "sys_ok k" "k_tasks k = [1 \<mapsto> init_task, 2 \<mapsto> c]"
    "t_group c = 2" "t_status c = Ready" "pend (t_sig c) = []" "k_procs k 2 = Some q" "p_alive q = 1" "p_members q = [(2, 2)]"
    "p_parent q = Some 1" "p_children q = []" by (rule first_fork [of ?f]) simp_all
  have h: "k_tasks k 2 = Some c" "\<not> is_zombie c" "2 \<noteq> INITPROC_PID" "k_procs k (t_group c) = Some q"
      "k_tasks k INITPROC_PID = Some init_task" "t_group init_task \<noteq> t_group c"
    using k by (simp_all add: INITPROC_PID_def)
  have r: "reachable k INITPROC_PID" by (rule reachable_live [OF k(2) h(5)]) simp
  have "\<forall>x. p_parent q = Some x \<and> k_tasks k x \<noteq> None \<longrightarrow> reachable k x" using k(10) r by (simp add: INITPROC_PID_def)
  from do_exit_correct [OF k(2) h(1-4) r h(5,6) this, of 256] show ?thesis
  proof (elim exE conjE)
    fix k' t' p'
    assume e: "do_exit 256 2 k = Some k'" "k_tasks k' 2 = Some t'" "is_zombie t'" "t_exit_code t' = 256" "p_alive q = Suc (p_alive p')"
      and s: "p_alive p' = 0 \<longrightarrow> p_children p' = [] \<and>
        (\<forall>f. k_files k (t_files c) = Some f \<longrightarrow> k_files k' (t_files c) = Some (f\<lparr>fd_table := []\<rparr>)) \<and>
        (\<forall>c \<in> set (map fst (p_children q)). \<exists>pi q. k_procs k' (t_group init_task) = Some pi \<and> bt_get (p_children pi) c = Some c \<and>
          k_procs k' c = Some q \<and> p_parent q = Some INITPROC_PID) \<and>
        (\<forall>x qt. p_parent q = Some x \<and> k_tasks k x = Some qt \<and> t_group c \<notin> set (map fst (p_children q)) \<longrightarrow>
          (\<exists>u ut. k_tasks k' u = Some ut \<and> t_group ut = t_group qt \<and> SIGCHLD \<in> si_signo ` set (pend (t_sig ut))))"
    have "p_alive p' = 0" using e(5) k(8) by simp
    with s k(10,11) h(5) have "\<exists>u ut. k_tasks k' u = Some ut \<and> t_group ut = t_group init_task \<and> SIGCHLD \<in> si_signo ` set (pend (t_sig ut))"
      by (simp add: INITPROC_PID_def)
    then show ?thesis using k(1) e(1-4) by auto
  qed
qed

text \<open>
  C12. Fork creates exactly one task. With a fresh tid, a running task and its process group
  registered, \<^verbatim>\<open>fork\<close> does not panic and keeps the system well-formed. The new task is in the
  caller's state, has no pending signals and an empty signal mask, and sees the caller's
  descriptors, through the same table or through a copy. A thread joins the
  caller's group, which counts one live thread more; a process is the only, live member of
  a new group whose parent is the caller and whose process group is the caller's, and it
  is among the caller's children. No other task changes.
\<close>

theorem fork_correct:
  assumes ok: "sys_ok k" and t: "k_tasks k tid = Some t" "t_status t = Running \<or> t_status t = Ready"
    and p: "k_procs k (t_group t) = Some p" and new: "ta_alloc (k_ta k) = (new, ta)" "k_tasks k new = None" "k_procs k new = None"
    and pg: "bt_get (k_pg k) (p_pgid p) \<noteq> None"
  shows "\<exists>k' c p'. fork flag tid k = Some (new, k') \<and> sys_ok k' \<and>
    k_tasks k' = (k_tasks k)(new \<mapsto> c) \<and> t_status c = t_status t \<and> pend (t_sig c) = [] \<and> blocked_sigs (t_sig c) = 0 \<and>
    sig_handler (t_sig c) = (if cf_sighand flag then sig_handler (t_sig t) else sig_handler sm_new) \<and>
    t_files c = (if cf_files flag then t_files t else new) \<and> k_files k' (t_files c) = k_files k (t_files t) \<and>
    k_procs k' (t_group c) = Some p' \<and> k_pg k' = (if cf_thread flag then k_pg k else bt_get_mut (p_pgid p) (\<lambda>g. g @ [new]) (k_pg k)) \<and>
    (if cf_thread flag then t_group c = t_group t \<and> p_alive p' = p_alive p + 1
     else t_group c = new \<and> p_alive p' = 1 \<and> p_members p' = [(new, new)] \<and> p_parent p' = Some tid \<and> p_pgid p' = p_pgid p \<and>
       \<not> p_exiting p' \<and> p_children p' = [] \<and> k_procs k' (t_group t) = Some (p\<lparr>p_children := bt_insert new new (p_children p)\<rparr>))"
  by (rule fork_spec [OF ok t p new pg])

theorem fork_correct_witness:
  "\<exists>k c. fork \<lparr>cf_thread = True, cf_sighand = True, cf_files = True\<rparr> 1 add_initproc = Some (2, k) \<and> sys_ok k \<and>
     k_tasks k 2 = Some c \<and> t_group c = 1 \<and> (\<exists>p. k_procs k 1 = Some p \<and> p_alive p = 2)"
proof -
  let ?p = "tg_new\<lparr>p_members := [(1, 1)], p_alive := 1, p_pgid := 1\<rparr>"
  have h: "k_tasks add_initproc 1 = Some init_task" "t_status init_task = Running \<or> t_status init_task = Ready"
      "k_procs add_initproc (t_group init_task) = Some ?p" "ta_alloc (k_ta add_initproc) = (2, \<lparr>ta_current = 3, ta_recycled = []\<rparr>)"
      "k_tasks add_initproc 2 = None" "k_procs add_initproc 2 = None" "bt_get (k_pg add_initproc) (p_pgid ?p) \<noteq> None"
    by (simp_all add: add_initproc_eq ta_alloc_def bt_get_def)
  let ?f = "\<lparr>cf_thread = True, cf_sighand = True, cf_files = True\<rparr>"
  from fork_correct [OF add_initproc_ok h, of ?f] show ?thesis
  proof (elim exE conjE)
    fix k c p
    assume "fork ?f 1 add_initproc = Some (2, k)" "sys_ok k" "k_tasks k = (k_tasks add_initproc)(2 \<mapsto> c)" "k_procs k (t_group c) = Some p"
      "if cf_thread ?f then t_group c = t_group init_task \<and> p_alive p = p_alive ?p + 1
       else t_group c = 2 \<and> p_alive p = 1 \<and> p_members p = [(2, 2)] \<and> p_parent p = Some 1 \<and> p_pgid p = p_pgid ?p \<and>
         \<not> p_exiting p \<and> p_children p = [] \<and> k_procs k (t_group init_task) = Some (?p\<lparr>p_children := bt_insert 2 2 (p_children ?p)\<rparr>)"
    then show ?thesis by simp
  qed
qed

text \<open>
  C13. Waiting reaps a dead child once. Let \<open>c\<close> be a child of the caller's process, not the
  init process, and let the caller's process group be registered. If \<open>c\<close> is dead,
  \<^verbatim>\<open>waitpid(c)\<close> returns its tid and the exit code of its leader, takes its threads out of the
  task manager and \<open>c\<close> out of the children, keeps the system well-formed and all task states as
  they are, and a second \<^verbatim>\<open>waitpid(c)\<close> gives \<^verbatim>\<open>ECHILD\<close>. If \<open>c\<close> is alive, nothing is reaped: with \<^verbatim>\<open>WNOHANG\<close>
  the call returns 0, otherwise the caller is suspended and woken by \<^verbatim>\<open>SIGCHLD\<close>. Reaping also
  rewrites the process group of the caller: every member other than the caller is dropped
  from it, the reaped child or not.
\<close>

theorem waitpid_correct:
  assumes ok: "sys_ok k" and t: "k_tasks k tid = Some t" "k_procs k (t_group t) = Some p"
    and c: "bt_get (p_children p) c = Some c" "0 < c" "c \<noteq> t_group t" "k_procs k c = Some cp" "INITPROC_PID \<notin> set (map fst (p_members cp))"
    and pg: "bt_get (k_pg k) (p_pgid p) = Some g"
  shows "\<exists>r k'. sys_waitpid (int c) True wnohang tid k = Some (r, k') \<and>
    (if reapable k c then
       (\<exists>ct. k_tasks k c = Some ct \<and> r = Ok (Some (c, t_exit_code ct))) \<and> sys_ok k' \<and> k_tasks k' = k_tasks k \<and>
       k_procs k' = (k_procs k)(c \<mapsto> tg_clear cp, t_group t \<mapsto> p\<lparr>p_children := bt_remove c (p_children p)\<rparr>) \<and>
       bt_get (k_tm k') = (\<lambda>x. if x \<in> set (map fst (p_members cp)) then None else bt_get (k_tm k) x) \<and>
       bt_get (k_pg k') = (bt_get (k_pg k))(p_pgid p \<mapsto> filter (\<lambda>x. x = tid) g) \<and>
       sys_waitpid (int c) True wnohang tid k' = Some (Err ECHILD, k')
     else if wnohang then r = Ok (Some (0, 0)) \<and> k' = k
     else r = Ok None \<and> (\<exists>t'. k' = set_task tid t' k \<and> t_status t' = Interruptable \<and> contain_sig (wake_sigs (t_sig t')) SIGCHLD))"
proof -
  have wf: "proc_wf k (t_group t) p" using ok t by (simp add: sys_ok_def)
  then have "(c, c) \<in> set (p_children p)" using c(1) bt_get_iff [of "p_children p" c c] by (simp add: proc_wf_def)
  then obtain ct where ct: "k_tasks k c = Some ct" "t_group ct = c" using wf unfolding proc_wf_def by blast
  have ne: "p_children p \<noteq> []" using c(1) by (auto simp: bt_get_def)
  have find: "wait_find (int c) tid k = Some (Ok (if reapable k c then Some c else None))"
    using t c(1,2) ne by (simp add: wait_find_def wait_pick_def proc_of_def)
  show ?thesis
  proof (cases "reapable k c")
    case True
    then have "p_alive cp = 0" using ct c(4) by (simp add: reapable_def)
    from reap_ok [OF ok t ct c(4) this c(3,5) pg] obtain k' where
      k': "reap tid c k = Some ((c, t_exit_code ct), k')" "sys_ok k'" "k_tasks k' = k_tasks k"
        "k_procs k' = (k_procs k)(c \<mapsto> tg_clear cp, t_group t \<mapsto> p\<lparr>p_children := bt_remove c (p_children p)\<rparr>)"
        "bt_get (k_tm k') = (\<lambda>x. if x \<in> set (map fst (p_members cp)) then None else bt_get (k_tm k) x)"
        "bt_get (k_pg k') = (bt_get (k_pg k))(p_pgid p \<mapsto> filter (\<lambda>x. x = tid) g)" by blast
    have "proc_of tid k' = Some (p\<lparr>p_children := bt_remove c (p_children p)\<rparr>)" using k'(3,4) t by (simp add: proc_of_def)
    then have "sys_waitpid (int c) True wnohang tid k' = Some (Err ECHILD, k')"
      using c(2) by (simp add: sys_waitpid_def wait_find_def wait_pick_def bt_get_remove)
    moreover have "sys_waitpid (int c) True wnohang tid k = Some (Ok (Some (c, t_exit_code ct)), k')"
      using find True k'(1) by (simp add: sys_waitpid_def wait_finish_def)
    ultimately show ?thesis using True ct(1) k'(2-6) by (intro exI [of _ "Ok (Some (c, t_exit_code ct))"] exI [of _ k']) simp
  next
    case False
    let ?m = "(t_sig t)\<lparr>wake_sigs := (NOT (blocked_sigs (t_sig t)) OR sig_mask SIGCHLD) OR sig_mask SIGKILL OR sig_mask SIGSTOP\<rparr>"
    have "contain_sig (wake_sigs ?m) SIGCHLD" by (simp add: contain_sig_bit bit_or_iff bit_sig_mask)
    then show ?thesis using find False t(1)
      by (auto simp: sys_waitpid_def wait_park_def set_wake_up_sigs_def set_task_def intro!: exI [of _ "t\<lparr>t_status := Interruptable, t_sig := ?m\<rparr>"])
  qed
qed

abbreviation dead_child :: ksys where
  "dead_child \<equiv>
    \<lparr>k_tasks = [1 \<mapsto> init_task, 2 \<mapsto> init_task\<lparr>t_tid := 2, t_group := 2, t_status := Zombie, t_exit_code := 256, t_files := 2\<rparr>],
     k_procs = [1 \<mapsto> tg_new\<lparr>p_members := [(1, 1)], p_alive := 1, p_pgid := 1, p_children := [(2, 2)]\<rparr>,
                2 \<mapsto> tg_new\<lparr>p_members := [(2, 2)], p_parent := Some 1, p_pgid := 1\<rparr>],
     k_tm = [(1, 1), (2, 2)], k_pg = [(1, [1, 2])], k_ta = \<lparr>ta_current = 3, ta_recycled = []\<rparr>, k_files = Map.empty\<rparr>"

theorem waitpid_correct_witness:
  "\<exists>k'. sys_waitpid 2 True False 1 dead_child = Some (Ok (Some (2, 256)), k') \<and> sys_ok k' \<and>
     sys_waitpid 2 True False 1 k' = Some (Err ECHILD, k')"
proof -
  have ok: "sys_ok dead_child"
    using sm_ok_new by (auto simp: sys_ok_def task_ok_def proc_wf_def member_def live_at_def tg_new_def)
  have r: "reapable dead_child 2" by (simp add: reapable_def tg_new_def)
  let ?p = "tg_new\<lparr>p_members := [(1, 1)], p_alive := 1, p_pgid := 1, p_children := [(2, 2)]\<rparr>"
  let ?c = "tg_new\<lparr>p_members := [(2, 2)], p_parent := Some 1, p_pgid := 1\<rparr>"
  have h: "k_tasks dead_child 1 = Some init_task" "k_procs dead_child (t_group init_task) = Some ?p" "bt_get (p_children ?p) 2 = Some 2"
    "0 < (2::nat)" "2 \<noteq> t_group init_task" "k_procs dead_child 2 = Some ?c" "INITPROC_PID \<notin> set (map fst (p_members ?c))"
    "bt_get (k_pg dead_child) (p_pgid ?p) = Some [1, 2]" by (simp_all add: bt_get_def INITPROC_PID_def)
  from waitpid_correct [OF ok h, of False, unfolded if_P [OF r]] obtain rs k' ct where
    "sys_waitpid (int 2) True False 1 dead_child = Some (rs, k')" "k_tasks dead_child 2 = Some ct" "rs = Ok (Some (2, t_exit_code ct))"
    "sys_ok k'" "sys_waitpid (int 2) True False 1 k' = Some (Err ECHILD, k')" by blast
  then show ?thesis by (intro exI [of _ k']) auto
qed

lemma group_exit_spec:
  assumes ok: "sys_ok k" and t: "k_tasks k tid = Some t" "\<not> is_zombie t" "tid \<noteq> INITPROC_PID"
    and p: "k_procs k (t_group t) = Some p" "\<not> p_exiting p"
    and init: "reachable k INITPROC_PID" "k_tasks k INITPROC_PID = Some it" "t_group it \<noteq> t_group t"
    and par: "\<forall>q. p_parent p = Some q \<and> k_tasks k q \<noteq> None \<longrightarrow> reachable k q"
  shows "\<exists>k' t'. do_group_exit ecode tid k = Some k' \<and> sys_ok k' \<and> k_tasks k' tid = Some t' \<and> is_zombie t' \<and> t_exit_code t' = ecode \<and>
    (\<forall>u s. k_tasks k u = Some s \<and> t_group s = t_group t \<and> u \<noteq> tid \<and> \<not> is_zombie s \<longrightarrow>
      (\<exists>s'. k_tasks k' u = Some s' \<and> SIGKILL \<in> si_signo ` set (pend (t_sig s'))))"
proof -
  define p1 where "p1 = p\<lparr>p_exiting := True, p_exit_code := ecode\<rparr>"
  define k1 where "k1 = set_proc (t_group t) p1 k"
  have wf: "proc_wf k (t_group t) p" using ok p by (simp add: sys_ok_def)
  have ok1: "sys_ok k1" unfolding k1_def using wf by (intro set_proc_ok [OF ok p(1)]) (auto simp: p1_def proc_wf_def)
  have k1: "k_tasks k1 = k_tasks k" "k_procs k1 (t_group t) = Some p1" by (simp_all add: k1_def set_proc_def)
  have it: "tg_iter p k1 = tg_iter p1 k1" by (simp add: tg_iter_def p1_def)
  have "\<forall>s \<in> set (tg_iter p1 k1). \<exists>s'. k_tasks k1 (t_tid s) = Some s' \<and> same_task s s'"
    using tg_iter_in(1) [OF ok1 k1(2)] by auto
  from kill_members_ok [OF ok1 this, of tid "t_group t"] obtain k2 where
    k2: "kill_members tid (t_group t) (tg_iter p1 k1) k1 = Some k2" "sig_only k1 k2"
      "\<forall>s \<in> set (tg_iter p1 k1). t_tid s \<noteq> tid \<and> \<not> is_zombie s \<longrightarrow>
        (\<exists>s'. k_tasks k2 (t_tid s) = Some s' \<and> SIGKILL \<in> si_signo ` set (pend (t_sig s')))" by blast
  have ok2: "sys_ok k2" by (rule sig_only_ok [OF k2(2) ok1])
  have pr: "k_procs k2 = k_procs k1" using k2(2) by (simp add: sig_only_def)
  have tk: "\<exists>s'. k_tasks k2 u = Some s' \<and> same_task s s'" if "k_tasks k u = Some s" for u s
    using sig_only_Some [OF k2(2)] that k1(1) by simp
  obtain t2 where t2: "k_tasks k2 tid = Some t2" "same_task t t2" using tk [OF t(1)] by blast
  obtain it2 where it2: "k_tasks k2 INITPROC_PID = Some it2" "t_group it2 = t_group it" using tk [OF init(2)] by (auto simp: same_task_def)
  have g2: "t_group t2 = t_group t" "\<not> is_zombie t2" using t2(2) t(2) by (auto simp: same_task_def)
  have reach: "reachable k2 q" if "reachable k q" for q
  proof (rule reachable_mono [OF that])
    show "\<exists>s'. k_tasks k2 q = Some s' \<and> t_group s' = t_group s" if "k_tasks k q = Some s" for s
      using tk [OF that] by (auto simp: same_task_def)
    show "\<exists>q'. k_procs k2 h = Some q' \<and> p_members q' = p_members q" if "k_procs k h = Some q" for h q
      using that p(1) by (auto simp: pr k1_def set_proc_def p1_def)
  qed
  have "reachable k2 q" if "p_parent p1 = Some q" "k_tasks k2 q \<noteq> None" for q
  proof -
    have "k_tasks k q \<noteq> None" using sig_only_Some_rev [OF k2(2)] that(2) k1(1) by auto
    then show ?thesis using par that(1) reach by (simp add: p1_def)
  qed
  then have par2: "\<forall>q. p_parent p1 = Some q \<and> k_tasks k2 q \<noteq> None \<longrightarrow> reachable k2 q" by blast
  have p2: "k_procs k2 (t_group t2) = Some p1" "t_group it2 \<noteq> t_group t2" using pr k1(2) g2 it2(2) init(3) by simp_all
  from do_exit_spec [OF ok2 t2(1) g2(2) t(3) p2(1) reach [OF init(1)] it2(1) p2(2) par2, of ecode] show ?thesis
  proof (elim exE conjE)
    fix k3 t3 p3
    assume k3: "do_exit ecode tid k2 = Some k3" "sys_ok k3" "k_tasks k3 tid = Some t3" "is_zombie t3" "t_exit_code t3 = ecode"
      "p_alive p1 = Suc (p_alive p3)" "p_alive p3 \<noteq> 0 \<longrightarrow> k_files k3 = k_files k2 \<and> (\<forall>u. u \<noteq> tid \<longrightarrow> k_tasks k3 u = k_tasks k2 u)"
    have "\<exists>s'. k_tasks k3 u = Some s' \<and> SIGKILL \<in> si_signo ` set (pend (t_sig s'))"
      if u: "k_tasks k u = Some s" "t_group s = t_group t" "u \<noteq> tid" "\<not> is_zombie s" for u s
    proof -
      have "2 \<le> p_alive p" by (rule two_live_members [OF ok p(1) t(1,2) refl u(1,4,2)]) (use u(3) in simp)
      then have "p_alive p3 \<noteq> 0" using k3(6) by (simp add: p1_def)
      then have same: "k_tasks k3 u = k_tasks k2 u" using k3(7) u(3) by blast
      have tok: "task_ok k1 u s" using ok1 k1(1) u(1) by (simp add: sys_ok_def)
      then have "(u, u) \<in> set (p_members p1)" using u(2,4) k1(2) by (auto simp: task_ok_def member_def)
      then have "s \<in> set (tg_iter p1 k1)" using u(1) k1(1) by (force simp: tg_iter_def List.map_filter_def)
      moreover have "t_tid s = u" using tok by (simp add: task_ok_def)
      ultimately show ?thesis using k2(3) u(3,4) same by auto
    qed
    moreover have "do_group_exit ecode tid k = Some k3"
      using t(1) p k2(1) k3(1) it by (simp add: do_group_exit_def Let_def flip: p1_def k1_def)
    ultimately show ?thesis using k3(2-5) by blast
  qed
qed

text \<open>
  C31. A group exit reaches every thread. When a live thread of a process other than init ends
  its process and no exit is under way yet, the exit code is recorded for the group, the
  calling thread becomes a zombie with that code, every other live thread of the process has
  \<^verbatim>\<open>SIGKILL\<close> pending, and the system stays well-formed.
\<close>

theorem group_exit_kills_all:
  assumes ok: "sys_ok k" and t: "k_tasks k tid = Some t" "\<not> is_zombie t" "tid \<noteq> INITPROC_PID"
    and p: "k_procs k (t_group t) = Some p" "\<not> p_exiting p"
    and init: "reachable k INITPROC_PID" "k_tasks k INITPROC_PID = Some it" "t_group it \<noteq> t_group t"
    and par: "\<forall>q. p_parent p = Some q \<and> k_tasks k q \<noteq> None \<longrightarrow> reachable k q"
  shows "\<exists>k' t'. do_group_exit ecode tid k = Some k' \<and> sys_ok k' \<and> k_tasks k' tid = Some t' \<and> is_zombie t' \<and> t_exit_code t' = ecode \<and>
    (\<forall>u s. k_tasks k u = Some s \<and> t_group s = t_group t \<and> u \<noteq> tid \<and> \<not> is_zombie s \<longrightarrow>
      (\<exists>s'. k_tasks k' u = Some s' \<and> SIGKILL \<in> si_signo ` set (pend (t_sig s'))))"
  by (rule group_exit_spec [OF ok t p init par])

theorem group_exit_kills_all_witness:
  "\<exists>k k' t'. fork \<lparr>cf_thread = False, cf_sighand = False, cf_files = False\<rparr> 1 add_initproc = Some (2, k) \<and>
     do_group_exit 9 2 k = Some k' \<and> sys_ok k' \<and> k_tasks k' 2 = Some t' \<and> is_zombie t' \<and> t_exit_code t' = 9"
proof -
  let ?f = "\<lparr>cf_thread = False, cf_sighand = False, cf_files = False\<rparr>"
  obtain k c q where k: "fork ?f 1 add_initproc = Some (2, k)" "sys_ok k" "k_tasks k = [1 \<mapsto> init_task, 2 \<mapsto> c]"
    "t_group c = 2" "t_status c = Ready" "k_procs k 2 = Some q" "p_parent q = Some 1" "\<not> p_exiting q" by (rule first_fork [of ?f]) simp_all
  have h: "k_tasks k 2 = Some c" "\<not> is_zombie c" "2 \<noteq> INITPROC_PID" "k_procs k (t_group c) = Some q" "\<not> p_exiting q"
      "k_tasks k INITPROC_PID = Some init_task" "t_group init_task \<noteq> t_group c"
    using k by (simp_all add: INITPROC_PID_def)
  have r: "reachable k INITPROC_PID" by (rule reachable_live [OF k(2) h(6)]) simp
  have "\<forall>x. p_parent q = Some x \<and> k_tasks k x \<noteq> None \<longrightarrow> reachable k x" using k(7) r by (simp add: INITPROC_PID_def)
  from group_exit_kills_all [OF k(2) h(1-5) r h(6,7) this, of 9] k(1) show ?thesis by blast
qed

end
