(* ===== verification/User_Mem.thy ===== *)
theory User_Mem
  imports Chronix_Prelude
begin

text \<open>
  User memory as bytes, with little-endian words stored in it: what a \<^verbatim>\<open>write\<close> through a user
  pointer leaves in memory and a later read finds there. An address space is abstracted to its
  bytes and to the addresses a page fault can make writable.
\<close>

unbundle bit_operations_syntax

type_synonym bytes = "usize \<Rightarrow> u8"

record umem =
  um_bytes :: bytes
  um_writable :: "usize \<Rightarrow> bool"

definition byte_of :: "'a::len word \<Rightarrow> nat \<Rightarrow> u8" where
  "byte_of w i = ucast (drop_bit (8 * i) w)"

definition store_word :: "usize \<Rightarrow> 'a::len word \<Rightarrow> bytes \<Rightarrow> bytes" where
  "store_word a w m = (\<lambda>b. if unat (b - a) < LENGTH('a) div 8 then byte_of w (unat (b - a)) else m b)"

definition load_word :: "usize \<Rightarrow> bytes \<Rightarrow> 'a::len word" where
  "load_word a m = foldr (\<lambda>i acc. push_bit (8 * i) (ucast (m (a + of_nat i))) OR acc) [0 ..< LENGTH('a) div 8] 0"

fun store_words :: "usize \<Rightarrow> 'a::len word list \<Rightarrow> bytes \<Rightarrow> bytes" where
  "store_words a [] m = m"
| "store_words a (w # ws) m = store_words (a + of_nat (LENGTH('a) div 8)) ws (store_word a w m)"

fun load_words :: "usize \<Rightarrow> nat \<Rightarrow> bytes \<Rightarrow> 'a::len word list" where
  "load_words a 0 m = []"
| "load_words a (Suc n) m = load_word a m # load_words (a + of_nat (LENGTH('a) div 8)) n m"

text \<open>\<^verbatim>\<open>ensure_write\<close> of \<open>n\<close> bytes at an address, and the write that follows it.\<close>

definition ensure_write :: "usize \<Rightarrow> nat \<Rightarrow> umem \<Rightarrow> bool" where
  "ensure_write a n u = list_all (\<lambda>i. um_writable u (a + of_nat i)) [0 ..< n]"

section \<open>Reading back what was written\<close>

lemma bit_load_word:
  assumes "n < LENGTH('a)" "8 dvd LENGTH('a)"
  shows "bit (load_word a m :: 'a::len word) n = bit (m (a + of_nat (n div 8))) (n mod 8)"
proof -
  let ?k = "LENGTH('a) div 8"
  have or: "bit (foldr (\<lambda>i acc. push_bit (8 * i) (ucast (m (a + of_nat i))) OR acc) xs (0::'a word)) n \<longleftrightarrow>
      (\<exists>i \<in> set xs. 8 * i \<le> n \<and> n - 8 * i < 8 \<and> bit (m (a + of_nat i)) (n - 8 * i))" for xs
    using assms(1) by (induction xs) (auto simp: bit_or_iff bit_push_bit_iff bit_ucast_iff dest: bit_imp_le_length)
  have "(\<exists>i \<in> {0 ..< ?k}. 8 * i \<le> n \<and> n - 8 * i < 8 \<and> bit (m (a + of_nat i)) (n - 8 * i)) \<longleftrightarrow>
      bit (m (a + of_nat (n div 8))) (n mod 8)"
  proof
    assume "\<exists>i \<in> {0 ..< ?k}. 8 * i \<le> n \<and> n - 8 * i < 8 \<and> bit (m (a + of_nat i)) (n - 8 * i)"
    then obtain i where i: "8 * i \<le> n" "n - 8 * i < 8" "bit (m (a + of_nat i)) (n - 8 * i)" by blast
    have d: "n div 8 = i" using i(1,2) by (intro div_nat_eqI) auto
    moreover have "n mod 8 = n - 8 * i" using minus_mult_div_eq_mod [of n 8] d by simp
    ultimately show "bit (m (a + of_nat (n div 8))) (n mod 8)" using i(3) by simp
  next
    assume b: "bit (m (a + of_nat (n div 8))) (n mod 8)"
    have "n div 8 < ?k" using assms by (auto elim!: dvdE)
    then show "\<exists>i \<in> {0 ..< ?k}. 8 * i \<le> n \<and> n - 8 * i < 8 \<and> bit (m (a + of_nat i)) (n - 8 * i)"
      using b by (intro bexI [of _ "n div 8"]) (auto simp: minus_mult_div_eq_mod)
  qed
  then show ?thesis unfolding load_word_def using or [of "[0 ..< ?k]"] by simp
qed

lemma load_word_cong:
  assumes "\<And>i. i < LENGTH('a) div 8 \<Longrightarrow> m (a + of_nat i) = m' (a + of_nat i)"
  shows "(load_word a m :: 'a::len word) = load_word a m'"
proof -
  have "foldr (\<lambda>i acc. push_bit (8 * i) (ucast (m (a + of_nat i))) OR acc) xs z =
      foldr (\<lambda>i acc. push_bit (8 * i) (ucast (m' (a + of_nat i))) OR acc) xs (z :: 'a word)"
    if "\<forall>i \<in> set xs. i < LENGTH('a) div 8" for xs z
    using that assms by (induction xs) auto
  then show ?thesis by (simp add: load_word_def)
qed

lemma unat_offset: "i < 2 ^ 64 \<Longrightarrow> unat ((a + of_nat i) - a :: usize) = i"
  by (simp add: unat_of_nat)

lemma load_store_word:
  assumes "8 dvd LENGTH('a)" "LENGTH('a) < 2 ^ 64"
  shows "load_word a (store_word a w m) = (w :: 'a::len word)"
proof (rule bit_word_eqI)
  fix n assume n: "n < LENGTH('a)"
  have k: "n div 8 < LENGTH('a) div 8" using n assms(1) by (auto elim!: dvdE)
  have "n div 8 < 2 ^ 64" using n assms(2) div_le_dividend [of n 8] by linarith
  then have "unat ((a + of_nat (n div 8)) - a) = n div 8" by (rule unat_offset)
  then have "store_word a w m (a + of_nat (n div 8)) = byte_of w (n div 8)" using k by (simp add: store_word_def)
  then have "bit (load_word a (store_word a w m) :: 'a word) n = bit (byte_of w (n div 8)) (n mod 8)"
    using bit_load_word [OF n assms(1)] by simp
  also have "\<dots> = bit w n" by (simp add: byte_of_def bit_ucast_iff bit_drop_bit_eq)
  finally show "bit (load_word a (store_word a w m) :: 'a word) n = bit w n" .
qed

lemma store_words_frame:
  assumes "length (ws :: 'a::len word list) * (LENGTH('a) div 8) \<le> unat (b - a)"
  shows "store_words a ws m b = m b"
  using assms
proof (induction ws arbitrary: a m)
  case (Cons w ws)
  let ?k = "LENGTH('a) div 8"
  have le: "?k \<le> unat (b - a)" using Cons.prems by simp
  then have k: "of_nat ?k \<le> b - a" by (simp add: word_le_nat_alt unat_of_nat)
  have ku: "unat (of_nat ?k :: usize) = ?k"
    using le unsigned_less [of "b - a", where 'a = nat] by (simp add: unat_of_nat)
  have "unat (b - (a + of_nat ?k)) = unat (b - a) - ?k"
    using unat_sub [OF k] ku by (simp add: algebra_simps)
  then have "length ws * ?k \<le> unat (b - (a + of_nat ?k))" using Cons.prems by simp
  then show ?case using Cons.IH le by (simp add: store_word_def)
qed simp

lemma unat_before:
  assumes "i < k" "k \<le> 2 ^ 64"
  shows "unat ((a + of_nat i) - (a + of_nat k) :: usize) = 2 ^ 64 - (k - i)"
proof -
  have "of_nat (2 ^ 64 - (k - i)) + of_nat (k - i) = (of_nat (2 ^ 64) :: usize)"
    using assms by (simp only: of_nat_add [symmetric]) simp
  also have "\<dots> = 0" by simp
  finally have "of_nat i - of_nat k = (of_nat (2 ^ 64 - (k - i)) :: usize)"
    using assms by (simp add: of_nat_diff algebra_simps)
  moreover have "2 ^ 64 - (k - i) < (2::nat) ^ 64" using assms by simp
  ultimately show ?thesis by (simp add: unat_of_nat)
qed

lemma load_store_words:
  fixes ws :: "'a::len word list"
  assumes "8 dvd LENGTH('a)" "length ws * (LENGTH('a) div 8) < 2 ^ 64" "LENGTH('a) < 2 ^ 64"
  shows "load_words a (length ws) (store_words a ws m) = ws"
  using assms(2)
proof (induction ws arbitrary: a m)
  case (Cons w ws)
  let ?k = "LENGTH('a) div 8" let ?m = "store_words (a + of_nat ?k) ws (store_word a w m)"
  have kl: "?k + length ws * ?k < 2 ^ 64" using Cons.prems by simp
  have "?m (a + of_nat i) = store_word a w m (a + of_nat i)" if i: "i < ?k" for i
  proof (rule store_words_frame)
    have "unat ((a + of_nat i) - (a + of_nat ?k)) = 2 ^ 64 - (?k - i)" using kl i by (intro unat_before) auto
    then show "length ws * ?k \<le> unat ((a + of_nat i) - (a + of_nat ?k))" using kl by linarith
  qed
  then have "(load_word a ?m :: 'a word) = load_word a (store_word a w m)" by (rule load_word_cong)
  also have "\<dots> = w" by (rule load_store_word [OF assms(1,3)])
  finally show ?case using Cons.IH Cons.prems by simp
qed simp

text \<open>A block of words only depends on the bytes of the block.\<close>

lemma load_words_cong:
  fixes n :: nat
  assumes "\<And>i. i < n * (LENGTH('a) div 8) \<Longrightarrow> m (a + of_nat i) = m' (a + of_nat i)"
  shows "(load_words a n m :: 'a::len word list) = load_words a n m'"
  using assms
proof (induction n arbitrary: a)
  case (Suc n)
  let ?k = "LENGTH('a) div 8"
  have "(load_word a m :: 'a word) = load_word a m'" using Suc.prems by (intro load_word_cong) simp
  moreover have "(load_words (a + of_nat ?k) n m :: 'a word list) = load_words (a + of_nat ?k) n m'"
  proof (rule Suc.IH)
    fix i assume "i < n * ?k"
    then show "m (a + of_nat ?k + of_nat i) = m' (a + of_nat ?k + of_nat i)"
      using Suc.prems [of "?k + i"] by (simp add: add.assoc)
  qed
  ultimately show ?case by simp
qed simp

end
