(* ===== verification/Sig_Delivery.thy ===== *)
theory Sig_Delivery
  imports Process_Life User_Mem Addr
begin

text \<open>
  Delivery of signals to user code: trap contexts (\<^verbatim>\<open>hal/src/component/trap\<close>), the context that is
  saved on the user stack (\<^verbatim>\<open>hal/src/component/signal\<close>), \<^verbatim>\<open>check_and_handle\<close>
  (\<^verbatim>\<open>os/src/task/signal.rs\<close>) with the kernel's five handlers (\<^verbatim>\<open>os/src/signal/handler.rs\<close>), and the
  system calls on actions, masks and the return from a handler (\<^verbatim>\<open>os/src/syscall/signal.rs\<close>).
  The general registers are a list of 32 words, whose entry 0 is not a register of the
  machine and is used by the saved context for the program counter.
\<close>

section \<open>Trap contexts\<close>

record trap_cx =
  cx_x :: "usize list"
  cx_pc :: usize
  cx_fx :: "u64 list"
  fx_need_save :: bool
  fx_need_restore :: bool
  fx_signal_dirty :: bool

primrec arg_reg :: "arch \<Rightarrow> nat" where
  "arg_reg Riscv64 = 10"
| "arg_reg Loongarch64 = 4"

primrec sp_reg :: "arch \<Rightarrow> nat" where
  "sp_reg Riscv64 = 2"
| "sp_reg Loongarch64 = 3"

primrec tp_reg :: "arch \<Rightarrow> nat" where
  "tp_reg Riscv64 = 4"
| "tp_reg Loongarch64 = 2"

primrec ra_reg :: "arch \<Rightarrow> nat" where
  "ra_reg Riscv64 = 1"
| "ra_reg Loongarch64 = 1"

definition set_reg :: "nat \<Rightarrow> usize \<Rightarrow> trap_cx \<Rightarrow> trap_cx" where
  "set_reg n v cx = cx\<lparr>cx_x := (cx_x cx)[n := v]\<rparr>"

definition arg_nth :: "arch \<Rightarrow> nat \<Rightarrow> trap_cx \<Rightarrow> usize option" where
  "arg_nth a n cx = (if n < 8 then Some (cx_x cx ! (arg_reg a + n)) else panic)"

definition set_arg_nth :: "arch \<Rightarrow> nat \<Rightarrow> usize \<Rightarrow> trap_cx \<Rightarrow> trap_cx option" where
  "set_arg_nth a n v cx = (if n < 8 then Some (set_reg (arg_reg a + n) v cx) else panic)"

definition set_ret_nth :: "arch \<Rightarrow> nat \<Rightarrow> usize \<Rightarrow> trap_cx \<Rightarrow> trap_cx option" where
  "set_ret_nth a n v cx = (if n < 2 then Some (set_reg (arg_reg a + n) v cx) else panic)"

text \<open>\<^verbatim>\<open>FloatContext::save\<close> copies the registers \<open>hw\<close> of the machine; \<^verbatim>\<open>restore\<close> loads them.\<close>

definition fx_save :: "u64 list \<Rightarrow> trap_cx \<Rightarrow> trap_cx" where
  "fx_save hw cx = (if fx_need_save cx then cx\<lparr>fx_need_save := False, cx_fx := hw\<rparr> else cx)"

definition fx_encounter_signal :: "u64 list \<Rightarrow> trap_cx \<Rightarrow> trap_cx" where
  "fx_encounter_signal hw cx = fx_save hw cx"

definition fx_yield_task :: "u64 list \<Rightarrow> trap_cx \<Rightarrow> trap_cx" where
  "fx_yield_task hw cx = (fx_save hw cx)\<lparr>fx_need_restore := True\<rparr>"

definition fx_restore :: "u64 list \<Rightarrow> trap_cx \<Rightarrow> u64 list \<times> trap_cx" where
  "fx_restore hw cx = (if fx_need_restore cx then (cx_fx cx, cx\<lparr>fx_need_restore := False\<rparr>) else (hw, cx))"

section \<open>Saved contexts\<close>

record sig_stack =
  ss_sp :: usize
  ss_flags :: i32
  ss_size :: usize

record ucontext =
  uc_flags :: usize
  uc_link :: usize
  uc_stack :: sig_stack
  uc_sigmask :: usize
  uc_sig :: "usize list"
  user_x :: "usize list"
  fpstate :: "usize list"

definition sig_stack_new :: sig_stack where
  "sig_stack_new = \<lparr>ss_sp = 0, ss_flags = 0, ss_size = 0\<rparr>"

definition save_current_context :: "usize \<Rightarrow> trap_cx \<Rightarrow> ucontext" where
  "save_current_context old_blocked_sigs cx =
     \<lparr>uc_flags = 0, uc_link = 0, uc_stack = sig_stack_new, uc_sigmask = old_blocked_sigs, uc_sig = replicate 16 0,
      user_x = (cx_x cx)[0 := cx_pc cx], fpstate = replicate 66 0\<rparr>"

definition restore_old_context :: "ucontext \<Rightarrow> trap_cx \<Rightarrow> trap_cx" where
  "restore_old_context uc cx = cx\<lparr>cx_pc := user_x uc ! 0, cx_x := user_x uc\<rparr>"

definition get_tp :: "arch \<Rightarrow> ucontext \<Rightarrow> usize" where
  "get_tp a uc = user_x uc ! tp_reg a"

definition sigreturn_trampoline_addr :: "arch \<Rightarrow> usize" where
  "sigreturn_trampoline_addr a = (case a of
       Riscv64 \<Rightarrow> SIGRET_TRAMPOLINE_BOTTOM a
     | Loongarch64 \<Rightarrow> va_from a (SIGRET_TRAMPOLINE_BOTTOM a))"

text \<open>
  The layout in memory: 120 words, 960 bytes. The word of \<^verbatim>\<open>ss_flags\<close> has four bytes of padding,
  which are written as zero here.
\<close>

definition UCONTEXT_WORDS :: nat where "UCONTEXT_WORDS = 120"

definition uc_words :: "ucontext \<Rightarrow> usize list" where
  "uc_words uc =
     [uc_flags uc, uc_link uc, ss_sp (uc_stack uc), ucast (ss_flags (uc_stack uc)), ss_size (uc_stack uc), uc_sigmask uc]
     @ uc_sig uc @ user_x uc @ fpstate uc"

definition uc_of_words :: "usize list \<Rightarrow> ucontext" where
  "uc_of_words ws =
     \<lparr>uc_flags = ws ! 0, uc_link = ws ! 1, uc_stack = \<lparr>ss_sp = ws ! 2, ss_flags = ucast (ws ! 3), ss_size = ws ! 4\<rparr>,
      uc_sigmask = ws ! 5, uc_sig = take 16 (drop 6 ws), user_x = take 32 (drop 22 ws), fpstate = take 66 (drop 54 ws)\<rparr>"

text \<open>\<^verbatim>\<open>LinuxSigInfo\<close>: 32 words of 32 bits, 128 bytes.\<close>

definition SIGINFO_WORDS :: nat where "SIGINFO_WORDS = 32"

definition siginfo_words :: "sig_info \<Rightarrow> u32 list" where
  "siginfo_words si =
     [of_nat (si_signo si), 0, of_int (si_code si), 0, of_nat (case si_pid si of Some p \<Rightarrow> p | None \<Rightarrow> 0)] @ replicate 27 0"

section \<open>Delivery\<close>

definition SA_SIGINFO :: u32 where "SA_SIGINFO = 4"
definition SA_RESTART :: u32 where "SA_RESTART = 0x10000000"
definition SA_NODEFER :: u32 where "SA_NODEFER = 0x40000000"

record ustate =
  us_cx :: trap_cx
  us_uptr :: usize
  us_mem :: umem
  us_hw :: "u64 list"

definition user_entry :: "handler \<Rightarrow> usize option" where
  "user_entry h = (case h of User_Handler a \<Rightarrow> Some a | _ \<Rightarrow> panic)"

definition write_words :: "usize \<Rightarrow> 'a::len word list \<Rightarrow> umem \<Rightarrow> umem" where
  "write_words a ws m = m\<lparr>um_bytes := store_words a ws (um_bytes m)\<rparr>"

text \<open>Entering a user handler; the mask is changed before the context is saved.\<close>

definition deliver :: "arch \<Rightarrow> sig_info \<Rightarrow> sig_action \<Rightarrow> sig_manager \<Rightarrow> ustate \<Rightarrow> (sig_manager \<times> ustate) option" where
  "deliver a sig act m u = do {
     let old_blocked_sigs = blocked_sigs m;
     let m1 = (if \<not> contains (sa_flags act) SA_NODEFER then m\<lparr>blocked_sigs := add_sig (si_signo sig) (blocked_sigs m)\<rparr> else m);
     let m2 = m1\<lparr>blocked_sigs := blocked_sigs m1 OR sa_mask act\<rparr>;
     let cx = fx_encounter_signal (us_hw u) (us_cx u);
     let sp = cx_x cx ! sp_reg a;
     let new_sp = sp - of_nat (UCONTEXT_WORDS * 8);
     let uc = save_current_context old_blocked_sigs cx;
     assert_that (ensure_write new_sp (UCONTEXT_WORDS * 8) (us_mem u));
     let mem1 = write_words new_sp (uc_words uc) (us_mem u);
     cx1 \<leftarrow> set_arg_nth a 0 (of_nat (si_signo sig)) cx;
     (cx2, sp2, mem2) \<leftarrow>
       (if contains (sa_flags act) SA_SIGINFO then do {
          c \<leftarrow> set_arg_nth a 2 new_sp cx1;
          let info_sp = new_sp - of_nat (SIGINFO_WORDS * 4);
          assert_that (ensure_write info_sp (SIGINFO_WORDS * 4) mem1);
          c' \<leftarrow> set_arg_nth a 1 info_sp c;
          Some (c', info_sp, write_words info_sp (siginfo_words sig) mem1) }
        else Some (cx1, new_sp, mem1));
     entry \<leftarrow> user_entry (sa_handler act);
     let cx3 = set_reg (tp_reg a) (get_tp a uc)
       (set_reg (ra_reg a) (sigreturn_trampoline_addr a) (set_reg (sp_reg a) sp2 (cx2\<lparr>cx_pc := entry\<rparr>)));
     Some (m2, u\<lparr>us_cx := cx3, us_uptr := new_sp, us_mem := mem2\<rparr>) }"

definition sys_rt_sigreturn :: "arch \<Rightarrow> sig_manager \<Rightarrow> ustate \<Rightarrow> (usize \<times> sig_manager \<times> ustate) option" where
  "sys_rt_sigreturn a m u = do {
     let uc = uc_of_words (load_words (us_uptr u) UCONTEXT_WORDS (um_bytes (us_mem u)));
     let cx = restore_old_context uc (us_cx u);
     r \<leftarrow> arg_nth a 0 cx;
     Some (r, m\<lparr>blocked_sigs := uc_sigmask uc\<rparr>, u\<lparr>us_cx := cx\<rparr>) }"

section \<open>The kernel's handlers\<close>

definition stop_one :: "task \<Rightarrow> task option" where
  "stop_one t = set_wake_up_sigs (sig_mask SIGCONT) (t\<lparr>t_status := Stopped\<rparr>)"

fun stop_all :: "task list \<Rightarrow> ksys \<Rightarrow> ksys option" where
  "stop_all [] k = Some k"
| "stop_all (t # ts) k = do { t' \<leftarrow> stop_one t; stop_all ts (set_task (t_tid t) t' k) }"

fun cont_all :: "task list \<Rightarrow> ksys \<Rightarrow> ksys option" where
  "cont_all [] k = Some k"
| "cont_all (t # ts) k =
     (if t_status t = Stopped then do {
        t' \<leftarrow> wake (t\<lparr>t_status := Running\<rparr>);
        cont_all ts (set_task (t_tid t) t' k) }
      else cont_all ts k)"

definition term_code :: "usize \<Rightarrow> nat \<Rightarrow> usize" where
  "term_code exit_code signo = (exit_code AND 0xff80) OR (of_nat signo AND 0x7f)"

definition run_handler :: "handler \<Rightarrow> nat \<Rightarrow> nat \<Rightarrow> ksys \<Rightarrow> ksys option" where
  "run_handler h signo tid k = do {
     t \<leftarrow> k_tasks k tid;
     p \<leftarrow> k_procs k (t_group t);
     (case h of
        Term_Handler \<Rightarrow> do_group_exit (term_code (t_exit_code t) signo) tid k
      | Core_Handler \<Rightarrow> do_group_exit (term_code (t_exit_code t) signo) tid k
      | Ign_Handler \<Rightarrow> Some k
      | Stop_Handler \<Rightarrow> stop_all (tg_iter p k) k
      | Cont_Handler \<Rightarrow> cont_all (tg_iter p k) k
      | User_Handler _ \<Rightarrow> panic) }"

text \<open>
  \<^verbatim>\<open>check_and_handle\<close>: a loop that handles one signal per round, until none is deliverable or a
  user handler was entered. \<open>Some None\<close> says that the given number of rounds was too small.
\<close>

fun check_and_handle ::
  "arch \<Rightarrow> nat \<Rightarrow> bool \<Rightarrow> usize \<Rightarrow> nat \<Rightarrow> ksys \<Rightarrow> ustate \<Rightarrow> (ksys \<times> ustate) option option" where
  "check_and_handle a 0 is_intr old_a0 tid k u = Some None"
| "check_and_handle a (Suc fuel) is_intr old_a0 tid k u = do {
     t \<leftarrow> k_tasks k tid;
     (r, m) \<leftarrow> dequeue_one (t_sig t);
     let k1 = set_task tid (t\<lparr>t_sig := m\<rparr>) k;
     (case r of
        None \<Rightarrow> Some (Some (k1, u))
      | Some sig \<Rightarrow> do {
          assert_that (si_signo sig \<noteq> 0);
          assert_that (si_signo sig < length (sig_handler m));
          let act = sig_handler m ! si_signo sig;
          let restart = (contains (sa_flags (sa act)) SA_RESTART \<and> is_intr);
          cx \<leftarrow> (if restart then set_ret_nth a 0 old_a0 ((us_cx u)\<lparr>cx_pc := cx_pc (us_cx u) - 4\<rparr>) else Some (us_cx u));
          let u1 = u\<lparr>us_cx := cx\<rparr>;
          if is_user act then do {
            (m', u') \<leftarrow> deliver a sig (sa act) m u1;
            Some (Some (set_task tid (t\<lparr>t_sig := m'\<rparr>) k, u')) }
          else do {
            k2 \<leftarrow> run_handler (sa_handler (sa act)) (si_signo sig) tid k1;
            check_and_handle a fuel (is_intr \<and> \<not> restart) old_a0 tid k2 u1 } }) }"

section \<open>System calls on actions and masks\<close>

record raw_action =
  ra_handler :: usize
  ra_flags :: u32
  ra_restorer :: usize
  ra_mask :: sig_set

definition SIG_DFL :: usize where "SIG_DFL = 0"
definition SIG_IGN :: usize where "SIG_IGN = 1"
definition SIG_ERR :: usize where "SIG_ERR = - 1"

definition to_ksig :: "nat \<Rightarrow> raw_action \<Rightarrow> ksig_action option" where
  "to_ksig signo r =
     (let act = (\<lambda>h. \<lparr>sa_handler = h, sa_flags = ra_flags r, sa_restorer = ra_restorer r, sa_mask = ra_mask r\<rparr>) in
      if ra_handler r = SIG_DFL then ksig_new signo False
      else if ra_handler r = SIG_IGN then Some \<lparr>sa = act Ign_Handler, is_user = False\<rparr>
      else if ra_handler r = SIG_ERR then panic
      else Some \<lparr>sa = act (User_Handler (ra_handler r)), is_user = True\<rparr>)"

definition old_raw :: "ksig_action \<Rightarrow> raw_action option" where
  "old_raw act = do {
     h \<leftarrow> (if is_user act then user_entry (sa_handler (sa act)) else Some SIG_DFL);
     Some \<lparr>ra_handler = h, ra_flags = sa_flags (sa act), ra_restorer = sa_restorer (sa act), ra_mask = sa_mask (sa act)\<rparr> }"

definition set_sigaction :: "nat \<Rightarrow> ksig_action \<Rightarrow> nat \<Rightarrow> ksys \<Rightarrow> ksys option" where
  "set_sigaction signo act tid k = do {
     p \<leftarrow> proc_of tid k;
     Some (fold (\<lambda>t k. set_task (t_tid t) (t\<lparr>t_sig := sm_set_sigaction signo act (t_sig t)\<rparr>) k) (tg_iter p k) k) }"

definition sys_rt_sigaction ::
  "int \<Rightarrow> raw_action option \<Rightarrow> bool \<Rightarrow> nat \<Rightarrow> ksys \<Rightarrow> (raw_action option sys_result \<times> ksys) option" where
  "sys_rt_sigaction signo action want_old tid k =
     (if signo < 0 \<or> int SIGRTMAX < signo then Some (Err EINVAL, k)
      else do {
        t \<leftarrow> k_tasks k tid;
        old \<leftarrow> (if want_old then map_option Some (old_raw (sig_handler (t_sig t) ! nat signo)) else Some None);
        (case action of
           None \<Rightarrow> Some (Ok old, k)
         | Some r \<Rightarrow> do {
             act \<leftarrow> to_ksig (nat signo) r;
             k' \<leftarrow> set_sigaction (nat signo) act tid k;
             Some (Ok old, k') }) })"

definition SIGBLOCK :: int where "SIGBLOCK = 0"
definition SIGUNBLOCK :: int where "SIGUNBLOCK = 1"
definition SIGSETMASK :: int where "SIGSETMASK = 2"

text \<open>
  The new mask is read as 32 bits. \<open>old_ok\<close> says that the pointer for the old mask is null or
  writable; the new mask is \<open>None\<close> for a null pointer and \<open>Some None\<close> for one that cannot be read.
\<close>

definition sys_rt_sigprocmask ::
  "int \<Rightarrow> u32 option option \<Rightarrow> bool \<Rightarrow> sig_manager \<Rightarrow> sig_set sys_result \<times> sig_manager" where
  "sys_rt_sigprocmask how ss old_ok m =
     (if \<not> old_ok then (Err EINVAL, m)
      else case ss of
        None \<Rightarrow> (Ok (blocked_sigs m), m)
      | Some None \<Rightarrow> (Err EINVAL, m)
      | Some (Some s) \<Rightarrow>
          let new_sig_mask = ucast s in
          if how = SIGBLOCK then (Ok (blocked_sigs m), m\<lparr>blocked_sigs := blocked_sigs m OR new_sig_mask\<rparr>)
          else if how = SIGUNBLOCK then (Ok (blocked_sigs m), m\<lparr>blocked_sigs := blocked_sigs m AND NOT new_sig_mask\<rparr>)
          else if how = SIGSETMASK then (Ok (blocked_sigs m), m\<lparr>blocked_sigs := new_sig_mask\<rparr>)
          else (Err EINVAL, m))"

text \<open>
  \<^verbatim>\<open>sigtimedwait\<close> until it suspends (\<open>Ok None\<close>) and after it was woken. The timeout is \<open>None\<close>, or
  given and valid or not; it is only looked at when nothing expected is pending.
\<close>

definition sys_rt_sigtimedwait :: "sig_set \<Rightarrow> bool option \<Rightarrow> task \<Rightarrow> (sys_error + nat option) \<times> task" where
  "sys_rt_sigtimedwait set0 timeout t =
     (let ss = set0 AND NOT (sig_mask SIGKILL OR sig_mask SIGSTOP) in
      case check_pending ss (t_sig t) of
        Some si \<Rightarrow> (Ok (Some (si_signo si)), t)
      | None \<Rightarrow>
          let t' = t\<lparr>t_sig := (t_sig t)\<lparr>wake_sigs := ss OR sig_mask SIGKILL OR sig_mask SIGSTOP\<rparr>, t_status := Interruptable\<rparr> in
          if timeout = Some False then (Err EINVAL, t') else (Ok None, t'))"

definition sigtimedwait_resume :: "sig_set \<Rightarrow> task \<Rightarrow> nat sys_result \<times> task" where
  "sigtimedwait_resume set0 t =
     (let ss = set0 AND NOT (sig_mask SIGKILL OR sig_mask SIGSTOP);
          (si, m) = dequeue_expected_one ss (t_sig t);
          t' = t\<lparr>t_status := Running, t_sig := m\<rparr> in
      case si of Some s \<Rightarrow> (Ok (si_signo s), t') | None \<Rightarrow> (Err EAGAIN, t'))"

text \<open>\<^verbatim>\<open>sigsuspend\<close> returns the old mask to be restored when it suspends, and an error otherwise.\<close>

definition sys_rt_sigsuspend :: "sig_set \<Rightarrow> task \<Rightarrow> (sys_error + sig_set) \<times> task" where
  "sys_rt_sigsuspend mask0 t =
     (let mask = mask0 AND NOT (sig_mask SIGSTOP OR sig_mask SIGKILL);
          oldmask = blocked_sigs (t_sig t);
          m = (t_sig t)\<lparr>blocked_sigs := mask\<rparr>;
          wake = NOT mask OR user_define_sets m in
      if check_pending_flag wake m then (Err EINTR, t\<lparr>t_sig := m\<rparr>)
      else (Ok oldmask, t\<lparr>t_sig := m\<lparr>wake_sigs := wake\<rparr>, t_status := Interruptable\<rparr>))"

definition sigsuspend_resume :: "sig_set \<Rightarrow> task \<Rightarrow> nat sys_result \<times> task" where
  "sigsuspend_resume oldmask t =
     (Err EINTR, t\<lparr>t_sig := (t_sig t)\<lparr>blocked_sigs := oldmask\<rparr>, t_status := Running\<rparr>)"

section \<open>The saved context in memory\<close>

definition uc_ok :: "ucontext \<Rightarrow> bool" where
  "uc_ok uc \<longleftrightarrow> length (uc_sig uc) = 16 \<and> length (user_x uc) = 32 \<and> length (fpstate uc) = 66"

lemma uc_words_length: "uc_ok uc \<Longrightarrow> length (uc_words uc) = UCONTEXT_WORDS"
  by (simp add: uc_words_def uc_ok_def UCONTEXT_WORDS_def)

lemma uc_roundtrip:
  assumes "uc_ok uc"
  shows "uc_of_words (uc_words uc) = uc"
proof -
  let ?h = "[uc_flags uc, uc_link uc, ss_sp (uc_stack uc), ucast (ss_flags (uc_stack uc)), ss_size (uc_stack uc), uc_sigmask uc]"
  have w: "uc_words uc = ?h @ uc_sig uc @ user_x uc @ fpstate uc" by (simp only: uc_words_def)
  have d: "drop 6 (uc_words uc) = uc_sig uc @ user_x uc @ fpstate uc" by (simp add: w)
  have "take 16 (drop 6 (uc_words uc)) = uc_sig uc" using assms unfolding d by (simp add: uc_ok_def)
  moreover have "drop 22 (uc_words uc) = drop 16 (drop 6 (uc_words uc))" by simp
  then have d2: "drop 22 (uc_words uc) = user_x uc @ fpstate uc" using assms unfolding d by (simp add: uc_ok_def)
  then have "take 32 (drop 22 (uc_words uc)) = user_x uc" using assms by (simp add: uc_ok_def)
  moreover have "drop 54 (uc_words uc) = drop 32 (drop 22 (uc_words uc))" by simp
  then have "take 66 (drop 54 (uc_words uc)) = fpstate uc" using assms unfolding d2 by (simp add: uc_ok_def)
  moreover have "ucast (ucast (ss_flags (uc_stack uc)) :: usize) = ss_flags (uc_stack uc)" by (rule bit_word_eqI) (simp add: bit_ucast_iff)
  ultimately show ?thesis by (simp add: uc_of_words_def w)
qed

lemma uc_ok_save: "length (cx_x cx) = 32 \<Longrightarrow> uc_ok (save_current_context b cx)"
  by (simp add: uc_ok_def save_current_context_def)

text \<open>Reading the frame back finds what was saved, whatever happens outside of its bytes.\<close>

lemma frame_read:
  assumes uc: "uc_ok uc"
    and same: "\<And>i. i < UCONTEXT_WORDS * 8 \<Longrightarrow> m' (p + of_nat i) = store_words p (uc_words uc) m (p + of_nat i)"
  shows "uc_of_words (load_words p UCONTEXT_WORDS m') = uc"
proof -
  have "load_words p UCONTEXT_WORDS m' = (load_words p UCONTEXT_WORDS (store_words p (uc_words uc) m) :: usize list)"
    using same by (intro load_words_cong) simp
  also have "\<dots> = uc_words uc"
    using load_store_words [of "uc_words uc" p m] uc_words_length [OF uc] by (simp add: UCONTEXT_WORDS_def)
  finally show ?thesis using uc_roundtrip [OF uc] by simp
qed

lemma fx_encounter_simps [simp]:
  "cx_x (fx_encounter_signal hw cx) = cx_x cx" "cx_pc (fx_encounter_signal hw cx) = cx_pc cx"
  by (simp_all add: fx_encounter_signal_def fx_save_def)

lemma siginfo_length: "length (siginfo_words si) = SIGINFO_WORDS"
  by (simp add: siginfo_words_def SIGINFO_WORDS_def)

text \<open>What \<^verbatim>\<open>deliver\<close> leaves behind, when the stack can be written.\<close>

definition frame_bytes :: "u32 \<Rightarrow> nat" where
  "frame_bytes flags = UCONTEXT_WORDS * 8 + (if contains flags SA_SIGINFO then SIGINFO_WORDS * 4 else 0)"

definition frame_writable :: "usize \<Rightarrow> u32 \<Rightarrow> umem \<Rightarrow> bool" where
  "frame_writable sp flags mem \<longleftrightarrow>
     ensure_write (sp - of_nat (UCONTEXT_WORDS * 8)) (UCONTEXT_WORDS * 8) mem \<and>
     (contains flags SA_SIGINFO \<longrightarrow> ensure_write (sp - of_nat (UCONTEXT_WORDS * 8) - of_nat (SIGINFO_WORDS * 4)) (SIGINFO_WORDS * 4) mem)"

lemma ensure_write_words [simp]: "ensure_write a n (write_words b ws m) = ensure_write a n m"
  by (simp add: ensure_write_def write_words_def)

definition entered_regs :: "arch \<Rightarrow> sig_info \<Rightarrow> bool \<Rightarrow> ustate \<Rightarrow> usize list" where
  "entered_regs a sig info u =
     (let x = cx_x (us_cx u); p = x ! sp_reg a - of_nat (UCONTEXT_WORDS * 8); q = p - of_nat (SIGINFO_WORDS * 4);
          x1 = x[arg_reg a := of_nat (si_signo sig)];
          x2 = (if info then x1[arg_reg a + 2 := p, arg_reg a + 1 := q] else x1) in
      x2[sp_reg a := if info then q else p, ra_reg a := sigreturn_trampoline_addr a, tp_reg a := x[0 := cx_pc (us_cx u)] ! tp_reg a])"

definition entered_mem :: "arch \<Rightarrow> sig_info \<Rightarrow> bool \<Rightarrow> sig_set \<Rightarrow> ustate \<Rightarrow> umem" where
  "entered_mem a sig info b u =
     (let p = cx_x (us_cx u) ! sp_reg a - of_nat (UCONTEXT_WORDS * 8);
          m1 = write_words p (uc_words (save_current_context b (us_cx u))) (us_mem u) in
      if info then write_words (p - of_nat (SIGINFO_WORDS * 4)) (siginfo_words sig) m1 else m1)"

lemma save_fx [simp]: "save_current_context b (fx_encounter_signal hw cx) = save_current_context b cx"
  by (simp add: save_current_context_def)

lemma deliver_eq:
  assumes e: "sa_handler act = User_Handler e"
  shows "deliver a sig act m u =
    (if frame_writable (cx_x (us_cx u) ! sp_reg a) (sa_flags act) (us_mem u)
     then Some (m\<lparr>blocked_sigs := (if contains (sa_flags act) SA_NODEFER then blocked_sigs m else add_sig (si_signo sig) (blocked_sigs m)) OR sa_mask act\<rparr>,
       u\<lparr>us_cx := (fx_encounter_signal (us_hw u) (us_cx u))\<lparr>cx_pc := e, cx_x := entered_regs a sig (contains (sa_flags act) SA_SIGINFO) u\<rparr>,
         us_uptr := cx_x (us_cx u) ! sp_reg a - of_nat (UCONTEXT_WORDS * 8),
         us_mem := entered_mem a sig (contains (sa_flags act) SA_SIGINFO) (blocked_sigs m) u\<rparr>)
     else None)"
  using e by (simp add: deliver_def frame_writable_def user_entry_def set_arg_nth_def set_reg_def entered_regs_def entered_mem_def
      get_tp_def save_current_context_def assert_that_def Let_def)

text \<open>The frame survives the \<^verbatim>\<open>siginfo\<close> record below it.\<close>

lemma entered_frame:
  assumes "length (cx_x (us_cx u)) = 32"
    and p: "p = cx_x (us_cx u) ! sp_reg a - of_nat (UCONTEXT_WORDS * 8)" and i: "i < UCONTEXT_WORDS * 8"
  shows "um_bytes (entered_mem a sig info b u) (p + of_nat i) =
    store_words p (uc_words (save_current_context b (us_cx u))) (um_bytes (us_mem u)) (p + of_nat i)"
proof (cases info)
  case True
  let ?q = "p - of_nat (SIGINFO_WORDS * 4)"
  have "p + of_nat i = ?q + of_nat (128 + i)" by (simp add: SIGINFO_WORDS_def)
  then have "unat ((p + of_nat i) - ?q) = 128 + i" using unat_offset [of "128 + i" ?q] i by (simp add: UCONTEXT_WORDS_def)
  then have "length (siginfo_words sig) * (LENGTH(32) div 8) \<le> unat ((p + of_nat i) - ?q)"
    by (simp add: siginfo_length SIGINFO_WORDS_def)
  from store_words_frame [OF this] True p show ?thesis by (simp add: entered_mem_def write_words_def Let_def)
qed (use p in \<open>simp add: entered_mem_def write_words_def Let_def\<close>)

lemma deliver_frame:
  assumes d: "deliver a sig act m u = Some (m', u')" and x: "length (cx_x (us_cx u)) = 32" and i: "i < UCONTEXT_WORDS * 8"
  shows "um_bytes (us_mem u') (us_uptr u' + of_nat i) =
    store_words (us_uptr u') (uc_words (save_current_context (blocked_sigs m) (us_cx u))) (um_bytes (us_mem u)) (us_uptr u' + of_nat i)"
proof -
  obtain e where e: "sa_handler act = User_Handler e"
    using d by (auto simp: deliver_def user_entry_def Let_def split: handler.splits option.splits Option.bind_splits)
  show ?thesis using d entered_frame [OF x refl i] unfolding deliver_eq [OF e] by (auto split: if_splits)
qed

text \<open>
  C17. Returning from a handler undoes the delivery. A handler is entered, runs, and calls
  \<^verbatim>\<open>sigreturn\<close> in any state in which the 960 bytes of its frame and the pointer to it are as the
  delivery left them, whatever it did to the registers, the mask and other memory. Then the
  program counter, all 31 general registers and the signal mask are as they were when the
  signal was delivered, and the system call returns the old first argument register, so that
  it is not changed either. The floating-point registers are not part of the saved context: the
  machine keeps those the handler left, and the context does not ask for them to be reloaded.
\<close>

theorem sigreturn_restores:
  assumes d: "deliver a sig act m u = Some (m', u')" and x: "length (cx_x (us_cx u)) = 32"
    and v: "us_uptr v = us_uptr u'" "\<forall>i < UCONTEXT_WORDS * 8. um_bytes (us_mem v) (us_uptr u' + of_nat i) = um_bytes (us_mem u') (us_uptr u' + of_nat i)"
  shows "\<exists>w. sys_rt_sigreturn a mv v = Some (cx_x (us_cx u) ! arg_reg a, mv\<lparr>blocked_sigs := blocked_sigs m\<rparr>, w) \<and>
    cx_pc (us_cx w) = cx_pc (us_cx u) \<and> (\<forall>n. 1 \<le> n \<and> n < 32 \<longrightarrow> cx_x (us_cx w) ! n = cx_x (us_cx u) ! n) \<and>
    us_mem w = us_mem v \<and> us_hw w = us_hw v \<and> fx_need_restore (us_cx w) = fx_need_restore (us_cx v)"
proof -
  let ?uc = "save_current_context (blocked_sigs m) (us_cx u)"
  have ok: "uc_ok ?uc" by (rule uc_ok_save [OF x])
  have "um_bytes (us_mem v) (us_uptr u' + of_nat i) = store_words (us_uptr u') (uc_words ?uc) (um_bytes (us_mem u)) (us_uptr u' + of_nat i)"
    if "i < UCONTEXT_WORDS * 8" for i using v(2) deliver_frame [OF d x that] that by simp
  from frame_read [OF ok this] have r: "uc_of_words (load_words (us_uptr v) UCONTEXT_WORDS (um_bytes (us_mem v))) = ?uc" using v(1) by simp
  have a: "arg_reg a \<noteq> 0" "arg_reg a < 32" by (cases a; simp)+
  show ?thesis using r x a
    by (auto simp: sys_rt_sigreturn_def arg_nth_def restore_old_context_def save_current_context_def Let_def)
qed

abbreviation demo_state :: ustate where
  "demo_state \<equiv> \<lparr>us_cx = \<lparr>cx_x = (replicate 32 0)[2 := 0x10000], cx_pc = 0x400, cx_fx = [], fx_need_save = False, fx_need_restore = False,
     fx_signal_dirty = False\<rparr>, us_uptr = 0, us_mem = \<lparr>um_bytes = (\<lambda>_. 0), um_writable = (\<lambda>_. True)\<rparr>, us_hw = []\<rparr>"

abbreviation demo_sig :: sig_info where
  "demo_sig \<equiv> \<lparr>si_signo = 10, si_code = 0, si_pid = None\<rparr>"

abbreviation demo_act :: sig_action where
  "demo_act \<equiv> \<lparr>sa_handler = User_Handler 0x1000, sa_flags = 4, sa_restorer = 0, sa_mask = 0\<rparr>"

lemma demo_deliver: "\<exists>m' u'. deliver Riscv64 demo_sig demo_act sm_new demo_state = Some (m', u')"
  by (simp add: deliver_eq [OF sig_action.select_convs(1)] frame_writable_def ensure_write_def list_all_def)

theorem sigreturn_restores_witness:
  "\<exists>m' u' w. deliver Riscv64 demo_sig demo_act sm_new demo_state = Some (m', u') \<and>
     sys_rt_sigreturn Riscv64 m' u' = Some (0, m'\<lparr>blocked_sigs := 0\<rparr>, w) \<and> cx_pc (us_cx w) = 0x400 \<and> cx_x (us_cx w) ! 2 = 0x10000"
proof -
  obtain m' u' where d: "deliver Riscv64 demo_sig demo_act sm_new demo_state = Some (m', u')" using demo_deliver by blast
  have x: "length (cx_x (us_cx demo_state)) = 32" by simp
  from sigreturn_restores [OF d x refl, of m'] obtain w where
    w: "sys_rt_sigreturn Riscv64 m' u' = Some (cx_x (us_cx demo_state) ! arg_reg Riscv64, m'\<lparr>blocked_sigs := blocked_sigs sm_new\<rparr>, w)"
      "cx_pc (us_cx w) = cx_pc (us_cx demo_state)" "\<forall>n. 1 \<le> n \<and> n < 32 \<longrightarrow> cx_x (us_cx w) ! n = cx_x (us_cx demo_state) ! n" by auto
  have "cx_x (us_cx w) ! 2 = 0x10000" using w(3) [rule_format, of 2] by simp
  then show ?thesis using d w(1,2) by (simp add: sm_new_def)
qed

lemma contain_sig_or: "contain_sig (x OR y) n \<longleftrightarrow> contain_sig x n \<or> contain_sig y n"
  by (simp add: contain_sig_bit bit_or_iff)

lemma contain_add_sig: "contain_sig (add_sig s b) n \<longleftrightarrow> contain_sig b n \<or> sig_bit n = sig_bit s"
  by (simp add: contain_sig_bit bit_add_sig)

lemma unat_above:
  assumes "c + d \<le> unat (b - q :: usize)" "c < 2 ^ 64"
  shows "d \<le> unat (b - (q + of_nat c))"
proof -
  have c: "unat (of_nat c :: usize) = c" using assms(2) by (simp add: unat_of_nat)
  then have "of_nat c \<le> b - q" using assms(1) by (simp add: word_le_nat_alt)
  from unat_sub [OF this] c have "unat (b - q - of_nat c) = unat (b - q) - c" by simp
  moreover have "b - (q + of_nat c) = b - q - of_nat c" by (simp add: algebra_simps)
  ultimately show ?thesis using assms(1) by (simp only:)
qed

lemma entered_outside:
  assumes x: "length (cx_x (us_cx u)) = 32" and n: "n = UCONTEXT_WORDS * 8 + (if info then SIGINFO_WORDS * 4 else 0)"
    and b: "n \<le> unat (b - (cx_x (us_cx u) ! sp_reg a - of_nat n))"
  shows "um_bytes (entered_mem a sig info msk u) b = um_bytes (us_mem u) b"
proof -
  define sp where "sp = cx_x (us_cx u) ! sp_reg a"
  have len: "length (uc_words (save_current_context msk (us_cx u))) = 120"
    using uc_words_length [OF uc_ok_save [OF x]] by (simp add: UCONTEXT_WORDS_def)
  show ?thesis
  proof (cases info)
    case False
    then have "length (uc_words (save_current_context msk (us_cx u))) * (LENGTH(64) div 8) \<le> unat (b - (sp - of_nat (UCONTEXT_WORDS * 8)))"
      using b n len by (simp add: UCONTEXT_WORDS_def sp_def)
    from store_words_frame [OF this] False show ?thesis by (simp add: entered_mem_def write_words_def Let_def flip: sp_def)
  next
    case True
    let ?q = "sp - of_nat (UCONTEXT_WORDS * 8) - of_nat (SIGINFO_WORDS * 4)"
    have q: "1088 \<le> unat (b - ?q)" using b n True by (simp add: UCONTEXT_WORDS_def SIGINFO_WORDS_def sp_def)
    have "960 \<le> unat (b - (?q + of_nat 128))" by (rule unat_above) (use q in simp_all)
    then have "length (uc_words (save_current_context msk (us_cx u))) * (LENGTH(64) div 8) \<le> unat (b - (sp - of_nat (UCONTEXT_WORDS * 8)))"
      using len by (simp add: UCONTEXT_WORDS_def SIGINFO_WORDS_def)
    note f1 = store_words_frame [OF this]
    have "length (siginfo_words sig) * (LENGTH(32) div 8) \<le> unat (b - ?q)" using q by (simp add: siginfo_length SIGINFO_WORDS_def)
    from store_words_frame [OF this] f1 True show ?thesis by (simp add: entered_mem_def write_words_def Let_def flip: sp_def)
  qed
qed

text \<open>
  C18. A user handler is entered as the ABI says. If the stack below the stack pointer can be
  written, delivery sets the program counter to the handler, the first argument to the signal
  number, the return address to the trampoline and the stack pointer to the frame, keeps the
  thread pointer, with \<^verbatim>\<open>SA_SIGINFO\<close> passes the addresses of both records, blocks exactly the signal
  itself (unless \<^verbatim>\<open>SA_NODEFER\<close>) and the action's mask in addition, and writes no byte outside of
  the frame. If the stack cannot be written, the kernel panics.
\<close>

theorem handler_entry:
  assumes x: "length (cx_x (us_cx u)) = 32" and e: "sa_handler act = User_Handler e"
  shows "if frame_writable (cx_x (us_cx u) ! sp_reg a) (sa_flags act) (us_mem u) then
    (\<exists>m' u'. deliver a sig act m u = Some (m', u') \<and> cx_pc (us_cx u') = e \<and> cx_x (us_cx u') ! arg_reg a = of_nat (si_signo sig) \<and>
      cx_x (us_cx u') ! ra_reg a = sigreturn_trampoline_addr a \<and> cx_x (us_cx u') ! tp_reg a = cx_x (us_cx u) ! tp_reg a \<and>
      cx_x (us_cx u') ! sp_reg a = cx_x (us_cx u) ! sp_reg a - of_nat (frame_bytes (sa_flags act)) \<and>
      (contains (sa_flags act) SA_SIGINFO \<longrightarrow> cx_x (us_cx u') ! (arg_reg a + 1) = cx_x (us_cx u') ! sp_reg a \<and>
        cx_x (us_cx u') ! (arg_reg a + 2) = us_uptr u') \<and>
      (\<forall>n. contain_sig (blocked_sigs m') n \<longleftrightarrow> contain_sig (blocked_sigs m) n \<or> contain_sig (sa_mask act) n \<or>
        (\<not> contains (sa_flags act) SA_NODEFER \<and> sig_bit n = sig_bit (si_signo sig))) \<and>
      (\<forall>b. frame_bytes (sa_flags act) \<le> unat (b - (cx_x (us_cx u) ! sp_reg a - of_nat (frame_bytes (sa_flags act)))) \<longrightarrow>
        um_bytes (us_mem u') b = um_bytes (us_mem u) b))
    else deliver a sig act m u = None"
proof (cases "frame_writable (cx_x (us_cx u) ! sp_reg a) (sa_flags act) (us_mem u)")
  case True
  let ?i = "contains (sa_flags act) SA_SIGINFO" let ?x = "entered_regs a sig ?i u"
  have regs: "?x ! arg_reg a = of_nat (si_signo sig)" "?x ! ra_reg a = sigreturn_trampoline_addr a" "?x ! tp_reg a = cx_x (us_cx u) ! tp_reg a"
    "?x ! sp_reg a = cx_x (us_cx u) ! sp_reg a - of_nat (frame_bytes (sa_flags act))"
    "?i \<Longrightarrow> ?x ! (arg_reg a + 1) = ?x ! sp_reg a" "?i \<Longrightarrow> ?x ! (arg_reg a + 2) = cx_x (us_cx u) ! sp_reg a - of_nat (UCONTEXT_WORDS * 8)"
    using x by (cases a; simp add: entered_regs_def Let_def frame_bytes_def)+
  show ?thesis using True regs entered_outside [OF x, of "frame_bytes (sa_flags act)" ?i]
    by (simp add: deliver_eq [OF e] contain_sig_or contain_add_sig frame_bytes_def) blast
qed (simp add: deliver_eq [OF e])

theorem handler_entry_witness:
  "\<exists>m' u'. deliver Riscv64 demo_sig demo_act sm_new demo_state = Some (m', u') \<and> cx_pc (us_cx u') = 0x1000 \<and>
     cx_x (us_cx u') ! 10 = 10 \<and> cx_x (us_cx u') ! 2 = 0x10000 - 1088"
proof -
  have x: "length (cx_x (us_cx demo_state)) = 32" "sa_handler demo_act = User_Handler 0x1000" by simp_all
  have f: "frame_writable (cx_x (us_cx demo_state) ! sp_reg Riscv64) (sa_flags demo_act) (us_mem demo_state)"
    by (simp add: frame_writable_def ensure_write_def list_all_def)
  have "frame_bytes 4 = 1088" by (simp add: frame_bytes_def UCONTEXT_WORDS_def SIGINFO_WORDS_def contains_def SA_SIGINFO_def)
  with handler_entry [OF x, where a = Riscv64 and sig = demo_sig and m = sm_new, unfolded if_P [OF f]] show ?thesis by auto
qed

lemma set_sig_ok:
  assumes ok: "sys_ok k" and t: "k_tasks k tid = Some t" and m: "sm_ok m"
  shows "sys_ok (set_task tid (t\<lparr>t_sig := m\<rparr>) k)"
proof -
  let ?k = "set_task tid (t\<lparr>t_sig := m\<rparr>) k"
  have tk: "k_tasks ?k u = (if u = tid then Some (t\<lparr>t_sig := m\<rparr>) else k_tasks k u)" for u by (simp add: set_task_def)
  have pr: "k_procs ?k = k_procs k" by (simp add: set_task_def)
  have l: "live_at ?k = live_at k" using t by (auto simp: live_at_def tk fun_eq_iff)
  have "task_ok ?k u s" if "k_tasks ?k u = Some s" for u s
  proof (cases "u = tid")
    case True
    moreover have "task_ok k tid t" using ok t by (simp add: sys_ok_def)
    ultimately show ?thesis using that m by (auto simp: task_ok_def member_def set_task_def)
  next
    case False
    then have "task_ok k u s" using that ok by (simp add: tk sys_ok_def)
    then show ?thesis by (simp add: task_ok_def member_def pr)
  qed
  moreover have "proc_wf ?k h q" if "k_procs ?k h = Some q" for h q
  proof -
    have wf: "proc_wf k h q" using that ok by (simp add: pr sys_ok_def)
    have ex: "\<exists>s. k_tasks ?k a = Some s \<and> t_group s = g" if "\<exists>s. k_tasks k a = Some s \<and> t_group s = g" for a g
      using that t by (auto simp: tk)
    show ?thesis using wf ex unfolding proc_wf_def l by fastforce
  qed
  ultimately show ?thesis by (simp add: sys_ok_def)
qed


abbreviation kill_info :: sig_info where
  "kill_info \<equiv> \<lparr>si_signo = SIGKILL, si_code = 0, si_pid = None\<rparr>"

abbreviation kill_sm :: sig_manager where
  "kill_sm \<equiv> sm_new\<lparr>bitmap := add_sig SIGKILL (bitmap sm_new), pending_sigs := pending_sigs sm_new @ [kill_info]\<rparr>"

abbreviation doomed :: ksys where
  "doomed \<equiv>
    \<lparr>k_tasks = [1 \<mapsto> init_task, 2 \<mapsto> init_task\<lparr>t_tid := 2, t_group := 2, t_sig := kill_sm, t_files := 2\<rparr>],
     k_procs = [1 \<mapsto> tg_new\<lparr>p_members := [(1, 1)], p_alive := 1, p_pgid := 1, p_children := [(2, 2)]\<rparr>,
                2 \<mapsto> tg_new\<lparr>p_members := [(2, 2)], p_alive := 1, p_parent := Some 1, p_pgid := 1\<rparr>],
     k_tm = [(1, 1), (2, 2)], k_pg = [(1, [1, 2])], k_ta = \<lparr>ta_current = 3, ta_recycled = []\<rparr>, k_files = Map.empty\<rparr>"

lemma kill_sm_ok: "sm_ok kill_sm"
proof -
  have "receive kill_info sm_new = Some kill_sm" by (simp add: receive_def sig_nums contain_sig_bit sm_new_def)
  then show ?thesis using receive_ok [OF sm_ok_new, of kill_info] by (auto simp: sig_nums)
qed

lemma doomed_ok: "sys_ok doomed"
  using sm_ok_new kill_sm_ok by (auto simp: sys_ok_def task_ok_def proc_wf_def member_def live_at_def tg_new_def)


text \<open>
  Nested handlers do not return. The kernel remembers only the latest frame. When a second
  signal interrupts a handler and its own handler returns, the next \<^verbatim>\<open>sigreturn\<close>, the one
  of the interrupted first handler, reads the same inner frame again: it restores the program
  counter, the registers and the mask of the interrupted handler, not those of the program the
  first signal interrupted.
\<close>

theorem nested_sigreturn_restores_inner:
  assumes d: "deliver a sig act m1 u1 = Some (m2, u2)" and x: "length (cx_x (us_cx u1)) = 32"
    and inner: "sys_rt_sigreturn a m2 u2 = Some (r, m3, u3)"
    and w: "us_uptr w = us_uptr u3" "us_mem w = us_mem u3"
  shows "\<exists>w'. sys_rt_sigreturn a mw w = Some (r, mw\<lparr>blocked_sigs := blocked_sigs m1\<rparr>, w') \<and>
    cx_pc (us_cx w') = cx_pc (us_cx u1) \<and> (\<forall>n. 1 \<le> n \<and> n < 32 \<longrightarrow> cx_x (us_cx w') ! n = cx_x (us_cx u1) ! n)"
proof -
  have u3: "us_uptr u3 = us_uptr u2" "us_mem u3 = us_mem u2" "r = cx_x (restore_old_context
      (uc_of_words (load_words (us_uptr u2) UCONTEXT_WORDS (um_bytes (us_mem u2)))) (us_cx u2)) ! arg_reg a"
    using inner by (auto simp: sys_rt_sigreturn_def arg_nth_def Let_def)
  let ?uc = "save_current_context (blocked_sigs m1) (us_cx u1)"
  have "uc_of_words (load_words (us_uptr u2) UCONTEXT_WORDS (um_bytes (us_mem u2))) = ?uc"
    by (rule frame_read [OF uc_ok_save [OF x]]) (rule deliver_frame [OF d x])
  then show ?thesis using u3 w x
    by (auto simp: sys_rt_sigreturn_def arg_nth_def restore_old_context_def save_current_context_def Let_def)
qed

theorem nested_sigreturn_restores_inner_witness:
  "\<exists>m u r m3 u3 w. deliver Riscv64 demo_sig demo_act sm_new demo_state = Some (m, u) \<and> sys_rt_sigreturn Riscv64 m u = Some (r, m3, u3) \<and>
     sys_rt_sigreturn Riscv64 m3 u3 = Some (r, m3\<lparr>blocked_sigs := 0\<rparr>, w) \<and> cx_pc (us_cx w) = 0x400"
proof -
  obtain m u where d: "deliver Riscv64 demo_sig demo_act sm_new demo_state = Some (m, u)" using demo_deliver by blast
  obtain r m3 u3 where s: "sys_rt_sigreturn Riscv64 m u = Some (r, m3, u3)" by (auto simp: sys_rt_sigreturn_def arg_nth_def Let_def)
  have x: "length (cx_x (us_cx demo_state)) = 32" by simp
  from nested_sigreturn_restores_inner [OF d x s refl refl, of m3] d s show ?thesis by (auto simp: sm_new_def)
qed

text \<open>
  A stopped task is never woken by a signal. Whatever sequence of signals a stopped thread
  receives, \<^verbatim>\<open>SIGCONT\<close> and \<^verbatim>\<open>SIGKILL\<close> included, it stays stopped and no wake-up is recorded: reception
  only wakes threads in the interruptible state.
\<close>

theorem stopped_never_woken:
  assumes "t_status t = Stopped" and "fold (\<lambda>si r. Option.bind r (recv_sigs si)) sis (Some t) = Some t'"
  shows "t_status t' = Stopped \<and> t_woken t' = t_woken t"
proof -
  have none: "fold (\<lambda>si r. Option.bind r (recv_sigs si)) sis None = None" for sis by (induction sis) auto
  have step: "t_status s' = Stopped \<and> t_woken s' = t_woken s" if "recv_sigs si s = Some s'" "t_status s = Stopped" for si s s'
    using that by (auto simp: recv_sigs_def Let_def bind_eq_Some_conv split: if_splits)
  show ?thesis using assms
  proof (induction sis arbitrary: t)
    case (Cons si sis)
    show ?case
    proof (cases "recv_sigs si t")
      case None
      then show ?thesis using Cons.prems none by simp
    next
      case (Some s)
      then show ?thesis using Cons.IH [of s] Cons.prems step [OF Some] by simp
    qed
  qed simp
qed

theorem stopped_never_woken_witness:
  "\<exists>t'. recv_sigs \<lparr>si_signo = SIGCONT, si_code = 0, si_pid = None\<rparr> (init_task\<lparr>t_status := Stopped\<rparr>) = Some t' \<and>
     t_status t' = Stopped \<and> \<not> t_woken t'"
proof -
  let ?si = "\<lparr>si_signo = SIGCONT, si_code = 0, si_pid = None\<rparr>" and ?t = "init_task\<lparr>t_status := Stopped\<rparr>"
  obtain t' where r: "recv_sigs ?si ?t = Some t'"
    using receive_ok [OF sm_ok_new, of ?si] by (auto simp: recv_sigs_def sig_nums Let_def)
  then have "fold (\<lambda>si r. Option.bind r (recv_sigs si)) [?si] (Some ?t) = Some t'" by simp
  from stopped_never_woken [OF _ this] r show ?thesis by simp
qed

text \<open>
  \<^verbatim>\<open>tkill\<close> with signal 0 brings the kernel down. The call accepts signal 0 and queues it for the
  thread; if nothing else is pending and signal 64, whose bit signal 0 shares, is not blocked,
  the next \<^verbatim>\<open>check_and_handle\<close> of that thread fails its assertion.
\<close>

theorem tkill_zero_panics:
  assumes ok: "sm_ok (t_sig t)" and t: "tm_get_task tid k = Some t" "k_tasks k tid = Some t" "t_tid t = tid" "k_tasks k cur \<noteq> None"
    and p: "pending_sigs (t_sig t) = []" "\<not> contain_sig (blocked_sigs (t_sig t)) SIGRTMAX" "t_status t \<noteq> Interruptable"
  shows "\<exists>k'. sys_tkill (int tid) 0 cur k = Some (Ok 0, k') \<and> check_and_handle a (Suc n) is_intr old_a0 tid k' u = None"
proof -
  obtain ct where ct: "k_tasks k cur = Some ct" using t(4) by blast
  let ?si = "\<lparr>si_signo = 0, si_code = SI_TKILL, si_pid = Some (t_group ct)\<rparr>"
  let ?m = "(t_sig t)\<lparr>bitmap := add_sig 0 (bitmap (t_sig t)), pending_sigs := [?si]\<rparr>"
  have z: "sig_bit 0 = sig_bit SIGRTMAX" by (simp add: sig_bit_def sig_nums)
  have "\<not> contain_sig (bitmap (t_sig t)) 0" using ok p(1) by (simp add: contain_sig_bit sm_ok_def)
  then have "receive ?si (t_sig t) = Some ?m" using p(1) by (simp add: receive_def sig_nums)
  then have "recv_at tid ?si k = Some (set_task tid (t\<lparr>t_sig := ?m\<rparr>) k)" using t(2) p(3) by (simp add: recv_at_def recv_sigs_def Let_def)
  then have k: "sys_tkill (int tid) 0 cur k = Some (Ok 0, set_task tid (t\<lparr>t_sig := ?m\<rparr>) k)"
    using ct t(1,3) by (simp add: sys_tkill_def sig_nums)
  have "\<not> contain_sig (blocked_sigs ?m) 0" using p(2) z by (simp add: contain_sig_bit)
  then have "\<exists>m'. dequeue_one ?m = Some (Some ?si, m')" by (simp add: dequeue_one_def)
  then show ?thesis using k by (auto simp: set_task_def)
qed

theorem tkill_zero_panics_witness:
  "\<exists>k'. sys_tkill 1 0 1 add_initproc = Some (Ok 0, k') \<and> check_and_handle Riscv64 1 False 0 1 k' demo_state = None"
  using tkill_zero_panics [of init_task 1 add_initproc 1 Riscv64 0 False 0 demo_state] sm_ok_new
  by (auto simp: add_initproc_eq tm_get_task_def bt_get_def contain_sig_bit sm_new_def)

lemma stop_all_ok:
  assumes "distinct (map t_tid ts)"
  shows "\<exists>k'. stop_all ts k = Some k' \<and> (\<forall>t \<in> set ts. \<exists>t'. k_tasks k' (t_tid t) = Some t' \<and> t_status t' = Stopped) \<and>
    (\<forall>u. u \<notin> t_tid ` set ts \<longrightarrow> k_tasks k' u = k_tasks k u) \<and> k_procs k' = k_procs k"
  using assms
proof (induction ts arbitrary: k)
  case (Cons t ts)
  define t' where "t' = t\<lparr>t_status := Stopped, t_sig := (t_sig t)\<lparr>wake_sigs := sig_mask SIGCONT OR sig_mask SIGKILL OR sig_mask SIGSTOP\<rparr>\<rparr>"
  have s: "stop_one t = Some t'" by (simp add: stop_one_def set_wake_up_sigs_def t'_def)
  from Cons.IH [of "set_task (t_tid t) t' k"] Cons.prems obtain k' where
    k': "stop_all ts (set_task (t_tid t) t' k) = Some k'" "\<forall>t \<in> set ts. \<exists>t'. k_tasks k' (t_tid t) = Some t' \<and> t_status t' = Stopped"
      "\<forall>u. u \<notin> t_tid ` set ts \<longrightarrow> k_tasks k' u = k_tasks (set_task (t_tid t) t' k) u" "k_procs k' = k_procs k"
    by (auto simp: set_task_def)
  have "k_tasks k' (t_tid t) = Some t'" using k'(3) Cons.prems by (simp add: set_task_def)
  then show ?case using s k' by (auto simp: t'_def set_task_def)
qed simp

text \<open>
  Stopping a process revives its dead threads. The stop handler marks every thread of the
  group as stopped, those that have exited included, so that a process whose leader is dead can
  no longer be reaped.
\<close>

theorem stop_revives_zombies:
  assumes ok: "sys_ok k" and t: "k_tasks k tid = Some t" "k_procs k (t_group t) = Some p"
    and l: "bt_get (p_members p) (t_group t) = Some (t_group t)"
  shows "\<exists>k'. run_handler Stop_Handler signo tid k = Some k' \<and> \<not> reapable k' (t_group t)"
proof -
  have wf: "proc_wf k (t_group t) p" using ok t(2) by (simp add: sys_ok_def)
  have mem: "(t_group t, t_group t) \<in> set (p_members p)" using l wf bt_get_iff [of "p_members p" "t_group t" "t_group t"] by (simp add: proc_wf_def)
  have ids: "map t_tid (List.map_filter (\<lambda>(tid, _). k_tasks k tid) xs) = map fst xs" if "set xs \<subseteq> set (p_members p)" for xs
    using that
  proof (induction xs)
    case (Cons x xs)
    then obtain b s where x: "x = (fst x, b)" "k_tasks k (fst x) = Some s" using wf unfolding proc_wf_def by (cases x) fastforce
    moreover have "t_tid s = fst x" using ok x(2) by (auto simp: sys_ok_def task_ok_def)
    ultimately show ?case using Cons by (simp add: map_filter_simps case_prod_beta)
  qed (simp add: map_filter_simps)
  have e: "map t_tid (tg_iter p k) = map fst (p_members p)" using ids [of "p_members p"] by (simp add: tg_iter_def)
  have "bt_wf (p_members p)" using wf by (simp add: proc_wf_def)
  then have "distinct (map t_tid (tg_iter p k))" using bt_wf_distinct e by simp
  from stop_all_ok [OF this, of k] obtain k' where
    k': "stop_all (tg_iter p k) k = Some k'" "\<forall>t \<in> set (tg_iter p k). \<exists>t'. k_tasks k' (t_tid t) = Some t' \<and> t_status t' = Stopped" by blast
  have "t_group t \<in> t_tid ` set (tg_iter p k)" using mem arg_cong [OF e, of set] by force
  then have "\<exists>t'. k_tasks k' (t_group t) = Some t' \<and> t_status t' = Stopped" using k'(2) by auto
  then show ?thesis using k'(1) t by (auto simp: run_handler_def reapable_def)
qed

theorem stop_revives_zombies_witness:
  "\<exists>k'. reapable dead_child 2 \<and> run_handler Stop_Handler 19 2 dead_child = Some k' \<and> \<not> reapable k' 2"
proof -
  have ok: "sys_ok dead_child"
    using sm_ok_new by (auto simp: sys_ok_def task_ok_def proc_wf_def member_def live_at_def tg_new_def)
  let ?t = "init_task\<lparr>t_tid := 2, t_group := 2, t_status := Zombie, t_exit_code := 256, t_files := 2\<rparr>"
  let ?p = "tg_new\<lparr>p_members := [(2, 2)], p_parent := Some 1, p_pgid := 1\<rparr>"
  have h: "k_tasks dead_child 2 = Some ?t" "k_procs dead_child (t_group ?t) = Some ?p" "bt_get (p_members ?p) (t_group ?t) = Some (t_group ?t)"
    by (simp_all add: bt_get_def)
  have "reapable dead_child 2" by (simp add: reapable_def tg_new_def)
  with stop_revives_zombies [OF ok h, of 19] show ?thesis by auto
qed

end
