(* ===== verification/User_Area.thy ===== *)
theory User_Area
  imports Range_Map Page_Table_Entry Sys_Error
begin

text \<open>
  The memory areas of a user address space: \<^verbatim>\<open>UserVmArea\<close> of \<^verbatim>\<open>os/src/mm/vm/mod.rs\<close> with
  its operations and the page fault handlers of \<^verbatim>\<open>os/src/mm/vm/uvm.rs\<close>. The page table is seen
  through what its valid leaves say (the views of the page table entries): mapping a
  small page overwrites the leaf and unmapping clears it, which is what the page table theory
  shows of both targets. Physical frames are owned through \<^verbatim>\<open>StrongArc\<close>: the state keeps
  the number of owners of every frame, zero for a free one, next to its contents.

  A fault runs in an environment that answers what the handlers ask of other parts of the
  kernel: the frame allocator, the zero page, and the page that a file or a shared memory
  segment holds at an offset.
\<close>

section \<open>Data\<close>

datatype user_area_type = VData | VHeap | VStack | VMmap

datatype user_vm_file = NoFile | FileOf nat | ShmOf usize

record vm_area =
  range_va :: "virt_addr \<times> virt_addr"
  vma_type :: user_area_type
  area_perm :: map_perm
  frames :: "(virt_page_num, phys_page_num) btree"
  vm_file :: user_vm_file
  map_shared :: bool
  file_offset :: usize
  file_len :: usize

type_synonym vm_pt = "virt_page_num \<Rightarrow> pte_view option"

record phys =
  ph_data :: "phys_page_num \<Rightarrow> nat \<Rightarrow> u8"
  ph_owners :: "phys_page_num \<Rightarrow> nat"
  ph_dirty :: "phys_page_num \<Rightarrow> bool"

record access_type =
  acc_read :: bool
  acc_write :: bool
  acc_exec :: bool

record vm_env =
  e_alloc :: "phys_page_num option"
  e_zero :: phys_page_num
  e_inode :: "nat \<Rightarrow> bool"
  e_page :: "nat \<Rightarrow> usize \<Rightarrow> phys_page_num option"
  e_shm :: "usize \<Rightarrow> usize \<Rightarrow> phys_page_num option"

definition can_access :: "access_type \<Rightarrow> map_perm \<Rightarrow> bool" where
  "can_access acc flag =
     (if acc_write acc \<and> \<not> perm_w flag then False
      else if acc_exec acc \<and> \<not> perm_x flag then False
      else True)"

definition file_is_some :: "user_vm_file \<Rightarrow> bool" where
  "file_is_some f = (case f of NoFile \<Rightarrow> False | _ \<Rightarrow> True)"

definition file_is_file :: "user_vm_file \<Rightarrow> bool" where
  "file_is_file f = (case f of FileOf _ \<Rightarrow> True | _ \<Rightarrow> False)"

section \<open>Frames and page table leaves\<close>

definition arc_clone :: "phys_page_num \<Rightarrow> phys \<Rightarrow> phys" where
  "arc_clone f ph = ph\<lparr>ph_owners := (ph_owners ph)(f := ph_owners ph f + 1)\<rparr>"

definition arc_drop :: "phys_page_num \<Rightarrow> phys \<Rightarrow> phys" where
  "arc_drop f ph = ph\<lparr>ph_owners := (ph_owners ph)(f := ph_owners ph f - 1)\<rparr>"

definition arc_new :: "phys_page_num \<Rightarrow> phys \<Rightarrow> phys" where
  "arc_new f ph = ph\<lparr>ph_owners := (ph_owners ph)(f := 1)\<rparr>"

text \<open>
  \<^verbatim>\<open>emplace\<close> puts a new frame behind one handle: the last owner of the old frame overwrites the
  payload, which drops the old frame; any other owner leaves the old payload to the rest.
\<close>

definition arc_emplace :: "phys_page_num \<Rightarrow> phys_page_num \<Rightarrow> phys \<Rightarrow> phys" where
  "arc_emplace old new ph =
     (if ph_owners ph old = 1 then arc_new new (ph\<lparr>ph_owners := (ph_owners ph)(old := 0)\<rparr>)
      else arc_new new (ph\<lparr>ph_owners := (ph_owners ph)(old := ph_owners ph old - 1)\<rparr>))"

definition ph_fill :: "phys_page_num \<Rightarrow> (nat \<Rightarrow> u8) \<Rightarrow> phys \<Rightarrow> phys" where
  "ph_fill f d ph = ph\<lparr>ph_data := (ph_data ph)(f := d)\<rparr>"

definition page_set_dirty :: "phys_page_num \<Rightarrow> phys \<Rightarrow> phys" where
  "page_set_dirty f ph = ph\<lparr>ph_dirty := (ph_dirty ph)(f := True)\<rparr>"

definition leaf :: "phys_page_num \<Rightarrow> map_perm \<Rightarrow> pte_view" where
  "leaf ppn perm = \<lparr>v_ppn = ppn, v_perm = perm, v_valid = True, v_cow = False, v_dirty = False\<rparr>"

definition set_writable :: "bool \<Rightarrow> pte_view \<Rightarrow> pte_view" where
  "set_writable b e = e\<lparr>v_perm := (v_perm e)\<lparr>perm_w := b\<rparr>\<rparr>"

definition set_dirty :: "bool \<Rightarrow> pte_view \<Rightarrow> pte_view" where
  "set_dirty b e = e\<lparr>v_dirty := b\<rparr>"

text \<open>The insertion of a frame at a page drops the frame that was there.\<close>

definition frames_insert ::
  "virt_page_num \<Rightarrow> phys_page_num \<Rightarrow> (virt_page_num, phys_page_num) btree \<Rightarrow> phys \<Rightarrow>
     (virt_page_num, phys_page_num) btree \<times> phys" where
  "frames_insert vpn f fs ph =
     (bt_insert vpn f fs, (case bt_get fs vpn of None \<Rightarrow> ph | Some old \<Rightarrow> arc_drop old ph))"

definition vpn_range :: "virt_page_num \<Rightarrow> virt_page_num \<Rightarrow> virt_page_num list" where
  "vpn_range s e = map of_nat [unat s ..< unat e]"

section \<open>Areas\<close>

definition range_vpn :: "arch \<Rightarrow> vm_area \<Rightarrow> virt_page_num \<times> virt_page_num" where
  "range_vpn a ar = (va_floor a (fst (range_va ar)), va_ceil a (snd (range_va ar)))"

definition area_new :: "virt_addr \<times> virt_addr \<Rightarrow> user_area_type \<Rightarrow> map_perm \<Rightarrow> vm_area" where
  "area_new r ty perm =
     \<lparr>range_va = r, vma_type = ty, area_perm = perm, frames = [], vm_file = NoFile,
       map_shared = False, file_offset = 0, file_len = 0\<rparr>"

definition area_new_mmap ::
  "virt_addr \<times> virt_addr \<Rightarrow> map_perm \<Rightarrow> bool \<Rightarrow> user_vm_file \<Rightarrow> usize \<Rightarrow> usize \<Rightarrow> vm_area" where
  "area_new_mmap r perm shared file offset len =
     \<lparr>range_va = r, vma_type = VMmap, area_perm = perm, frames = [], vm_file = file,
       map_shared = shared, file_offset = offset, file_len = len\<rparr>"

definition area_split_off :: "arch \<Rightarrow> virt_page_num \<Rightarrow> vm_area \<Rightarrow> vm_area \<times> vm_area" where
  "area_split_off a p ar =
     (let new_offset = file_offset ar + (p - fst (range_vpn a ar)) * PAGE_SIZE;
          new_len = (if new_offset - file_offset ar > file_len ar then 0
                     else file_len ar - (new_offset - file_offset ar));
          (front, back) = bt_split_off p (frames ar)
      in (ar\<lparr>file_len := file_len ar - new_len, frames := front,
            range_va := (fst (range_va ar), vpn_start_addr a p)\<rparr>,
          ar\<lparr>range_va := (vpn_start_addr a p, snd (range_va ar)), frames := back,
            file_offset := new_offset, file_len := new_len\<rparr>))"

definition area_map :: "vm_area \<Rightarrow> phys \<Rightarrow> vm_pt \<Rightarrow> vm_pt" where
  "area_map ar ph pt =
     fold (\<lambda>(vpn, f) pt.
       let pte = leaf f (area_perm ar)
       in pt(vpn \<mapsto> (if ph_owners ph f > 1 \<and> \<not> map_shared ar
                    then set_dirty False (set_writable False pte) else pte)))
       (frames ar) pt"

definition area_unmap :: "vm_area \<Rightarrow> vm_pt \<Rightarrow> vm_pt" where
  "area_unmap ar pt = fold (\<lambda>(vpn, f) pt. pt(vpn := None)) (frames ar) pt"

fun protect_pages :: "virt_page_num list \<Rightarrow> vm_pt \<Rightarrow> vm_pt option" where
  "protect_pages [] pt = Some pt"
| "protect_pages (vpn # vs) pt =
     (case pt vpn of
        None \<Rightarrow> panic
      | Some pte \<Rightarrow> protect_pages vs (pt(vpn \<mapsto> set_dirty False (set_writable False pte))))"

definition clone_cow :: "vm_area \<Rightarrow> vm_pt \<Rightarrow> phys \<Rightarrow> (vm_area \<times> vm_pt \<times> phys) option" where
  "clone_cow ar pt ph = do {
     pt \<leftarrow> (if \<not> map_shared ar \<and> perm_w (area_perm ar)
            then protect_pages (map fst (frames ar)) pt else Some pt);
     Some (ar, pt, fold (\<lambda>(_, f). arc_clone f) (frames ar) ph) }"

definition area_drop :: "vm_area \<Rightarrow> phys \<Rightarrow> phys" where
  "area_drop ar ph = fold (\<lambda>(_, f). arc_drop f) (frames ar) ph"

definition area_extend :: "arch \<Rightarrow> usize \<Rightarrow> vm_area \<Rightarrow> vm_area" where
  "area_extend a sz ar =
     (if sz = 0 then ar
      else
        let e = vpn_start_addr a (va_ceil a (va_add a (snd (range_va ar)) sz))
        in ar\<lparr>range_va := (fst (range_va ar), e),
             file_len := (if file_is_some (vm_file ar) then file_len ar + sz else file_len ar)\<rparr>)"

definition area_shrink :: "arch \<Rightarrow> usize \<Rightarrow> vm_area \<Rightarrow> phys \<Rightarrow> vm_area \<times> phys" where
  "area_shrink a sz ar ph =
     (if sz = 0 then (ar, ph)
      else
        let (front, back) = area_split_off a (va_floor a (va_sub a (snd (range_va ar)) sz)) ar
        in (front, area_drop back ph))"

fun move_frames ::
  "arch \<Rightarrow> virt_page_num \<Rightarrow> virt_page_num \<Rightarrow> (virt_page_num, phys_page_num) btree \<Rightarrow>
     (virt_page_num, phys_page_num) btree \<Rightarrow> phys \<Rightarrow> (virt_page_num, phys_page_num) btree \<times> phys" where
  "move_frames a s0 s1 [] fs ph = (fs, ph)"
| "move_frames a s0 s1 ((vpn, f) # rest) fs ph =
     (let (fs', ph') = frames_insert (vpn_add a s1 (vpn - s0)) f fs (arc_clone f ph)
      in move_frames a s0 s1 rest fs' ph')"

definition move_frames_to :: "arch \<Rightarrow> vm_area \<Rightarrow> vm_area \<Rightarrow> phys \<Rightarrow> vm_area \<times> vm_area \<times> phys" where
  "move_frames_to a ar other ph =
     (let (fs, ph') = move_frames a (va_floor a (fst (range_va ar))) (va_floor a (fst (range_va other)))
            (frames ar) (frames other) ph
      in (ar\<lparr>frames := []\<rparr>, other\<lparr>frames := fs\<rparr>, area_drop ar ph'))"

definition check_back_contiguous :: "vm_area \<Rightarrow> vm_area \<Rightarrow> bool" where
  "check_back_contiguous ar back =
     (if snd (range_va ar) \<noteq> fst (range_va back) then False
      else if vma_type ar \<noteq> vma_type back then False
      else if area_perm ar \<noteq> area_perm back then False
      else if map_shared ar \<noteq> map_shared back then False
      else if vm_file ar \<noteq> vm_file back then False
      else if file_offset ar + file_len ar \<noteq> file_offset back then False
      else True)"

definition push_back_unchecked :: "vm_area \<Rightarrow> vm_area \<Rightarrow> vm_area" where
  "push_back_unchecked ar back =
     ar\<lparr>range_va := (fst (range_va ar), snd (range_va back)), file_len := file_len ar + file_len back,
       frames := fold (\<lambda>(vpn, f). bt_insert vpn f) (frames back) (frames ar)\<rparr>"

definition push_back :: "vm_area \<Rightarrow> vm_area \<Rightarrow> (vm_area + unit) \<times> vm_area" where
  "push_back ar back =
     (if \<not> check_back_contiguous ar back then (Inl back, ar) else (Inr (), push_back_unchecked ar back))"

text \<open>
  \<^verbatim>\<open>alloc_frames\<close> gives every page of the area a frame; \<^verbatim>\<open>alloc\<close> is the answer of the frame allocator at
  each page. The deep copy of an area copies the contents of private frames.
\<close>

fun alloc_pages ::
  "(virt_page_num \<Rightarrow> phys_page_num option) \<Rightarrow> virt_page_num list \<Rightarrow> (virt_page_num, phys_page_num) btree \<Rightarrow> phys \<Rightarrow>
     ((virt_page_num, phys_page_num) btree \<times> phys) option" where
  "alloc_pages alloc [] fs ph = Some (fs, ph)"
| "alloc_pages alloc (vpn # vs) fs ph =
     (case alloc vpn of
        None \<Rightarrow> panic
      | Some f \<Rightarrow> let (fs', ph') = frames_insert vpn f fs (arc_new f ph) in alloc_pages alloc vs fs' ph')"

definition alloc_frames ::
  "arch \<Rightarrow> (virt_page_num \<Rightarrow> phys_page_num option) \<Rightarrow> vm_area \<Rightarrow> phys \<Rightarrow> (vm_area \<times> phys) option" where
  "alloc_frames a alloc ar ph = do {
     let (s, e) = range_vpn a ar;
     (fs, ph) \<leftarrow> alloc_pages alloc (vpn_range s e) (frames ar) ph;
     Some (ar\<lparr>frames := fs\<rparr>, ph) }"

fun clone_pages ::
  "(virt_page_num \<Rightarrow> phys_page_num option) \<Rightarrow> (virt_page_num, phys_page_num) btree \<Rightarrow>
     (virt_page_num, phys_page_num) btree \<Rightarrow> phys \<Rightarrow> ((virt_page_num, phys_page_num) btree \<times> phys) option" where
  "clone_pages alloc [] fs ph = Some (fs, ph)"
| "clone_pages alloc ((vpn, f) # rest) fs ph =
     (case alloc vpn of
        None \<Rightarrow> panic
      | Some g \<Rightarrow>
          let (fs', ph') = frames_insert vpn g fs (arc_new g (ph_fill g (ph_data ph f) ph))
          in clone_pages alloc rest fs' ph')"

definition area_clone ::
  "(virt_page_num \<Rightarrow> phys_page_num option) \<Rightarrow> vm_area \<Rightarrow> phys \<Rightarrow> (vm_area \<times> phys) option" where
  "area_clone alloc ar ph = do {
     (fs, ph) \<leftarrow>
       (if \<not> map_shared ar then clone_pages alloc (frames ar) [] ph
        else Some (frames ar, fold (\<lambda>(_, f). arc_clone f) (frames ar) ph));
     Some (ar\<lparr>frames := fs\<rparr>, ph) }"

definition area_access_no_fault :: "virt_page_num \<Rightarrow> access_type \<Rightarrow> vm_area \<Rightarrow> bool" where
  "area_access_no_fault vpn acc ar =
     (case bt_get (frames ar) vpn of
        Some _ \<Rightarrow> if acc_write acc \<and> \<not> map_shared ar then False else True
      | None \<Rightarrow> False)"

section \<open>Lazy mapping\<close>

type_synonym fault_state = "(virt_page_num, phys_page_num) btree \<times> vm_pt \<times> phys"
type_synonym fault_result = "(unit + unit) \<times> fault_state"

definition map_zero_page :: "vm_env \<Rightarrow> virt_page_num \<Rightarrow> access_type \<Rightarrow> map_perm \<Rightarrow> fault_state \<Rightarrow> fault_result" where
  "map_zero_page env vpn acc perm st =
     (let (fs, pt, ph) = st in
      if acc_write acc then
        (case e_alloc env of
           None \<Rightarrow> (Inl (), st)
         | Some f \<Rightarrow>
             let ph = ph_fill f (\<lambda>_. 0) ph;
                 pt = pt(vpn \<mapsto> set_dirty True (leaf f perm));
                 (fs, ph) = frames_insert vpn f fs (arc_new f ph)
             in (Inr (), fs, pt, ph))
      else
        let new_perm = perm\<lparr>perm_w := False\<rparr>;
            pt = pt(vpn \<mapsto> leaf (e_zero env) new_perm);
            (fs, ph) = frames_insert vpn (e_zero env) fs (arc_clone (e_zero env) ph)
        in (Inr (), fs, pt, ph))"

definition map_private_file ::
  "vm_env \<Rightarrow> virt_page_num \<Rightarrow> access_type \<Rightarrow> nat \<Rightarrow> usize \<Rightarrow> usize \<Rightarrow> map_perm \<Rightarrow> fault_state \<Rightarrow>
     fault_result option" where
  "map_private_file env vpn acc file offset len perm st = do {
     assert_that (e_inode env file);
     let (fs, pt, ph) = st;
     Some (
       if len < PAGE_SIZE then
         (case (e_alloc env, e_page env file offset) of
            (Some f, Some page) \<Rightarrow>
              let ph = ph_fill f (\<lambda>i. if i < unat len then ph_data ph page i else 0) ph;
                  pte = leaf f perm;
                  pt = pt(vpn \<mapsto> (if acc_write acc then set_dirty True pte else pte));
                  (fs, ph) = frames_insert vpn f fs (arc_new f ph)
              in (Inr (), fs, pt, ph)
          | _ \<Rightarrow> (Inl (), st))
       else if acc_write acc then
         (case (e_alloc env, e_page env file offset) of
            (Some f, Some page) \<Rightarrow>
              let ph = ph_fill f (ph_data ph page) ph;
                  pt = pt(vpn \<mapsto> set_dirty True (leaf f perm));
                  (fs, ph) = frames_insert vpn f fs (arc_new f ph)
              in (Inr (), fs, pt, ph)
          | _ \<Rightarrow> (Inl (), st))
       else
         (case e_page env file offset of
            None \<Rightarrow> (Inl (), st)
          | Some page \<Rightarrow>
              let pt = pt(vpn \<mapsto> leaf page (perm\<lparr>perm_w := False\<rparr>));
                  (fs, ph) = frames_insert vpn page fs (arc_clone page ph)
              in (Inr (), fs, pt, ph))) }"

definition map_shared_page ::
  "virt_page_num \<Rightarrow> access_type \<Rightarrow> phys_page_num option \<Rightarrow> map_perm \<Rightarrow> fault_state \<Rightarrow> fault_result" where
  "map_shared_page vpn acc page_at perm st =
     (case page_at of
        None \<Rightarrow> (Inl (), st)
      | Some page \<Rightarrow>
          let (fs, pt, ph) = st;
              pte = leaf page perm;
              pt = pt(vpn \<mapsto> (if acc_write acc then set_dirty True pte else pte));
              ph = (if acc_write acc then page_set_dirty page ph else ph);
              (fs, ph) = frames_insert vpn page fs (arc_clone page ph)
          in (Inr (), fs, pt, ph))"

definition map_shared_file ::
  "vm_env \<Rightarrow> virt_page_num \<Rightarrow> access_type \<Rightarrow> nat \<Rightarrow> usize \<Rightarrow> map_perm \<Rightarrow> fault_state \<Rightarrow> fault_result" where
  "map_shared_file env vpn acc file offset perm st =
     (if \<not> e_inode env file then (Inl (), st)
      else map_shared_page vpn acc (e_page env file offset) perm st)"

definition map_shared_memory ::
  "vm_env \<Rightarrow> virt_page_num \<Rightarrow> access_type \<Rightarrow> usize \<Rightarrow> usize \<Rightarrow> map_perm \<Rightarrow> fault_state \<Rightarrow> fault_result" where
  "map_shared_memory env vpn acc shm offset perm st =
     map_shared_page vpn acc (e_shm env shm offset) perm st"

section \<open>Page faults\<close>

definition page_in_area :: "arch \<Rightarrow> virt_page_num \<Rightarrow> vm_area \<Rightarrow> usize" where
  "page_in_area a vpn ar = (vpn - va_floor a (fst (range_va ar))) * PAGE_SIZE"

definition data_lazy_fault ::
  "arch \<Rightarrow> vm_env \<Rightarrow> virt_page_num \<Rightarrow> access_type \<Rightarrow> vm_area \<Rightarrow> vm_pt \<Rightarrow> phys \<Rightarrow> fault_result option" where
  "data_lazy_fault a env vpn acc ar pt ph =
     (case vm_file ar of
        FileOf file \<Rightarrow> do {
          assert_that (file_offset ar mod PAGE_SIZE = 0);
          let area_offset = page_in_area a vpn ar;
          if area_offset < file_len ar then
            map_private_file env vpn acc file (file_offset ar + area_offset)
              (min PAGE_SIZE (file_len ar - area_offset)) (area_perm ar) (frames ar, pt, ph)
          else Some (map_zero_page env vpn acc (area_perm ar) (frames ar, pt, ph)) }
      | _ \<Rightarrow> Some (map_zero_page env vpn acc (area_perm ar) (frames ar, pt, ph)))"

definition mmap_lazy_fault ::
  "arch \<Rightarrow> vm_env \<Rightarrow> virt_page_num \<Rightarrow> access_type \<Rightarrow> vm_area \<Rightarrow> vm_pt \<Rightarrow> phys \<Rightarrow> fault_result option" where
  "mmap_lazy_fault a env vpn acc ar pt ph =
     (case vm_file ar of
        FileOf file \<Rightarrow> do {
          let offset = file_offset ar + page_in_area a vpn ar;
          assert_that (offset mod PAGE_SIZE = 0);
          if map_shared ar then Some (map_shared_file env vpn acc file offset (area_perm ar) (frames ar, pt, ph))
          else map_private_file env vpn acc file offset PAGE_SIZE (area_perm ar) (frames ar, pt, ph) }
      | ShmOf shm \<Rightarrow> do {
          let offset = file_offset ar + page_in_area a vpn ar;
          assert_that (offset mod PAGE_SIZE = 0);
          Some (map_shared_memory env vpn acc shm offset (area_perm ar) (frames ar, pt, ph)) }
      | NoFile \<Rightarrow> Some (map_zero_page env vpn acc (area_perm ar) (frames ar, pt, ph)))"

definition handle_lazy_page_fault ::
  "arch \<Rightarrow> vm_env \<Rightarrow> virt_page_num \<Rightarrow> access_type \<Rightarrow> vm_area \<Rightarrow> vm_pt \<Rightarrow> phys \<Rightarrow> fault_result option" where
  "handle_lazy_page_fault a env vpn acc ar pt ph =
     (case vma_type ar of
        VData \<Rightarrow> data_lazy_fault a env vpn acc ar pt ph
      | VStack \<Rightarrow> Some (map_zero_page env vpn acc (area_perm ar) (frames ar, pt, ph))
      | VHeap \<Rightarrow> Some (map_zero_page env vpn acc (area_perm ar) (frames ar, pt, ph))
      | VMmap \<Rightarrow> mmap_lazy_fault a env vpn acc ar pt ph)"

text \<open>
  The fault on a page that is already mapped: a write to a page of a private area whose frame has
  other owners copies the frame, moves the leaf to the copy and leaves the old frame to the rest.
\<close>

definition cow_fault ::
  "vm_env \<Rightarrow> virt_page_num \<Rightarrow> access_type \<Rightarrow> pte_view \<Rightarrow> vm_area \<Rightarrow> vm_pt \<Rightarrow> phys \<Rightarrow> fault_result option" where
  "cow_fault env vpn acc pte ar pt ph =
     (if \<not> acc_write acc then Some (Inl (), frames ar, pt, ph)
      else if perm_w (v_perm pte) then Some (Inr (), frames ar, pt, ph)
      else if map_shared ar then
        Some (Inr (), frames ar, pt(vpn \<mapsto> set_dirty True (set_writable True pte)), ph)
      else do {
        old_frame \<leftarrow> bt_get (frames ar) vpn;
        if ph_owners ph old_frame > 1 then do {
          new_frame \<leftarrow> e_alloc env;
          let ph = ph_fill new_frame (ph_data ph old_frame) ph;
          let pte = pte\<lparr>v_ppn := new_frame\<rparr>;
          Some (Inr (), bt_insert vpn new_frame (frames ar),
            pt(vpn \<mapsto> set_dirty True (set_writable True pte)), arc_emplace old_frame new_frame ph) }
        else Some (Inr (), frames ar, pt(vpn \<mapsto> set_dirty True (set_writable True pte)), ph) })"

definition area_handle_page_fault ::
  "arch \<Rightarrow> vm_env \<Rightarrow> virt_page_num \<Rightarrow> access_type \<Rightarrow> vm_area \<Rightarrow> vm_pt \<Rightarrow> phys \<Rightarrow>
     ((unit + unit) \<times> vm_area \<times> vm_pt \<times> phys) option" where
  "area_handle_page_fault a env vpn acc ar pt ph =
     (if \<not> can_access acc (area_perm ar) then Some (Inl (), ar, pt, ph)
      else do {
        (r, fs, pt, ph) \<leftarrow>
          (case pt vpn of
             Some pte \<Rightarrow> cow_fault env vpn acc pte ar pt ph
           | None \<Rightarrow> handle_lazy_page_fault a env vpn acc ar pt ph);
        Some (r, ar\<lparr>frames := fs\<rparr>, pt, ph) })"

end
