(* ===== verification/User_Space.thy ===== *)
theory User_Space
  imports User_Area
begin

text \<open>
  The user address space of \<^verbatim>\<open>os/src/mm/vm/uvm.rs\<close>: the areas in a range map over page
  numbers, the page table and the bottom of the heap. The loops of \<^verbatim>\<open>find_heap\<close>,
  \<^verbatim>\<open>try_union\<close> and \<^verbatim>\<open>ensure_access\<close> take a number of rounds; \<open>None\<close> for \<^verbatim>\<open>find_heap\<close> and
  \<^verbatim>\<open>try_union\<close> then also stands for running out of rounds, which the isolation theory excludes
  for the number of areas as the bound.
\<close>

record vm_space =
  vs_pt :: vm_pt
  vs_areas :: "(virt_page_num, vm_area) range_map"
  heap_bottom_va :: virt_addr

definition space_new :: vm_space where
  "space_new = \<lparr>vs_pt = (\<lambda>_. None), vs_areas = rm_new, heap_bottom_va = 0\<rparr>"

definition perm_ruw :: map_perm where
  "perm_ruw = \<lparr>perm_r = True, perm_w = True, perm_x = False, perm_u = True\<rparr>"

section \<open>Adding areas\<close>

function chunks :: "nat \<Rightarrow> 'b list \<Rightarrow> 'b list list" where
  "chunks n xs = (if n = 0 \<or> xs = [] then [] else take n xs # chunks n (drop n xs))"
  by pat_completeness auto
termination by (relation "measure (\<lambda>(n, xs). length xs)") auto

declare chunks.simps [simp del]

fun copy_pages ::
  "(virt_page_num \<Rightarrow> phys_page_num option) \<Rightarrow> vm_pt \<Rightarrow> (virt_page_num \<times> u8 list) list \<Rightarrow>
     (virt_page_num, phys_page_num) btree \<Rightarrow> phys \<Rightarrow> ((virt_page_num, phys_page_num) btree \<times> phys) option" where
  "copy_pages alloc pt [] fs ph = Some (fs, ph)"
| "copy_pages alloc pt ((vpn, src) # rest) fs ph = do {
     let fill = (\<lambda>f ph. ph_fill f (\<lambda>i. if i < length src then src ! i else 0) ph);
     (case pt vpn of
        Some pte \<Rightarrow> copy_pages alloc pt rest fs (fill (v_ppn pte) ph)
      | None \<Rightarrow>
          (case alloc vpn of
             None \<Rightarrow> panic
           | Some f \<Rightarrow>
               let (fs', ph') = frames_insert vpn f fs (arc_new f ph)
               in copy_pages alloc pt rest fs' (fill f ph'))) }"

definition copy_data ::
  "arch \<Rightarrow> (virt_page_num \<Rightarrow> phys_page_num option) \<Rightarrow> vm_pt \<Rightarrow> u8 list \<Rightarrow> usize \<Rightarrow> vm_area \<Rightarrow> phys \<Rightarrow>
     (vm_area \<times> phys) option" where
  "copy_data a alloc pt data pg_offset ar ph = do {
     let (s, e) = range_vpn a ar;
     (fs, ph) \<leftarrow> copy_pages alloc pt (zip (vpn_range (vpn_add a s pg_offset) e) (chunks (unat PAGE_SIZE) data))
        (frames ar) ph;
     Some (ar\<lparr>frames := fs\<rparr>, ph) }"

definition push_area ::
  "arch \<Rightarrow> (virt_page_num \<Rightarrow> phys_page_num option) \<Rightarrow> vm_area \<Rightarrow> u8 list option \<Rightarrow> vm_space \<Rightarrow> phys \<Rightarrow>
     (vm_space \<times> phys) option" where
  "push_area a alloc area data s ph =
     (case rm_try_insert (range_vpn a area) area (vs_areas s) of
        Some (Inr areas) \<Rightarrow> do {
          (area', ph') \<leftarrow>
            (case data of
               Some d \<Rightarrow> copy_data a alloc (vs_pt s) d 0 area ph
             | None \<Rightarrow> Some (area, ph));
          Some (s\<lparr>vs_areas := rm_set_value (fst (range_vpn a area)) (\<lambda>_. area') areas,
                 vs_pt := area_map area' ph' (vs_pt s)\<rparr>, ph') }
      | _ \<Rightarrow> panic)"

definition no_alloc :: "virt_page_num \<Rightarrow> phys_page_num option" where
  "no_alloc = (\<lambda>_. None)"

section \<open>Program images\<close>

record program_header =
  ph_load :: bool
  ph_interp :: bool
  ph_vaddr :: usize
  ph_mem_size :: usize
  ph_offset :: usize
  ph_file_size :: usize
  ph_read :: bool
  ph_write :: bool
  ph_exec :: bool

record elf_image =
  el_phs :: "program_header list"
  el_shared_object :: bool
  el_entry :: usize
  el_ph_entry_size :: usize
  el_ph_offset :: usize
  el_read :: "usize \<Rightarrow> usize \<Rightarrow> u8 list"

definition segment_area :: "arch \<Rightarrow> user_vm_file \<Rightarrow> virt_addr \<Rightarrow> program_header \<Rightarrow> vm_area" where
  "segment_area a file offset ph =
     (let start_va = va_from a (ph_vaddr ph + offset);
          end_va = va_from a (ph_vaddr ph + ph_mem_size ph + offset);
          elf_offset_start = ppn_start_addr (pa_floor a (pa_from a (ph_offset ph)));
          elf_offset_end = ph_offset ph + ph_file_size ph
      in (area_new (vpn_start_addr a (va_floor a start_va), vpn_start_addr a (va_ceil a end_va)) VData
           \<lparr>perm_r = ph_read ph, perm_w = ph_write ph, perm_x = ph_exec ph, perm_u = True\<rparr>)
         \<lparr>vm_file := file, file_offset := elf_offset_start,
          file_len := elf_offset_end - elf_offset_start\<rparr>)"

fun map_segments ::
  "arch \<Rightarrow> (virt_page_num \<Rightarrow> phys_page_num option) \<Rightarrow> elf_image \<Rightarrow> user_vm_file \<Rightarrow> virt_addr \<Rightarrow>
     program_header list \<Rightarrow> virt_page_num \<Rightarrow> usize option \<Rightarrow> vm_space \<Rightarrow> phys \<Rightarrow>
     (virt_page_num \<times> usize option \<times> vm_space \<times> phys) option" where
  "map_segments a alloc elf file offset [] max_end header s ph = Some (max_end, header, s, ph)"
| "map_segments a alloc elf file offset (p # ps) max_end header s ph =
     (if ph_load p then do {
        let header = (case header of None \<Rightarrow> Some (va_from a (ph_vaddr p + offset)) | Some h \<Rightarrow> Some h);
        let area = segment_area a file offset p;
        let data = (if file_is_some file then None
                    else Some (el_read elf (file_offset area) (file_len area)));
        (s, ph) \<leftarrow> push_area a alloc area data s ph;
        map_segments a alloc elf file offset ps (snd (range_vpn a area)) header s ph }
      else map_segments a alloc elf file offset ps max_end header s ph)"

definition map_elf ::
  "arch \<Rightarrow> (virt_page_num \<Rightarrow> phys_page_num option) \<Rightarrow> elf_image \<Rightarrow> user_vm_file \<Rightarrow> virt_addr \<Rightarrow>
     vm_space \<Rightarrow> phys \<Rightarrow> (virt_page_num \<times> virt_addr \<times> vm_space \<times> phys) option" where
  "map_elf a alloc elf file offset s ph = do {
     (max_end, header, s, ph) \<leftarrow>
       map_segments a alloc elf file offset (el_phs elf) (va_floor a offset) None s ph;
     Some (max_end, va_from a (case header of None \<Rightarrow> 0 | Some h \<Rightarrow> h), s, ph) }"

text \<open>
  The interpreter of a dynamically linked image: the file system's answer for its path is an
  argument, an error or the image and the file it was read from.
\<close>

definition load_dl_interp_if_needed ::
  "arch \<Rightarrow> (virt_page_num \<Rightarrow> phys_page_num option) \<Rightarrow> elf_image \<Rightarrow> sys_error + (elf_image \<times> nat) \<Rightarrow>
     vm_space \<Rightarrow> phys \<Rightarrow> ((sys_error + (usize \<times> usize) option) \<times> vm_space \<times> phys) option" where
  "load_dl_interp_if_needed a alloc elf interp s ph =
     (let is_dl = (list_ex ph_interp (el_phs elf) \<or> el_shared_object elf)
      in if \<not> is_dl then Some (Inr None, s, ph)
         else
           (case interp of
              Inl e \<Rightarrow> Some (Inl e, s, ph)
            | Inr (interp_elf, file) \<Rightarrow> do {
                (_, _, s, ph) \<leftarrow> map_elf a alloc interp_elf (FileOf file) (va_from a DL_INTERP_OFFSET) s ph;
                Some (Inr (Some (DL_INTERP_OFFSET, el_entry interp_elf + DL_INTERP_OFFSET)), s, ph) }))"

definition from_elf ::
  "arch \<Rightarrow> (virt_page_num \<Rightarrow> phys_page_num option) \<Rightarrow> elf_image \<Rightarrow> user_vm_file \<Rightarrow>
     sys_error + (elf_image \<times> nat) \<Rightarrow> phys \<Rightarrow>
     (sys_error + (vm_space \<times> usize \<times> usize \<times> (usize \<times> usize) list) \<times> phys) option" where
  "from_elf a alloc elf file interp ph = do {
     let aux0 = [(4, el_ph_entry_size elf), (5, of_nat (length (el_phs elf))), (6, PAGE_SIZE), (9, el_entry elf)];
     (dl, s, ph) \<leftarrow> load_dl_interp_if_needed a alloc elf interp space_new ph;
     (case dl of
        Inl e \<Rightarrow> Some (Inl e)
      | Inr d \<Rightarrow> do {
          let (base, entry) = (case d of Some (offset, ent) \<Rightarrow> (offset, ent) | None \<Rightarrow> (0, el_entry elf));
          let aux1 = [(7, base), (8, 0), (11, 0), (12, 0), (13, 0), (14, 0), (15, 0), (16, 0), (17, 100),
                      (23, 0), (10, 0x112d)];
          (max_end_vpn, header_va, s, ph) \<leftarrow> map_elf a alloc elf file 0 s ph;
          let ph_head_addr = header_va + el_ph_offset elf;
          let s = s\<lparr>heap_bottom_va := vpn_start_addr a max_end_vpn\<rparr>;
          (s, ph) \<leftarrow> push_area a alloc
            (area_new (va_from a (USER_STACK_BOTTOM a), va_from a (USER_STACK_TOP a)) VStack perm_ruw) None s ph;
          Some (Inr ((s, USER_STACK_TOP a, entry, aux0 @ aux1 @ [(25, ph_head_addr), (3, ph_head_addr)]), ph)) }) }"

section \<open>The heap\<close>

fun find_heap_loop :: "arch \<Rightarrow> nat \<Rightarrow> vm_space \<Rightarrow> vm_space option" where
  "find_heap_loop a 0 s = None"
| "find_heap_loop a (Suc n) s =
     (case rm_get (va_floor a (heap_bottom_va s)) (vs_areas s) of
        None \<Rightarrow> Some s
      | Some area \<Rightarrow>
          if vma_type area \<noteq> VHeap
          then find_heap_loop a n (s\<lparr>heap_bottom_va := vpn_start_addr a (snd (range_vpn a area))\<rparr>)
          else Some s)"

definition find_heap :: "arch \<Rightarrow> vm_space \<Rightarrow> (vm_area option \<times> vm_space) option" where
  "find_heap a s = do {
     s \<leftarrow> find_heap_loop a (length (vs_areas s) + 1) s;
     Some (rm_get (va_floor a (heap_bottom_va s)) (vs_areas s), s) }"

definition set_heap :: "arch \<Rightarrow> vm_area \<Rightarrow> vm_space \<Rightarrow> vm_space" where
  "set_heap a heap s =
     s\<lparr>vs_areas := (case rm_get_mut (va_floor a (heap_bottom_va s)) (\<lambda>_. heap) (vs_areas s) of
                      Some m \<Rightarrow> m | None \<Rightarrow> vs_areas s)\<rparr>"

definition reset_heap_break ::
  "arch \<Rightarrow> virt_addr \<Rightarrow> vm_space \<Rightarrow> phys \<Rightarrow> (virt_addr \<times> vm_space \<times> phys) option" where
  "reset_heap_break a new_brk s ph = do {
     (heap, s) \<leftarrow> find_heap a s;
     (case heap of
        None \<Rightarrow>
          if new_brk > heap_bottom_va s then do {
            (s, ph) \<leftarrow> push_area a no_alloc (area_new (heap_bottom_va s, new_brk) VHeap perm_ruw) None s ph;
            Some (new_brk, s, ph) }
          else Some (heap_bottom_va s, s, ph)
      | Some heap \<Rightarrow> do {
          let (r_start, r_end) = range_va heap;
          resized \<leftarrow>
            (if va_ceil a new_brk > va_ceil a r_end
             then rm_extend_back (va_floor a r_start, va_ceil a new_brk) (vs_areas s)
             else if va_ceil a new_brk > va_floor a r_start \<and> va_ceil a new_brk < va_ceil a r_end
             then rm_reduce_back (va_floor a r_start, va_ceil a new_brk) (vs_areas s)
             else Some (Inr (vs_areas s)));
          (case resized of
             Inl _ \<Rightarrow> Some (r_end, s, ph)
           | Inr areas \<Rightarrow> do {
               (heap, s) \<leftarrow> find_heap a (s\<lparr>vs_areas := areas\<rparr>);
               heap \<leftarrow> heap;
               if new_brk \<ge> r_end then
                 Some (new_brk, set_heap a (heap\<lparr>range_va := (r_start, new_brk)\<rparr>) s, ph)
               else if new_brk > r_start then do {
                 let (heap, right) = area_split_off a (va_ceil a new_brk) heap;
                 let s = set_heap a heap s;
                 Some (new_brk, s\<lparr>vs_pt := area_unmap right (vs_pt s)\<rparr>, area_drop right ph) }
               else Some (r_end, s, ph) }) }) }"

section \<open>Fork\<close>

text \<open>
  \<^verbatim>\<open>clone_cow\<close> never fails, so the copying fallback of \<^verbatim>\<open>from_existed\<close> is not reached.
\<close>

fun fork_areas ::
  "arch \<Rightarrow> (virt_page_num, vm_area) range_map \<Rightarrow> vm_pt \<Rightarrow> vm_space \<Rightarrow> phys \<Rightarrow> (vm_pt \<times> vm_space \<times> phys) option" where
  "fork_areas a [] pt ret ph = Some (pt, ret, ph)"
| "fork_areas a ((_, n) # ns) pt ret ph = do {
     (new_area, pt, ph) \<leftarrow> clone_cow (node_value n) pt ph;
     (ret, ph) \<leftarrow> push_area a no_alloc new_area None ret ph;
     fork_areas a ns pt ret ph }"

definition from_existed :: "arch \<Rightarrow> vm_space \<Rightarrow> phys \<Rightarrow> (vm_space \<times> vm_space \<times> phys) option" where
  "from_existed a s ph = do {
     (pt, ret, ph) \<leftarrow> fork_areas a (vs_areas s) (vs_pt s) (space_new\<lparr>heap_bottom_va := heap_bottom_va s\<rparr>) ph;
     Some (s\<lparr>vs_pt := pt\<rparr>, ret, ph) }"

section \<open>Mapping\<close>

definition page_up :: "usize \<Rightarrow> usize" where
  "page_up n = (n - 1 + PAGE_SIZE) AND NOT (PAGE_SIZE - 1)"

definition choose_range ::
  "arch \<Rightarrow> bool \<Rightarrow> virt_addr \<Rightarrow> usize \<Rightarrow> usize \<Rightarrow> usize \<Rightarrow> vm_space \<Rightarrow>
     (sys_error + (virt_page_num \<times> virt_page_num)) option" where
  "choose_range a fixed va len lo hi s =
     (if fixed then
        let rg = (va_floor a va, va_ceil a (va_add a va len))
        in Some (case rm_is_range_free rg (vs_areas s) of Inl _ \<Rightarrow> Inl ENOMEM | Inr _ \<Rightarrow> Inr rg)
      else do {
        r \<leftarrow> rm_find_free_range (\<lambda>v n. vpn_add a v (of_nat n)) (va_floor a (va_from a lo), va_floor a (va_from a hi))
               (unat (len div PAGE_SIZE)) (vs_areas s);
        Some (case r of None \<Rightarrow> Inl ENOMEM | Some rg \<Rightarrow> Inr rg) })"

definition alloc_mmap_area ::
  "arch \<Rightarrow> virt_addr \<Rightarrow> usize \<Rightarrow> map_perm \<Rightarrow> bool \<Rightarrow> bool \<Rightarrow> nat \<Rightarrow> usize \<Rightarrow> vm_space \<Rightarrow> phys \<Rightarrow>
     ((sys_error + virt_addr) \<times> vm_space \<times> phys) option" where
  "alloc_mmap_area a va len perm fixed shared file offset s ph =
     (if len = 0 then Some (Inl EINVAL, s, ph)
      else do {
        let len = page_up (page_offset va + len);
        r \<leftarrow> choose_range a fixed va len (USER_FILE_BEG a) (USER_FILE_END a) s;
        (case r of
           Inl e \<Rightarrow> Some (Inl e, s, ph)
         | Inr rg \<Rightarrow> do {
             let range_va = (vpn_start_addr a (fst rg), vpn_start_addr a (snd rg));
             let vma = area_new_mmap range_va perm shared (FileOf file) offset len;
             (s, ph) \<leftarrow> push_area a no_alloc vma None s ph;
             Some (Inr (fst range_va), s, ph) }) })"

definition alloc_anon_area ::
  "arch \<Rightarrow> virt_addr \<Rightarrow> usize \<Rightarrow> map_perm \<Rightarrow> bool \<Rightarrow> bool \<Rightarrow> usize option \<Rightarrow> vm_space \<Rightarrow> phys \<Rightarrow>
     ((sys_error + virt_addr) \<times> vm_space \<times> phys) option" where
  "alloc_anon_area a va len perm fixed shared shm s ph =
     (if len = 0 then Some (Inl EINVAL, s, ph)
      else if shared \<and> shm = None then Some (Inl EINVAL, s, ph)
      else do {
        let len = page_up (page_offset va + len);
        let va = vpn_start_addr a (va_floor a va);
        r \<leftarrow> choose_range a fixed va len (USER_SHARE_BEG a) (USER_SHARE_END a) s;
        (case r of
           Inl e \<Rightarrow> Some (Inl e, s, ph)
         | Inr rg \<Rightarrow> do {
             let range_va = (vpn_start_addr a (fst rg), vpn_start_addr a (snd rg));
             let vma =
               (case shm of
                  Some i \<Rightarrow> area_new_mmap range_va perm shared (ShmOf i) 0 len
                | None \<Rightarrow> area_new_mmap range_va perm shared NoFile (fst range_va) len);
             (s, ph) \<leftarrow> push_area a no_alloc vma None s ph;
             Some (Inr (fst range_va), s, ph) }) })"

section \<open>Unmapping\<close>

text \<open>
  The loop of \<^verbatim>\<open>try_union\<close>: \<open>Some (Inl (), s)\<close> is the early error, which keeps the
  merges made before it.
\<close>

fun try_union_loop ::
  "arch \<Rightarrow> nat \<Rightarrow> virt_page_num \<Rightarrow> virt_page_num \<Rightarrow> (virt_page_num, vm_area) range_map \<Rightarrow>
     ((unit + unit) \<times> (virt_page_num, vm_area) range_map) option" where
  "try_union_loop a 0 start e areas = None"
| "try_union_loop a (Suc n) start e areas =
     (if \<not> start < e then Some (Inr (), areas)
      else
        (case rm_get start areas of
           None \<Rightarrow> Some (Inl (), areas)
         | Some vma1 \<Rightarrow>
             let new_start = snd (range_vpn a vma1)
             in if new_start \<ge> e then Some (Inr (), areas)
                else
                  (case rm_get new_start areas of
                     None \<Rightarrow> Some (Inl (), areas)
                   | Some vma2 \<Rightarrow>
                       if check_back_contiguous vma1 vma2 then do {
                         (vma2, areas) \<leftarrow> rm_force_remove_one (range_vpn a vma2) areas;
                         vma1 \<leftarrow> rm_get start areas;
                         let vma1 = push_back_unchecked vma1 vma2;
                         areas \<leftarrow> rm_get_mut start (\<lambda>_. vma1) areas;
                         ext \<leftarrow> rm_extend_back (range_vpn a vma1) areas;
                         try_union_loop a n new_start e (case ext of Inr m \<Rightarrow> m | Inl _ \<Rightarrow> areas) }
                       else Some (Inl (), areas))))"

definition try_union ::
  "arch \<Rightarrow> virt_page_num \<Rightarrow> usize \<Rightarrow> vm_space \<Rightarrow> ((unit + unit) \<times> vm_space) option" where
  "try_union a vpn pg_len s = do {
     (r, areas) \<leftarrow> try_union_loop a (length (vs_areas s) + 1) vpn (vpn_add a vpn pg_len) (vs_areas s);
     Some (r, s\<lparr>vs_areas := areas\<rparr>) }"

definition unmap_find ::
  "arch \<Rightarrow> virt_page_num \<Rightarrow> usize \<Rightarrow> (virt_page_num, vm_area) range_map \<Rightarrow>
     ((virt_page_num \<times> virt_page_num) \<times> vm_area) option option" where
  "unmap_find a vpn pg_len areas =
     (case rm_get_key_value vpn areas of
        Some found \<Rightarrow> Some (Some found)
      | None \<Rightarrow> map_option hd_opt (rm_range (vpn, vpn_add a vpn pg_len) areas))"

definition space_unmap ::
  "arch \<Rightarrow> virt_addr \<Rightarrow> usize \<Rightarrow> vm_space \<Rightarrow> ((sys_error + vm_area) \<times> vm_space) option" where
  "space_unmap a va len s = do {
     let vpn = va_floor a va;
     let pg_len = va_ceil a (va_add a va len) - vpn;
     (_, s) \<leftarrow> try_union a vpn pg_len s;
     found \<leftarrow> unmap_find a vpn pg_len (vs_areas s);
     (case found of
        None \<Rightarrow> Some (Inl EINVAL, s)
      | Some (old_range, front) \<Rightarrow> do {
          let (front, mid) = area_split_off a vpn front;
          let new_range = range_vpn a front;
          let areas = rm_set_value (fst old_range) (\<lambda>_. front) (vs_areas s);
          areas \<leftarrow>
            (if rng_is_empty new_range then map_option snd (rm_force_remove_one old_range areas)
             else map_option (\<lambda>r. case r of Inr m \<Rightarrow> m | Inl _ \<Rightarrow> areas) (rm_reduce_back new_range areas));
          let e = vpn_add a vpn pg_len;
          if e < snd (range_vpn a mid) then do {
            let (mid, back) = area_split_off a e mid;
            if \<not> rng_is_empty (range_va back) then do {
              r \<leftarrow> rm_try_insert (range_vpn a back) back areas;
              (case r of
                 Inl _ \<Rightarrow> Some (Inl EFAULT, s\<lparr>vs_areas := areas\<rparr>)
               | Inr areas \<Rightarrow>
                   Some (Inr mid, s\<lparr>vs_areas := areas, vs_pt := area_unmap mid (vs_pt s)\<rparr>)) }
            else Some (Inr mid, s\<lparr>vs_areas := areas, vs_pt := area_unmap mid (vs_pt s)\<rparr>) }
          else Some (Inr mid, s\<lparr>vs_areas := areas, vs_pt := area_unmap mid (vs_pt s)\<rparr>) }) }"

section \<open>Queries and access\<close>

definition check_free :: "arch \<Rightarrow> virt_addr \<Rightarrow> usize \<Rightarrow> vm_space \<Rightarrow> unit + unit" where
  "check_free a va len s = rm_is_range_free (va_floor a va, va_ceil a (va_add a va len)) (vs_areas s)"

definition get_area_ref :: "arch \<Rightarrow> virt_addr \<Rightarrow> vm_space \<Rightarrow> vm_area option" where
  "get_area_ref a va s = rm_get (va_floor a va) (vs_areas s)"

definition translate_vpn :: "virt_page_num \<Rightarrow> vm_space \<Rightarrow> phys_page_num option" where
  "translate_vpn vpn s = map_option v_ppn (vs_pt s vpn)"

definition fault_in_area ::
  "arch \<Rightarrow> vm_env \<Rightarrow> virt_page_num \<Rightarrow> access_type \<Rightarrow> vm_area \<Rightarrow> vm_space \<Rightarrow> phys \<Rightarrow>
     ((unit + unit) \<times> vm_area \<times> vm_space \<times> phys) option" where
  "fault_in_area a env vpn acc area s ph = do {
     (r, area, pt, ph) \<leftarrow> area_handle_page_fault a env vpn acc area (vs_pt s) ph;
     areas \<leftarrow> rm_get_mut vpn (\<lambda>_. area) (vs_areas s);
     Some (r, area, s\<lparr>vs_areas := areas, vs_pt := pt\<rparr>, ph) }"

definition handle_page_fault ::
  "arch \<Rightarrow> vm_env \<Rightarrow> virt_addr \<Rightarrow> access_type \<Rightarrow> vm_space \<Rightarrow> phys \<Rightarrow>
     ((unit + unit) \<times> vm_space \<times> phys) option" where
  "handle_page_fault a env va acc s ph =
     (let vpn = va_floor a va in
      case rm_get vpn (vs_areas s) of
        Some area \<Rightarrow> do {
          (r, _, s, ph) \<leftarrow> fault_in_area a env vpn acc area s ph;
          Some (r, s, ph) }
      | None \<Rightarrow> Some (Inl (), s, ph))"

fun access_no_fault_loop ::
  "arch \<Rightarrow> nat \<Rightarrow> virt_page_num \<Rightarrow> virt_page_num \<Rightarrow> access_type \<Rightarrow> vm_space \<Rightarrow> bool option" where
  "access_no_fault_loop a 0 vpn e acc s = None"
| "access_no_fault_loop a (Suc n) vpn e acc s =
     (if \<not> vpn < e then Some True
      else
        (case rm_get vpn (vs_areas s) of
           None \<Rightarrow> Some False
         | Some area \<Rightarrow>
             let area_end = snd (range_vpn a area)
             in if list_all (\<lambda>v. area_access_no_fault v acc area) (vpn_range vpn (min e area_end))
                then access_no_fault_loop a n area_end e acc s
                else Some False))"

definition access_no_fault :: "arch \<Rightarrow> virt_addr \<Rightarrow> usize \<Rightarrow> access_type \<Rightarrow> vm_space \<Rightarrow> bool option" where
  "access_no_fault a va len acc s =
     access_no_fault_loop a (length (vs_areas s) + 1) (va_floor a va) (va_floor a (va_add a va len)) acc s"

text \<open>
  \<^verbatim>\<open>ensure_access\<close> first tries the access; the answer of the hardware for a page is an argument,
  as is the answer of the allocator for each page. \<open>Some None\<close> is a loop that has not ended within
  the given number of rounds.
\<close>

fun fault_pages ::
  "arch \<Rightarrow> (virt_page_num \<Rightarrow> vm_env) \<Rightarrow> access_type \<Rightarrow> virt_page_num list \<Rightarrow> vm_area \<Rightarrow> vm_space \<Rightarrow> phys \<Rightarrow>
     ((unit + unit) \<times> vm_space \<times> phys) option" where
  "fault_pages a env acc [] area s ph = Some (Inr (), s, ph)"
| "fault_pages a env acc (vpn # vs) area s ph =
     (if area_access_no_fault vpn acc area then fault_pages a env acc vs area s ph
      else do {
        (r, area, s, ph) \<leftarrow> fault_in_area a (env vpn) vpn acc area s ph;
        (case r of
           Inl _ \<Rightarrow> Some (Inl (), s, ph)
         | Inr _ \<Rightarrow> fault_pages a env acc vs area s ph) })"

definition hw_access :: "(vm_pt \<Rightarrow> bool \<Rightarrow> virt_page_num \<Rightarrow> bool) \<Rightarrow> access_type \<Rightarrow> virt_page_num \<Rightarrow> vm_space \<Rightarrow> bool" where
  "hw_access probe acc vpn s =
     (if acc_write acc then probe (vs_pt s) True vpn
      else if acc_read acc then probe (vs_pt s) False vpn
      else False)"

fun ensure_access_loop ::
  "arch \<Rightarrow> (vm_pt \<Rightarrow> bool \<Rightarrow> virt_page_num \<Rightarrow> bool) \<Rightarrow> (virt_page_num \<Rightarrow> vm_env) \<Rightarrow> nat \<Rightarrow> virt_page_num \<Rightarrow>
     virt_page_num \<Rightarrow> access_type \<Rightarrow> vm_space \<Rightarrow> phys \<Rightarrow> ((unit + unit) \<times> vm_space \<times> phys) option option" where
  "ensure_access_loop a probe env 0 vpn e acc s ph = Some None"
| "ensure_access_loop a probe env (Suc n) vpn e acc s ph =
     (if \<not> vpn < e then Some (Some (Inr (), s, ph))
      else if hw_access probe acc vpn s then ensure_access_loop a probe env n (vpn_add a vpn 1) e acc s ph
      else
        (case rm_get vpn (vs_areas s) of
           None \<Rightarrow> Some (Some (Inl (), s, ph))
         | Some area \<Rightarrow> do {
             let area_end = snd (range_vpn a area);
             (r, s, ph) \<leftarrow> fault_pages a env acc (vpn_range vpn (min e area_end)) area s ph;
             (case r of
                Inl _ \<Rightarrow> Some (Some (Inl (), s, ph))
              | Inr _ \<Rightarrow> ensure_access_loop a probe env n area_end e acc s ph) }))"

definition ensure_access ::
  "arch \<Rightarrow> (vm_pt \<Rightarrow> bool \<Rightarrow> virt_page_num \<Rightarrow> bool) \<Rightarrow> (virt_page_num \<Rightarrow> vm_env) \<Rightarrow> nat \<Rightarrow> virt_addr \<Rightarrow> usize \<Rightarrow>
     access_type \<Rightarrow> vm_space \<Rightarrow> phys \<Rightarrow> ((unit + unit) \<times> vm_space \<times> phys) option option" where
  "ensure_access a probe env rounds va len acc s ph =
     (if va \<ge> snd (USER_ADDR_SPACE a) then Some (Some (Inl (), s, ph))
      else ensure_access_loop a probe env rounds (va_floor a va) (va_ceil a (va_add a va len)) acc s ph)"

fun ensure_in_lock_loop ::
  "arch \<Rightarrow> (vm_pt \<Rightarrow> bool \<Rightarrow> virt_page_num \<Rightarrow> bool) \<Rightarrow> (virt_page_num \<Rightarrow> vm_env) \<Rightarrow> nat \<Rightarrow> virt_page_num \<Rightarrow>
     virt_page_num \<Rightarrow> access_type \<Rightarrow> vm_space \<Rightarrow> phys \<Rightarrow> ((unit + unit) \<times> vm_space \<times> phys) option option" where
  "ensure_in_lock_loop a probe env 0 vpn e acc s ph = Some None"
| "ensure_in_lock_loop a probe env (Suc n) vpn e acc s ph =
     (if \<not> vpn < e then Some (Some (Inr (), s, ph))
      else if hw_access probe acc vpn s then ensure_in_lock_loop a probe env n (vpn_add a vpn 1) e acc s ph
      else
        (case rm_get vpn (vs_areas s) of
           None \<Rightarrow> Some (Some (Inl (), s, ph))
         | Some area \<Rightarrow> do {
             let area_end = snd (range_vpn a area);
             let vs = vpn_range vpn (min e area_end);
             if list_all (\<lambda>v. area_access_no_fault v acc area) vs
             then ensure_in_lock_loop a probe env n area_end e acc s ph
             else do {
               (r, s, ph) \<leftarrow> fault_pages a env acc vs area s ph;
               (case r of
                  Inl _ \<Rightarrow> Some (Some (Inl (), s, ph))
                | Inr _ \<Rightarrow> ensure_in_lock_loop a probe env n vpn e acc s ph) } }))"

definition ensure_access_in_lock ::
  "arch \<Rightarrow> (vm_pt \<Rightarrow> bool \<Rightarrow> virt_page_num \<Rightarrow> bool) \<Rightarrow> (virt_page_num \<Rightarrow> vm_env) \<Rightarrow> nat \<Rightarrow> virt_addr \<Rightarrow> usize \<Rightarrow>
     access_type \<Rightarrow> vm_space \<Rightarrow> phys \<Rightarrow> ((unit + unit) \<times> vm_space \<times> phys) option option" where
  "ensure_access_in_lock a probe env rounds va len acc s ph =
     (if va \<ge> snd (USER_ADDR_SPACE a) then Some (Some (Inl (), s, ph))
      else ensure_in_lock_loop a probe env rounds (va_floor a va) (va_ceil a (va_add a va len)) acc s ph)"

definition space_clear :: "vm_space \<Rightarrow> phys \<Rightarrow> vm_space \<times> phys" where
  "space_clear s ph =
     (s\<lparr>vs_areas := rm_iter_mut (\<lambda>_ vma. vma\<lparr>frames := []\<rparr>) (vs_areas s)\<rparr>,
      fold (\<lambda>(_, n). area_drop (node_value n)) (vs_areas s) ph)"

end
