(* ===== verification/Vm_Invariant.thy ===== *)
theory Vm_Invariant
  imports User_Space "HOL-Library.Multiset"
begin

text \<open>
  Several address spaces over one physical memory. The invariant ties the areas of a space to
  its page table and the number of owners of a frame to the pages that map it; a page of a
  private area is writable only while its frame has one owner. Every operation of an address
  space is shown to keep the invariant by one notion of a local step, from which the isolation
  of the other spaces follows once; this theory does so for page faults and for fork.
\<close>

section \<open>Invariant\<close>

definition refs :: "vm_pt \<Rightarrow> phys_page_num \<Rightarrow> nat" where
  "refs pt f = card {vpn. \<exists>e. pt vpn = Some e \<and> v_ppn e = f}"

definition page_ok :: "phys \<Rightarrow> vm_pt \<Rightarrow> vm_area \<Rightarrow> virt_page_num \<Rightarrow> phys_page_num \<Rightarrow> bool" where
  "page_ok ph pt ar vpn f \<longleftrightarrow>
     (\<exists>e. pt vpn = Some e \<and> v_ppn e = f \<and>
        (v_perm e = area_perm ar \<or> v_perm e = (area_perm ar)\<lparr>perm_w := False\<rparr>) \<and>
        (perm_w (v_perm e) \<longrightarrow> map_shared ar \<or> ph_owners ph f = 1))"

definition area_ok :: "arch \<Rightarrow> phys \<Rightarrow> vm_pt \<Rightarrow> virt_page_num \<Rightarrow> (virt_page_num, vm_area) node \<Rightarrow> bool" where
  "area_ok a ph pt st n \<longleftrightarrow>
     range_vpn a (node_value n) = (st, node_end n) \<and> snd (range_va (node_value n)) \<le> USER_STACK_TOP a \<and>
     bt_wf (frames (node_value n)) \<and>
     (\<forall>vpn f. (vpn, f) \<in> set (frames (node_value n)) \<longrightarrow>
        st \<le> vpn \<and> vpn < node_end n \<and> page_ok ph pt (node_value n) vpn f) \<and>
     (\<forall>i. vm_file (node_value n) = ShmOf i \<longrightarrow> map_shared (node_value n))"

definition space_ok :: "arch \<Rightarrow> phys \<Rightarrow> vm_space \<Rightarrow> bool" where
  "space_ok a ph s \<longleftrightarrow>
     rm_inv (vs_areas s) \<and>
     (\<forall>st n. (st, n) \<in> set (vs_areas s) \<longrightarrow> area_ok a ph (vs_pt s) st n) \<and>
     (\<forall>vpn e. vs_pt s vpn = Some e \<longrightarrow>
        (\<exists>st n. (st, n) \<in> set (vs_areas s) \<and> (vpn, v_ppn e) \<in> set (frames (node_value n))))"

record vm_sys =
  sp :: "vm_space list"
  mem :: phys
  kept :: "phys_page_num set"

definition vm_ok :: "arch \<Rightarrow> vm_sys \<Rightarrow> bool" where
  "vm_ok a v \<longleftrightarrow>
     (\<forall>s \<in> set (sp v). space_ok a (mem v) s) \<and>
     (\<forall>f. (\<Sum>s\<leftarrow>sp v. refs (vs_pt s) f) + (if f \<in> kept v then 1 else 0) \<le> ph_owners (mem v) f)"

text \<open>
  A local step of one space: it may turn the space into several (\<^verbatim>\<open>fork\<close>), keeps the invariant of
  the spaces it touches, changes the number of owners of a frame by the number of pages it maps
  or unmaps, newly maps only free frames and frames the kernel keeps, and leaves alone the contents of
  every frame that has an owner besides the pages of this space.
\<close>

definition local_step :: "arch \<Rightarrow> phys_page_num set \<Rightarrow> vm_space \<Rightarrow> phys \<Rightarrow> vm_space list \<Rightarrow> phys \<Rightarrow> bool" where
  "local_step a K s ph ts ph' \<longleftrightarrow>
     (\<forall>t \<in> set ts. space_ok a ph' t) \<and>
     (\<forall>f. ph_owners ph' f + refs (vs_pt s) f = ph_owners ph f + (\<Sum>t\<leftarrow>ts. refs (vs_pt t) f)) \<and>
     (\<forall>t \<in> set ts. \<forall>f. 0 < refs (vs_pt t) f \<longrightarrow> 0 < refs (vs_pt s) f \<or> ph_owners ph f = 0 \<or> f \<in> K) \<and>
     (\<forall>f. refs (vs_pt s) f < ph_owners ph f \<longrightarrow> ph_data ph' f = ph_data ph f)"

definition covered :: "phys_page_num set \<Rightarrow> vm_space \<Rightarrow> phys \<Rightarrow> bool" where
  "covered K s ph \<longleftrightarrow> (\<forall>f. refs (vs_pt s) f + (if f \<in> K then 1 else 0) \<le> ph_owners ph f)"

definition user_read :: "vm_space \<Rightarrow> phys \<Rightarrow> virt_page_num \<Rightarrow> nat \<Rightarrow> u8 option" where
  "user_read s ph vpn i = map_option (\<lambda>e. ph_data ph (v_ppn e) i) (vs_pt s vpn)"

section \<open>References of a page table\<close>

lemma refs_map_new:
  assumes "pt vpn = None"
  shows "refs (pt(vpn \<mapsto> e)) f = refs pt f + (if v_ppn e = f then 1 else 0)"
proof -
  have "{v. \<exists>x. (pt(vpn \<mapsto> e)) v = Some x \<and> v_ppn x = f} =
    (if v_ppn e = f then insert vpn {v. \<exists>x. pt v = Some x \<and> v_ppn x = f} else {v. \<exists>x. pt v = Some x \<and> v_ppn x = f})"
    using assms by auto
  then show ?thesis using assms by (simp add: refs_def)
qed

lemma refs_unmap:
  assumes "pt vpn = Some e"
  shows "refs (pt(vpn := None)) f + (if v_ppn e = f then 1 else 0) = refs pt f"
proof -
  have "pt = (pt(vpn := None))(vpn \<mapsto> e)" using assms by auto
  with refs_map_new [of "pt(vpn := None)" vpn e f] show ?thesis by simp
qed

lemma refs_remap:
  assumes "pt vpn = Some e"
  shows "refs (pt(vpn \<mapsto> e')) f + (if v_ppn e = f then 1 else 0) = refs pt f + (if v_ppn e' = f then 1 else 0)"
  using refs_unmap [of pt vpn e f] assms refs_map_new [of "pt(vpn := None)" vpn e' f] by simp

lemma refs_same: "pt vpn = Some e \<Longrightarrow> v_ppn e' = v_ppn e \<Longrightarrow> refs (pt(vpn \<mapsto> e')) f = refs pt f"
  using refs_remap [of pt vpn e e' f] by simp

lemma refs_pos: "0 < refs pt f \<longleftrightarrow> (\<exists>vpn e. pt vpn = Some e \<and> v_ppn e = f)"
  by (auto simp: refs_def card_gt_0_iff)

lemma refs_empty [simp]: "refs (\<lambda>_. None) f = 0"
  by (simp add: refs_def)

section \<open>Other spaces under a local step\<close>

lemma page_ok_owners:
  assumes "page_ok ph pt ar vpn f" "ph_owners ph f = 1 \<Longrightarrow> ph_owners ph' f = 1"
  shows "page_ok ph' pt ar vpn f"
  using assms by (auto simp: page_ok_def)

lemma space_ok_owners:
  assumes ok: "space_ok a ph s"
    and own: "\<And>f. 0 < refs (vs_pt s) f \<Longrightarrow> ph_owners ph f = 1 \<Longrightarrow> ph_owners ph' f = 1"
  shows "space_ok a ph' s"
proof -
  have "page_ok ph' (vs_pt s) ar vpn f" if "page_ok ph (vs_pt s) ar vpn f" for ar vpn f
    using page_ok_owners [OF that] own [of f] that unfolding refs_pos page_ok_def by blast
  with ok show ?thesis unfolding space_ok_def area_ok_def by blast
qed

lemma sum_list_split:
  "(\<Sum>s\<leftarrow>xs @ y # zs. g s) = (\<Sum>s\<leftarrow>xs @ zs. g s) + (g y :: nat)"
  by simp

lemma ref_le_sum: "t \<in> set xs \<Longrightarrow> (g t :: nat) \<le> (\<Sum>s\<leftarrow>xs. g s)"
  by (induction xs) auto

lemma sum_list_zero: "(\<Sum>t\<leftarrow>ts. g t) = (0 :: nat) \<longleftrightarrow> (\<forall>t \<in> set ts. g t = 0)"
  by (induction ts) auto

lemma vm_ok_covered: "vm_ok a v \<Longrightarrow> s \<in> set (sp v) \<Longrightarrow> space_ok a (mem v) s \<and> covered (kept v) s (mem v)"
  unfolding vm_ok_def covered_def using ref_le_sum [of s "sp v" "\<lambda>s. refs (vs_pt s) f" for f]
  by (meson add_le_mono1 order_trans)

lemma local_step_system:
  assumes ok: "vm_ok a v" and spl: "sp v = xs @ s # zs"
    and st: "local_step a (kept v) s (mem v) ts ph'" and new: "mset ys = mset (xs @ zs) + mset ts"
  shows "vm_ok a (v\<lparr>sp := ys, mem := ph'\<rparr>)"
    and "t \<in> set (xs @ zs) \<Longrightarrow> user_read t ph' = user_read t (mem v)"
proof -
  note loc = st [unfolded local_step_def]
  have own: "(\<Sum>t\<leftarrow>xs @ zs. refs (vs_pt t) f) + refs (vs_pt s) f + (if f \<in> kept v then 1 else 0) \<le> ph_owners (mem v) f" for f
    using ok unfolding vm_ok_def spl sum_list_split by blast
  have cons: "ph_owners ph' f + refs (vs_pt s) f = ph_owners (mem v) f + (\<Sum>t\<leftarrow>ts. refs (vs_pt t) f)" for f
    using loc by blast
  have sum_ys: "(\<Sum>t\<leftarrow>ys. refs (vs_pt t) f) = (\<Sum>t\<leftarrow>xs @ zs. refs (vs_pt t) f) + (\<Sum>t\<leftarrow>ts. refs (vs_pt t) f)" for f
    using arg_cong [OF new, of "\<lambda>M. sum_mset (image_mset (\<lambda>t. refs (vs_pt t) f) M)"]
    by (simp add: sum_mset_sum_list flip: mset_map)
  have other: "space_ok a ph' t" if t: "t \<in> set (xs @ zs)" for t
  proof (rule space_ok_owners)
    show "space_ok a (mem v) t" using ok t unfolding vm_ok_def spl by auto
    fix f assume f: "0 < refs (vs_pt t) f" "ph_owners (mem v) f = 1"
    have "refs (vs_pt t) f \<le> (\<Sum>t\<leftarrow>xs @ zs. refs (vs_pt t) f)" by (rule ref_le_sum [OF t])
    with own [of f] f have z: "refs (vs_pt s) f = 0" "f \<notin> kept v" by (auto split: if_splits)
    have "(\<Sum>t\<leftarrow>ts. refs (vs_pt t) f) = 0" unfolding sum_list_zero using loc z f(2) by fastforce
    with cons [of f] z f show "ph_owners ph' f = 1" by simp
  qed
  have "set ys = set (xs @ zs) \<union> set ts" using arg_cong [OF new, of set_mset] by simp
  then have oks: "\<forall>t \<in> set ys. space_ok a ph' t" using other loc by blast
  have "(\<Sum>t\<leftarrow>ys. refs (vs_pt t) f) + (if f \<in> kept v then 1 else 0) \<le> ph_owners ph' f" for f
    using own [of f] cons [of f] sum_ys [of f] by simp
  with oks show "vm_ok a (v\<lparr>sp := ys, mem := ph'\<rparr>)" by (simp add: vm_ok_def)
  show "user_read t ph' = user_read t (mem v)" if t: "t \<in> set (xs @ zs)"
  proof (intro ext)
    fix vpn i
    show "user_read t ph' vpn i = user_read t (mem v) vpn i"
    proof (cases "vs_pt t vpn")
      case (Some e)
      then have "0 < refs (vs_pt t) (v_ppn e)" unfolding refs_pos by blast
      then have "refs (vs_pt s) (v_ppn e) < ph_owners (mem v) (v_ppn e)"
        using own [of "v_ppn e"] ref_le_sum [OF t, of "\<lambda>t. refs (vs_pt t) (v_ppn e)"] by linarith
      with loc Some show ?thesis by (simp add: user_read_def)
    qed (simp add: user_read_def)
  qed
qed

section \<open>Page faults\<close>

lemma last_le_node:
  assumes inv: "rm_inv m" and sn: "(st, n) \<in> set m" "st \<le> k" "k < node_end n"
  shows "bt_last_le k m = Some (st, n)" "rm_get k m = Some (node_value n)"
    "rm_get_mut k f m = Some (rm_set_value st f m)"
proof -
  have "rm_get_key_value k m = Some ((st, node_end n), node_value n)"
    unfolding rm_get_key_value_iff [OF inv] using sn by simp
  then show *: "bt_last_le k m = Some (st, n)"
    using bt_last_le_Some(1) [OF rm_invD(1) [OF inv]] bt_wf_unique [OF rm_invD(1) [OF inv] sn(1)]
    by (auto simp: rm_get_key_value_def split: option.splits if_splits prod.splits)
  with sn(3) show "rm_get k m = Some (node_value n)" "rm_get_mut k f m = Some (rm_set_value st f m)"
    by (simp_all add: rm_get_def rm_get_mut_def)
qed

lemma rm_get_node:
  assumes "rm_inv m" "rm_get k m = Some v"
  obtains st n where "(st, n) \<in> set m" "st \<le> k" "k < node_end n" "node_value n = v"
  using assms rm_abs_Some [OF assms(1), of k v] by (auto simp: rm_get_abs)

lemma area_of_page:
  assumes ok: "space_ok a ph s" and sn: "(st, n) \<in> set (vs_areas s)" "st \<le> vpn" "vpn < node_end n"
    and e: "vs_pt s vpn = Some e"
  shows "bt_get (frames (node_value n)) vpn = Some (v_ppn e)" "page_ok ph (vs_pt s) (node_value n) vpn (v_ppn e)"
proof -
  from ok e obtain st' n' where n': "(st', n') \<in> set (vs_areas s)" "(vpn, v_ppn e) \<in> set (frames (node_value n'))"
    unfolding space_ok_def by blast
  with ok have "st' \<le> vpn" "vpn < node_end n'" unfolding space_ok_def area_ok_def by blast+
  with rm_inv_same_node [of "vs_areas s" "(st, n)" "(st', n')" vpn] sn n' ok have "n' = n"
    by (simp add: space_ok_def)
  with n' ok show "bt_get (frames (node_value n)) vpn = Some (v_ppn e)" "page_ok ph (vs_pt s) (node_value n) vpn (v_ppn e)"
    unfolding space_ok_def area_ok_def by (auto simp: bt_get_iff)
qed

lemma page_ok_other: "page_ok ph pt ar v f \<Longrightarrow> v \<noteq> vpn \<Longrightarrow> page_ok ph (pt(vpn := x)) ar v f"
  by (simp add: page_ok_def)

lemma page_ok_frames [simp]: "page_ok ph pt (ar\<lparr>frames := fs\<rparr>) = page_ok ph pt ar"
  by (intro ext) (simp add: page_ok_def)

lemma space_ok_page:
  assumes ok: "space_ok a ph s" and sn: "(st, n) \<in> set (vs_areas s)" "st \<le> vpn" "vpn < node_end n"
    and e: "v_perm e = area_perm (node_value n) \<or> v_perm e = (area_perm (node_value n))\<lparr>perm_w := False\<rparr>"
      "perm_w (v_perm e) \<Longrightarrow> map_shared (node_value n) \<or> ph_owners ph' (v_ppn e) = 1"
    and own: "\<And>v x. v \<noteq> vpn \<Longrightarrow> vs_pt s v = Some x \<Longrightarrow> ph_owners ph (v_ppn x) = 1 \<Longrightarrow> ph_owners ph' (v_ppn x) = 1"
    and fs: "fs = bt_insert vpn (v_ppn e) (frames (node_value n))"
  shows "space_ok a ph' (s\<lparr>vs_areas := rm_set_value st (\<lambda>_. (node_value n)\<lparr>frames := fs\<rparr>) (vs_areas s),
    vs_pt := (vs_pt s)(vpn \<mapsto> e)\<rparr>)" (is "space_ok a ph' ?s")
proof -
  let ?ar = "(node_value n)\<lparr>frames := fs\<rparr>"
  have inv: "rm_inv (vs_areas s)" and aok: "\<And>st n. (st, n) \<in> set (vs_areas s) \<Longrightarrow> area_ok a ph (vs_pt s) st n"
    and cov: "\<And>v x. vs_pt s v = Some x \<Longrightarrow>
      \<exists>st n. (st, n) \<in> set (vs_areas s) \<and> (v, v_ppn x) \<in> set (frames (node_value n))"
    using ok unfolding space_ok_def by blast+
  have sets: "set (vs_areas ?s) = insert (st, n\<lparr>node_value := ?ar\<rparr>) {p \<in> set (vs_areas s). fst p \<noteq> st}"
    using set_rm_set_value [OF rm_invD(1) [OF inv] sn(1)] by simp
  have wf: "bt_wf (frames (node_value n))" using aok [OF sn(1)] by (simp add: area_ok_def)
  have fset: "set fs = insert (vpn, v_ppn e) {p \<in> set (frames (node_value n)). fst p \<noteq> vpn}"
    unfolding fs by (rule set_bt_insert [OF wf])
  have wfs: "bt_wf fs" unfolding fs using wf by blast
  have old: "page_ok ph' (vs_pt ?s) (node_value m) v f"
    if m: "(t, m) \<in> set (vs_areas s)" "(v, f) \<in> set (frames (node_value m))" "v \<noteq> vpn" for t m v f
  proof -
    have p: "page_ok ph (vs_pt s) (node_value m) v f" using aok [OF m(1)] m(2) by (simp add: area_ok_def)
    then have "page_ok ph' (vs_pt s) (node_value m) v f"
      using own [OF m(3)] by (auto simp: page_ok_def)
    then show ?thesis using page_ok_other [OF _ m(3)] by simp
  qed
  have new: "page_ok ph' (vs_pt ?s) (node_value n) vpn (v_ppn e)" using e by (simp add: page_ok_def)
  have "area_ok a ph' (vs_pt ?s) st (n\<lparr>node_value := ?ar\<rparr>)"
    using aok [OF sn(1)] sn old [OF sn(1)] new wfs
    unfolding area_ok_def by (auto simp: fset range_vpn_def)
  moreover have "area_ok a ph' (vs_pt ?s) t m" if m: "(t, m) \<in> set (vs_areas s)" "t \<noteq> st" for t m
  proof -
    have "v \<noteq> vpn" if "(v, f) \<in> set (frames (node_value m))" for v f
    proof
      assume "v = vpn"
      with that aok [OF m(1)] have "t \<le> vpn" "vpn < node_end m" by (auto simp: area_ok_def)
      with rm_inv_same_node [OF inv m(1) sn(1), of vpn] sn m show False by simp
    qed
    with aok [OF m(1)] old [OF m(1)] show ?thesis unfolding area_ok_def by blast
  qed
  moreover have "\<exists>t m. (t, m) \<in> set (vs_areas ?s) \<and> (v, v_ppn x) \<in> set (frames (node_value m))"
    if x: "vs_pt ?s v = Some x" for v x
  proof (cases "v = vpn")
    case True
    with x show ?thesis unfolding sets by (intro exI [of _ st] exI [of _ "n\<lparr>node_value := ?ar\<rparr>"]) (simp add: fset)
  next
    case False
    with x cov [of v x] obtain t m where m: "(t, m) \<in> set (vs_areas s)" "(v, v_ppn x) \<in> set (frames (node_value m))"
      by auto
    show ?thesis
    proof (cases "t = st")
      case True
      with m(1) sn(1) have "m = n" using bt_wf_unique [OF rm_invD(1) [OF inv]] by blast
      with m False show ?thesis unfolding sets
        by (intro exI [of _ st] exI [of _ "n\<lparr>node_value := ?ar\<rparr>"]) (simp add: fset)
    qed (use m sets in auto)
  qed
  moreover have "rm_inv (vs_areas ?s)" using rm_set_value_ok(1) [OF inv sn(1)] by simp
  ultimately show ?thesis unfolding space_ok_def sets by auto
qed

definition env_ok :: "phys_page_num set \<Rightarrow> phys \<Rightarrow> vm_env \<Rightarrow> bool" where
  "env_ok K ph env \<longleftrightarrow>
     (\<forall>f. e_alloc env = Some f \<longrightarrow> ph_owners ph f = 0) \<and> e_zero env \<in> K \<and>
     (\<forall>file off p. e_page env file off = Some p \<longrightarrow> p \<in> K) \<and>
     (\<forall>i off p. e_shm env i off = Some p \<longrightarrow> p \<in> K)"

definition fresh_page :: "phys_page_num set \<Rightarrow> access_type \<Rightarrow> vm_area \<Rightarrow> phys \<Rightarrow> phys \<Rightarrow> pte_view \<Rightarrow> bool" where
  "fresh_page K acc ar ph ph' e \<longleftrightarrow>
     v_valid e \<and> (v_perm e = area_perm ar \<or> v_perm e = (area_perm ar)\<lparr>perm_w := False\<rparr>) \<and>
     (acc_write acc \<longrightarrow> perm_w (v_perm e)) \<and>
     (ph_owners ph (v_ppn e) = 0 \<and> ph_owners ph' = (ph_owners ph)(v_ppn e := 1) \<or>
      v_ppn e \<in> K \<and> ph_owners ph' = (ph_owners ph)(v_ppn e := ph_owners ph (v_ppn e) + 1) \<and>
      (perm_w (v_perm e) \<longrightarrow> map_shared ar)) \<and>
     (\<forall>f. 0 < ph_owners ph f \<longrightarrow> ph_data ph' f = ph_data ph f)"

lemmas fault_defs = leaf_def set_writable_def set_dirty_def frames_insert_def arc_new_def arc_clone_def arc_drop_def
  ph_fill_def page_set_dirty_def

lemma zero_page_result:
  assumes "map_zero_page env vpn acc perm (frames ar, pt, ph) = (r, fs, pt', ph')" "env_ok K ph env"
    "bt_get (frames ar) vpn = None" "can_access acc perm" "perm = area_perm ar"
  shows "r = Inl () \<and> (fs, pt', ph') = (frames ar, pt, ph) \<or>
    r = Inr () \<and> (\<exists>e. fs = bt_insert vpn (v_ppn e) (frames ar) \<and> pt' = pt(vpn \<mapsto> e) \<and> fresh_page K acc ar ph ph' e)"
proof (cases "acc_write acc")
  case True
  then have w: "perm_w perm" using assms(4) by (simp add: can_access_def split: if_splits)
  show ?thesis
  proof (cases "e_alloc env")
    case (Some f)
    then have "ph_owners ph f = 0" using assms(2) by (simp add: env_ok_def)
    with Some True assms w show ?thesis
      by (auto simp: map_zero_page_def fault_defs fresh_page_def intro!: exI [of _ "set_dirty True (leaf f perm)"])
  qed (use assms True in \<open>simp add: map_zero_page_def\<close>)
next
  case False
  then show ?thesis using assms
    by (auto simp: map_zero_page_def fault_defs fresh_page_def env_ok_def
        intro!: exI [of _ "leaf (e_zero env) (perm\<lparr>perm_w := False\<rparr>)"])
qed

lemma private_file_result:
  assumes "map_private_file env vpn acc file off len perm (frames ar, pt, ph) = Some (r, fs, pt', ph')" "env_ok K ph env"
    "bt_get (frames ar) vpn = None" "can_access acc perm" "perm = area_perm ar"
  shows "r = Inl () \<and> (fs, pt', ph') = (frames ar, pt, ph) \<or>
    r = Inr () \<and> (\<exists>e. fs = bt_insert vpn (v_ppn e) (frames ar) \<and> pt' = pt(vpn \<mapsto> e) \<and> fresh_page K acc ar ph ph' e)"
proof -
  have ino: "e_inode env file" using assms(1) by (cases "e_inode env file") (simp_all add: map_private_file_def)
  show ?thesis
  proof (cases "e_page env file off")
  case None
  with assms(1) show ?thesis by (auto simp: map_private_file_def ino split: if_splits option.splits)
next
  case page: (Some page)
  then have pk: "page \<in> K" using assms(2) by (auto simp: env_ok_def)
  have w: "acc_write acc \<Longrightarrow> perm_w perm" using assms(4) by (simp add: can_access_def split: if_splits)
  show ?thesis
  proof (cases "\<not> len < PAGE_SIZE \<and> \<not> acc_write acc")
    case True
    with assms page pk show ?thesis
      by (auto simp: map_private_file_def ino fault_defs fresh_page_def intro!: exI [of _ "leaf page (perm\<lparr>perm_w := False\<rparr>)"])
  next
    case cp: False
    show ?thesis
    proof (cases "e_alloc env")
      case None
      with cp page assms(1) show ?thesis by (auto simp: map_private_file_def ino split: if_splits)
    next
      case (Some f)
      then have f: "ph_owners ph f = 0" using assms(2) by (simp add: env_ok_def)
      let ?e = "(leaf f perm)\<lparr>v_dirty := acc_write acc\<rparr>"
      have "r = Inr () \<and> fs = bt_insert vpn f (frames ar) \<and> pt' = pt(vpn \<mapsto> ?e) \<and>
        ph_owners ph' = (ph_owners ph)(f := 1) \<and> (\<forall>g. g \<noteq> f \<longrightarrow> ph_data ph' g = ph_data ph g)"
        using cp page Some assms(1,3) by (auto simp: map_private_file_def ino fault_defs Let_def split: if_splits)
      moreover have "g \<noteq> f" if "0 < ph_owners ph g" for g using that f by auto
      ultimately show ?thesis using f w assms(5)
        by (auto simp: fresh_page_def leaf_def intro!: exI [of _ ?e])
    qed
  qed
  qed
qed

lemma shared_page_result:
  assumes "map_shared_page vpn acc page_at perm (frames ar, pt, ph) = (r, fs, pt', ph')"
    "\<And>p. page_at = Some p \<Longrightarrow> p \<in> K" "map_shared ar"
    "bt_get (frames ar) vpn = None" "can_access acc perm" "perm = area_perm ar"
  shows "r = Inl () \<and> (fs, pt', ph') = (frames ar, pt, ph) \<or>
    r = Inr () \<and> (\<exists>e. fs = bt_insert vpn (v_ppn e) (frames ar) \<and> pt' = pt(vpn \<mapsto> e) \<and> fresh_page K acc ar ph ph' e)"
proof (cases page_at)
  case None
  with assms(1) show ?thesis by (simp add: map_shared_page_def)
next
  case (Some page)
  let ?e = "(leaf page perm)\<lparr>v_dirty := acc_write acc\<rparr>"
  have w: "acc_write acc \<Longrightarrow> perm_w perm" using assms(5) by (simp add: can_access_def split: if_splits)
  have "r = Inr () \<and> fs = bt_insert vpn page (frames ar) \<and> pt' = pt(vpn \<mapsto> ?e) \<and>
    ph_owners ph' = (ph_owners ph)(page := ph_owners ph page + 1) \<and> ph_data ph' = ph_data ph"
    using Some assms(1,4) by (auto simp: map_shared_page_def fault_defs Let_def split: if_splits)
  then show ?thesis using w Some assms(2,3,6)
    by (auto simp: fresh_page_def leaf_def intro!: exI [of _ ?e])
qed

lemma lazy_result:
  assumes h: "handle_lazy_page_fault a env vpn acc ar pt ph = Some (r, fs, pt', ph')"
    and env: "env_ok K ph env" and new: "bt_get (frames ar) vpn = None"
    and acc: "can_access acc (area_perm ar)" and shm: "\<forall>i. vm_file ar = ShmOf i \<longrightarrow> map_shared ar"
  shows "r = Inl () \<and> (fs, pt', ph') = (frames ar, pt, ph) \<or>
    r = Inr () \<and> (\<exists>e. fs = bt_insert vpn (v_ppn e) (frames ar) \<and> pt' = pt(vpn \<mapsto> e) \<and> fresh_page K acc ar ph ph' e)"
proof -
  note zero = zero_page_result [OF _ env new acc refl, of pt r fs pt' ph']
  note priv = private_file_result [OF _ env new acc refl, of _ _ _ pt r fs pt' ph']
  note shr = shared_page_result [OF _ _ _ new acc refl, of _ pt ph r fs pt' ph' K]
  have pages: "\<And>file off p. e_page env file off = Some p \<Longrightarrow> p \<in> K" "\<And>i off p. e_shm env i off = Some p \<Longrightarrow> p \<in> K"
    using env by (auto simp: env_ok_def)
  show ?thesis
  proof (cases "vma_type ar")
    case VData
    with h have "map_zero_page env vpn acc (area_perm ar) (frames ar, pt, ph) = (r, fs, pt', ph') \<or>
      (\<exists>f off len. map_private_file env vpn acc f off len (area_perm ar) (frames ar, pt, ph) = Some (r, fs, pt', ph'))"
      by (auto simp: handle_lazy_page_fault_def data_lazy_fault_def Let_def bind_eq_Some_conv
          split: user_vm_file.splits if_splits)
    with zero priv show ?thesis by blast
  next
    case VMmap
    show ?thesis
    proof (cases "vm_file ar")
      case NoFile
      with h VMmap zero show ?thesis by (simp add: handle_lazy_page_fault_def mmap_lazy_fault_def)
    next
      case (FileOf file0)
      let ?off = "file_offset ar + page_in_area a vpn ar"
      show ?thesis
      proof (cases "map_shared ar")
        case True
        with h VMmap FileOf have "r = Inl () \<and> (fs, pt', ph') = (frames ar, pt, ph) \<or>
          map_shared_page vpn acc (e_page env file0 ?off) (area_perm ar) (frames ar, pt, ph) = (r, fs, pt', ph')"
          by (auto simp: handle_lazy_page_fault_def mmap_lazy_fault_def map_shared_file_def Let_def bind_eq_Some_conv split: if_splits)
        with shr [OF _ pages(1) [of file0 ?off] True, of "e_page env file0 ?off"] show ?thesis by blast
      next
        case False
        with h VMmap FileOf have "map_private_file env vpn acc file0 ?off PAGE_SIZE (area_perm ar) (frames ar, pt, ph) =
          Some (r, fs, pt', ph')"
          by (auto simp: handle_lazy_page_fault_def mmap_lazy_fault_def Let_def bind_eq_Some_conv)
        then show ?thesis by (rule priv)
      qed
    next
      case (ShmOf i)
      with h VMmap have "map_shared_page vpn acc (e_shm env i (file_offset ar + page_in_area a vpn ar))
          (area_perm ar) (frames ar, pt, ph) = (r, fs, pt', ph')"
        by (auto simp: handle_lazy_page_fault_def mmap_lazy_fault_def map_shared_memory_def Let_def bind_eq_Some_conv)
      then show ?thesis by (rule shr) (use pages(2) shm ShmOf in auto)
    qed
  qed (use h zero in \<open>simp_all add: handle_lazy_page_fault_def\<close>)
qed

lemma bt_insert_same: "bt_wf m \<Longrightarrow> bt_get m k = Some v \<Longrightarrow> bt_insert k v m = m"
  by (induction k v m rule: bt_insert.induct) (auto simp: bt_get_def split: if_splits dest!: map_of_SomeD)

lemma rm_set_value_same:
  assumes "bt_wf m" "(st, n) \<in> set m"
  shows "rm_set_value st (\<lambda>_. node_value n) m = m"
proof -
  have "b = n" if "(st, b) \<in> set m" for b using bt_wf_unique [OF assms] that by blast
  then show ?thesis unfolding rm_set_value_def bt_get_mut_def by (intro map_idI) auto
qed

lemma local_step_refl: "space_ok a ph s \<Longrightarrow> local_step a K s ph [s] ph"
  by (simp add: local_step_def)

lemma local_step_page:
  assumes ok: "space_ok a ph' s'" and pt: "vs_pt s' = (vs_pt s)(vpn \<mapsto> e)"
    and own: "\<And>f. ph_owners ph' f + refs (vs_pt s) f = ph_owners ph f + refs ((vs_pt s)(vpn \<mapsto> e)) f"
    and new: "0 < refs (vs_pt s) (v_ppn e) \<or> ph_owners ph (v_ppn e) = 0 \<or> v_ppn e \<in> K"
    and dat: "\<And>f. 0 < ph_owners ph f \<Longrightarrow> ph_data ph' f = ph_data ph f"
  shows "local_step a K s ph [s'] ph'"
proof -
  have "0 < refs (vs_pt s) f \<or> ph_owners ph f = 0 \<or> f \<in> K" if "0 < refs (vs_pt s') f" for f
    using that new unfolding refs_pos pt by (auto split: if_splits)
  moreover have "ph_data ph' f = ph_data ph f" if "refs (vs_pt s) f < ph_owners ph f" for f using dat that by auto
  ultimately show ?thesis using ok pt own by (simp add: local_step_def)
qed

lemma local_step_trans:
  assumes st: "local_step a K s ph [t] ph1" and tu: "local_step a K t ph1 us ph2"
  shows "local_step a K s ph us ph2"
proof -
  note s1 = st [unfolded local_step_def, simplified] and s2 = tu [unfolded local_step_def]
  have c1: "ph_owners ph1 f + refs (vs_pt s) f = ph_owners ph f + refs (vs_pt t) f" for f using s1 by blast
  have c2: "ph_owners ph2 f + refs (vs_pt t) f = ph_owners ph1 f + (\<Sum>u\<leftarrow>us. refs (vs_pt u) f)" for f using s2 by blast
  have "ph_owners ph2 f + refs (vs_pt s) f = ph_owners ph f + (\<Sum>u\<leftarrow>us. refs (vs_pt u) f)" for f
    using c1 [of f] c2 [of f] by linarith
  moreover have "0 < refs (vs_pt s) f \<or> ph_owners ph f = 0 \<or> f \<in> K" if u: "u \<in> set us" "0 < refs (vs_pt u) f" for u f
  proof -
    from s2 u have "0 < refs (vs_pt t) f \<or> ph_owners ph1 f = 0 \<or> f \<in> K" by blast
    moreover have "0 < refs (vs_pt t) f \<Longrightarrow> 0 < refs (vs_pt s) f \<or> ph_owners ph f = 0 \<or> f \<in> K" using s1 by blast
    ultimately show ?thesis using c1 [of f] by fastforce
  qed
  moreover have "ph_data ph2 f = ph_data ph f" if "refs (vs_pt s) f < ph_owners ph f" for f
  proof -
    have "ph_data ph1 f = ph_data ph f" using s1 that by blast
    moreover have "refs (vs_pt t) f < ph_owners ph1 f" using c1 [of f] that by linarith
    ultimately show ?thesis using s2 by simp
  qed
  ultimately show ?thesis using s2 unfolding local_step_def by blast
qed

definition same_contents :: "vm_space \<Rightarrow> phys \<Rightarrow> vm_space \<Rightarrow> phys \<Rightarrow> bool" where
  "same_contents s ph s' ph' \<longleftrightarrow>
     (\<forall>vpn. vs_pt s vpn \<noteq> None \<longrightarrow> user_read s' ph' vpn = user_read s ph vpn)"

lemma same_contentsI:
  assumes "\<And>vpn e. vs_pt s vpn = Some e \<Longrightarrow>
    \<exists>x. vs_pt s' vpn = Some x \<and> ph_data ph' (v_ppn x) = ph_data ph (v_ppn e)"
  shows "same_contents s ph s' ph'"
  unfolding same_contents_def
proof (intro allI impI ext)
  fix vpn i assume "vs_pt s vpn \<noteq> None"
  then show "user_read s' ph' vpn i = user_read s ph vpn i"
    using assms [of vpn] by (auto simp: user_read_def)
qed

lemma covered_refs: "covered K s ph \<Longrightarrow> vs_pt s v = Some x \<Longrightarrow> 0 < ph_owners ph (v_ppn x)"
  using refs_pos [of "vs_pt s" "v_ppn x"] unfolding covered_def by (metis add_gr_0 leD not_gr_zero)

lemma covered_kept: "covered K s ph \<Longrightarrow> vs_pt s v = Some x \<Longrightarrow> v_ppn x \<in> K \<Longrightarrow> 1 < ph_owners ph (v_ppn x)"
proof -
  assume a: "covered K s ph" "vs_pt s v = Some x" "v_ppn x \<in> K"
  have "refs (vs_pt s) (v_ppn x) + 1 \<le> ph_owners ph (v_ppn x)" using a(1,3) unfolding covered_def by metis
  moreover have "0 < refs (vs_pt s) (v_ppn x)" using a(2) unfolding refs_pos by blast
  ultimately show ?thesis by linarith
qed

lemma lazy_local:
  assumes ok: "space_ok a ph s" and cov: "covered K s ph"
    and sn: "(st, n) \<in> set (vs_areas s)" "st \<le> vpn" "vpn < node_end n"
    and pt: "vs_pt s vpn = None" and fp: "fresh_page K acc (node_value n) ph ph' e"
    and s': "s' = s\<lparr>vs_areas := rm_set_value st (\<lambda>_. (node_value n)\<lparr>frames := bt_insert vpn (v_ppn e) (frames (node_value n))\<rparr>)
      (vs_areas s), vs_pt := (vs_pt s)(vpn \<mapsto> e)\<rparr>"
  shows "local_step a K s ph [s'] ph' \<and> same_contents s ph s' ph'"
proof -
  note fresh = fp [unfolded fresh_page_def]
  have own: "ph_owners ph' (v_ppn x) = 1" if "vs_pt s v = Some x" "ph_owners ph (v_ppn x) = 1" for v x
    using fresh that covered_kept [OF cov that(1)] by (cases "v_ppn x = v_ppn e") auto
  have ok': "space_ok a ph' s'" unfolding s'
    by (rule space_ok_page [OF ok sn _ _ _ refl]) (use fresh own in auto)
  have "ph_owners ph' f + refs (vs_pt s) f = ph_owners ph f + refs ((vs_pt s)(vpn \<mapsto> e)) f" for f
    using fresh refs_map_new [of "vs_pt s" vpn e f] pt by auto
  then have "local_step a K s ph [s'] ph'"
    by (intro local_step_page [OF ok']) (use fresh s' in auto)
  moreover have "same_contents s ph s' ph'"
    by (rule same_contentsI) (use fresh covered_refs [OF cov] pt s' in auto)
  ultimately show ?thesis ..
qed

lemma cow_local:
  assumes ok: "space_ok a ph s" and cov: "covered K s ph" and env: "env_ok K ph env"
    and sn: "(st, n) \<in> set (vs_areas s)" "st \<le> vpn" "vpn < node_end n"
    and pt: "vs_pt s vpn = Some e" and acc: "can_access acc (area_perm (node_value n))"
    and h: "cow_fault env vpn acc e (node_value n) (vs_pt s) ph = Some (r, fs, pt', ph')"
    and s': "s' = s\<lparr>vs_areas := rm_set_value st (\<lambda>_. (node_value n)\<lparr>frames := fs\<rparr>) (vs_areas s), vs_pt := pt'\<rparr>"
  shows "local_step a K s ph [s'] ph' \<and> same_contents s ph s' ph' \<and>
    (r = Inr () \<longrightarrow> (\<exists>x. vs_pt s' vpn = Some x \<and> perm_w (v_perm x))) \<and> (r = Inl () \<longrightarrow> s' = s \<and> ph' = ph)"
proof -
  let ?ar = "node_value n"
  have inv: "rm_inv (vs_areas s)" using ok by (simp add: space_ok_def)
  have wf: "bt_wf (frames ?ar)" using ok sn(1) unfolding space_ok_def area_ok_def by blast
  note get = area_of_page [OF ok sn pt]
  have same: "s' = s" if "fs = frames ?ar" "pt' = vs_pt s"
    using that s' rm_set_value_same [OF rm_invD(1) [OF inv] sn(1)] by simp
  show ?thesis
  proof (cases "acc_write acc \<and> \<not> perm_w (v_perm e)")
    case False
    with h have "fs = frames ?ar \<and> pt' = vs_pt s \<and> ph' = ph \<and> (r = Inr () \<longrightarrow> perm_w (v_perm e))"
      by (auto simp: cow_fault_def split: if_splits)
    with same local_step_refl [OF ok] pt show ?thesis by (simp add: same_contents_def)
  next
    case w: True
    then have aw: "perm_w (area_perm ?ar)" using acc by (simp add: can_access_def split: if_splits)
    define u where "u = (\<lambda>f. set_dirty True (set_writable True (e\<lparr>v_ppn := f\<rparr>)))"
    have up: "v_perm (u f) = area_perm ?ar" "v_ppn (u f) = f" for f
      using get(2) pt w aw by (auto simp: u_def page_ok_def set_dirty_def set_writable_def)
    show ?thesis
    proof (cases "map_shared ?ar \<or> ph_owners ph (v_ppn e) \<le> 1")
      case True
      with h w get(1) have r: "fs = frames ?ar" "pt' = (vs_pt s)(vpn \<mapsto> u (v_ppn e))" "ph' = ph" "r = Inr ()"
        by (auto simp: u_def cow_fault_def set_dirty_def set_writable_def split: if_splits)
      have fs: "fs = bt_insert vpn (v_ppn (u (v_ppn e))) (frames ?ar)"
        using bt_insert_same [OF wf get(1)] r(1) up(2) by simp
      have one: "map_shared ?ar \<or> ph_owners ph (v_ppn (u (v_ppn e))) = 1"
        using True covered_refs [OF cov pt] up(2) by auto
      have ok': "space_ok a ph' s'" unfolding s' r(2)
        by (rule space_ok_page [OF ok sn _ _ _ fs]) (use up one r(3) in auto)
      have "local_step a K s ph [s'] ph'"
        by (intro local_step_page [OF ok', of _ vpn "u (v_ppn e)"])
          (use s' r up refs_same [of "vs_pt s" vpn e] pt refs_pos [of "vs_pt s" "v_ppn e"] in auto)
      moreover have "same_contents s ph s' ph'" 
        by (rule same_contentsI) (use s' r pt up in auto)
      ultimately show ?thesis using s' r up aw by simp
    next
      case False
      with h w get(1) obtain g where g: "e_alloc env = Some g" "fs = bt_insert vpn g (frames ?ar)"
        "pt' = (vs_pt s)(vpn \<mapsto> u g)" "ph' = arc_emplace (v_ppn e) g (ph_fill g (ph_data ph (v_ppn e)) ph)" "r = Inr ()"
        by (auto simp: u_def cow_fault_def set_dirty_def set_writable_def bind_eq_Some_conv split: if_splits)
      have g0: "ph_owners ph g = 0" using env g(1) by (simp add: env_ok_def)
      have live: "v_ppn x \<noteq> g" if "vs_pt s v = Some x" for v x using covered_refs [OF cov that] g0 by auto
      have ne: "g \<noteq> v_ppn e" using live [OF pt] by simp
      have own: "ph_owners ph' = (ph_owners ph)(v_ppn e := ph_owners ph (v_ppn e) - 1, g := 1)"
        "ph_data ph' = (ph_data ph)(g := ph_data ph (v_ppn e))"
        using g(4) False ne by (auto simp: arc_emplace_def arc_new_def ph_fill_def)
      have fs: "fs = bt_insert vpn (v_ppn (u g)) (frames ?ar)" using g(2) up(2) by simp
      have ok': "space_ok a ph' s'" unfolding s' g(3)
      proof (rule space_ok_page [OF ok sn _ _ _ fs])
        fix v x assume "vs_pt s v = Some x" "ph_owners ph (v_ppn x) = 1"
        then show "ph_owners ph' (v_ppn x) = 1" using own(1) False g0 by (cases "v_ppn x = g") auto
      qed (use up own(1) in auto)
      have "local_step a K s ph [s'] ph'"
      proof (rule local_step_page [OF ok'])
        show "ph_owners ph' f + refs (vs_pt s) f = ph_owners ph f + refs ((vs_pt s)(vpn \<mapsto> u g)) f" for f
          using refs_remap [of "vs_pt s" vpn e "u g" f] pt up(2) own(1) g0 ne False
          by (cases "f = g"; cases "f = v_ppn e") auto
      qed (use s' g(3) g0 own(2) up(2) in auto)
      moreover have "same_contents s ph s' ph'"
        by (rule same_contentsI) (use s' g(3) pt own(2) up(2) live in auto)
      ultimately show ?thesis using s' g(3,5) up aw by simp
    qed
  qed
qed

lemma fault_spec:
  assumes ok: "space_ok a ph s" and cov: "covered K s ph" and env: "env_ok K ph env"
    and h: "handle_page_fault a env va acc s ph = Some (r, s', ph')"
  shows "local_step a K s ph [s'] ph' \<and> same_contents s ph s' ph' \<and>
    (r = Inr () \<longrightarrow> (\<exists>x. vs_pt s' (va_floor a va) = Some x \<and> (acc_write acc \<longrightarrow> perm_w (v_perm x)))) \<and>
    (r = Inl () \<longrightarrow> s' = s \<and> ph' = ph)"
proof (cases "rm_get (va_floor a va) (vs_areas s)")
  case None
  with h local_step_refl [OF ok] show ?thesis by (auto simp: handle_page_fault_def same_contents_def)
next
  case (Some area)
  let ?vpn = "va_floor a va"
  have inv: "rm_inv (vs_areas s)" using ok by (simp add: space_ok_def)
  from rm_get_node [OF inv Some] obtain st n where
    sn: "(st, n) \<in> set (vs_areas s)" "st \<le> ?vpn" "?vpn < node_end n" "node_value n = area" .
  have same: "rm_set_value st (\<lambda>_. area) (vs_areas s) = vs_areas s"
    using rm_set_value_same [OF rm_invD(1) [OF inv] sn(1)] sn(4) by simp
  have aok: "area_ok a ph (vs_pt s) st n" using ok sn(1) by (simp add: space_ok_def)
  show ?thesis
  proof (cases "can_access acc (area_perm area)")
    case False
    with h Some same local_step_refl [OF ok] last_le_node(3) [OF inv sn(1-3)] show ?thesis
      by (auto simp: handle_page_fault_def fault_in_area_def area_handle_page_fault_def same_contents_def)
  next
    case acc: True
    from h Some acc obtain fs pt' where f: "(case vs_pt s ?vpn of
        Some pte \<Rightarrow> cow_fault env ?vpn acc pte area (vs_pt s) ph
      | None \<Rightarrow> handle_lazy_page_fault a env ?vpn acc area (vs_pt s) ph) = Some (r, fs, pt', ph')"
      and s': "s' = s\<lparr>vs_areas := rm_set_value st (\<lambda>_. area\<lparr>frames := fs\<rparr>) (vs_areas s), vs_pt := pt'\<rparr>"
      using last_le_node(3) [OF inv sn(1-3)]
      by (auto simp: handle_page_fault_def fault_in_area_def area_handle_page_fault_def Let_def bind_eq_Some_conv)
    show ?thesis
    proof (cases "vs_pt s ?vpn")
      case pte: (Some e)
      with cow_local [OF ok cov env sn(1-3) pte, of acc r fs pt' ph' s'] f s' sn(4) acc show ?thesis by auto
    next
      case None
      have new: "bt_get (frames area) ?vpn = None"
        using aok None sn(4) unfolding bt_get_None area_ok_def page_ok_def by (metis option.distinct(1))
      have shm: "\<forall>i. vm_file area = ShmOf i \<longrightarrow> map_shared area" using aok sn(4) by (auto simp: area_ok_def)
      from f None have "handle_lazy_page_fault a env ?vpn acc area (vs_pt s) ph = Some (r, fs, pt', ph')" by simp
      from lazy_result [OF this env new acc shm] show ?thesis
      proof (elim disjE conjE exE)
        assume "r = Inl ()" "(fs, pt', ph') = (frames area, vs_pt s, ph)"
        with s' same local_step_refl [OF ok] show ?thesis by (simp add: same_contents_def)
      next
        fix e assume e: "r = Inr ()" "fs = bt_insert ?vpn (v_ppn e) (frames area)" "pt' = (vs_pt s)(?vpn \<mapsto> e)"
          "fresh_page K acc area ph ph' e"
        from lazy_local [OF ok cov sn(1-3) None, of acc ph' e s'] e s' sn(4) show ?thesis
          by (auto simp: fresh_page_def)
      qed
    qed
  qed
qed

text \<open>Anonymous memory can be brought in as long as a frame is left.\<close>

lemma anon_fault_succeeds:
  assumes ok: "space_ok a ph s" and sn: "(st, n) \<in> set (vs_areas s)" "st \<le> va_floor a va" "va_floor a va < node_end n"
    and anon: "vm_file (node_value n) = NoFile" and acc: "can_access acc (area_perm (node_value n))"
    and fr: "e_alloc env = Some f" and use: "acc_write acc \<or> vs_pt s (va_floor a va) = None"
  shows "\<exists>s' ph'. handle_page_fault a env va acc s ph = Some (Inr (), s', ph')"
proof -
  have inv: "rm_inv (vs_areas s)" using ok by (simp add: space_ok_def)
  note node = last_le_node [OF inv sn]
  show ?thesis
  proof (cases "vs_pt s (va_floor a va)")
    case None
    have "\<exists>x. handle_lazy_page_fault a env (va_floor a va) acc (node_value n) (vs_pt s) ph = Some (Inr (), x)"
      using anon fr
      by (cases "vma_type (node_value n)")
        (auto simp: handle_lazy_page_fault_def data_lazy_fault_def mmap_lazy_fault_def map_zero_page_def
          split_beta Let_def)
    with None node acc show ?thesis
      by (auto simp: handle_page_fault_def fault_in_area_def area_handle_page_fault_def Let_def)
  next
    case (Some e)
    note get = area_of_page(1) [OF ok sn Some]
    have "\<exists>x. cow_fault env (va_floor a va) acc e (node_value n) (vs_pt s) ph = Some (Inr (), x)"
      using use Some get fr by (auto simp: cow_fault_def Let_def)
    with Some node acc show ?thesis
      by (auto simp: handle_page_fault_def fault_in_area_def area_handle_page_fault_def Let_def)
  qed
qed

section \<open>Fork\<close>

abbreviation protect :: "pte_view \<Rightarrow> pte_view" where
  "protect e \<equiv> set_dirty False (set_writable False e)"

definition area_leaves :: "(vm_area \<Rightarrow> phys_page_num \<Rightarrow> pte_view) \<Rightarrow> (virt_page_num, vm_area) range_map \<Rightarrow>
    (virt_page_num \<times> pte_view) list" where
  "area_leaves l m = concat (map (\<lambda>(_, n). map (\<lambda>(v, f). (v, l (node_value n) f)) (frames (node_value n))) m)"

definition child_leaf :: "vm_area \<Rightarrow> phys_page_num \<Rightarrow> pte_view" where
  "child_leaf ar f = (if map_shared ar then leaf f (area_perm ar) else protect (leaf f (area_perm ar)))"

definition cow_pages :: "(virt_page_num, vm_area) range_map \<Rightarrow> virt_page_num set" where
  "cow_pages m = {v. \<exists>st n f. (st, n) \<in> set m \<and> (v, f) \<in> set (frames (node_value n)) \<and>
     \<not> map_shared (node_value n) \<and> perm_w (area_perm (node_value n))}"

definition protect_all :: "virt_page_num set \<Rightarrow> vm_pt \<Rightarrow> vm_pt" where
  "protect_all V pt = (\<lambda>v. if v \<in> V then map_option protect (pt v) else pt v)"

text \<open>What an operation needs of the areas, whatever the page table says.\<close>

definition area_shape :: "arch \<Rightarrow> virt_page_num \<Rightarrow> (virt_page_num, vm_area) node \<Rightarrow> bool" where
  "area_shape a st n \<longleftrightarrow>
     range_vpn a (node_value n) = (st, node_end n) \<and> bt_wf (frames (node_value n)) \<and>
     (\<forall>vpn f. (vpn, f) \<in> set (frames (node_value n)) \<longrightarrow> st \<le> vpn \<and> vpn < node_end n)"

lemma area_ok_shape: "area_ok a ph pt st n \<Longrightarrow> area_shape a st n"
  unfolding area_ok_def area_shape_def by blast

definition upds :: "(virt_page_num \<times> pte_view) list \<Rightarrow> vm_pt \<Rightarrow> vm_pt" where
  "upds = fold (\<lambda>(k, v) m. m(k \<mapsto> v))"

lemma fold_upd:
  "distinct (map fst L) \<Longrightarrow> upds L base = base ++ map_of L"
  unfolding upds_def
proof (induction L arbitrary: base)
  case (Cons kv L)
  obtain k v where kv: "kv = (k, v)" by (cases kv)
  with Cons.prems have "k \<notin> dom (map_of L)" by (simp add: dom_map_of_conv_image_fst)
  then have "base(k \<mapsto> v) ++ map_of L = base ++ (map_of L)(k \<mapsto> v)"
    by (intro ext) (auto simp: map_add_def split: option.splits)
  with Cons kv show ?case by (simp del: fun_upd_apply)
qed simp

lemma refs_map_of: "distinct (map fst L) \<Longrightarrow> refs (map_of L) f = count_list (map (v_ppn \<circ> snd) L) f"
proof (induction L)
  case Nil
  show ?case using refs_empty by (simp add: refs_def)
next
  case (Cons kv L)
  obtain k v where kv: "kv = (k, v)" by (cases kv)
  with Cons.prems have "map_of L k = None" by (simp add: map_of_eq_None_iff)
  from refs_map_new [of "map_of L", OF this, of v f] Cons kv show ?case by (simp add: fun_upd_def)
qed

lemma protect_pages_eq:
  assumes "\<forall>v \<in> set vs. pt v \<noteq> None" "distinct vs"
  shows "protect_pages vs pt = Some (protect_all (set vs) pt)"
  using assms
proof (induction vs arbitrary: pt)
  case Nil
  show ?case by (simp add: protect_all_def)
next
  case (Cons v vs)
  then obtain e where e: "pt v = Some e" by auto
  from Cons have "protect_pages vs (pt(v \<mapsto> protect e)) = Some (protect_all (set vs) (pt(v \<mapsto> protect e)))" by simp
  moreover have "protect_all (set vs) (pt(v \<mapsto> protect e)) = protect_all (set (v # vs)) pt"
    using Cons.prems(2) e by (auto simp: protect_all_def)
  ultimately show ?case using e by simp
qed

lemma clone_owners:
  "ph_owners (fold (\<lambda>(_, f). arc_clone f) fs ph) g = ph_owners ph g + count_list (map snd fs) g"
  "ph_data (fold (\<lambda>(_, f). arc_clone f) fs ph) = ph_data ph"
  by (induction fs arbitrary: ph) (auto simp: arc_clone_def)

lemma area_map_eq:
  "area_map ar ph = upds (map (\<lambda>(v, f). (v, if ph_owners ph f > 1 \<and> \<not> map_shared ar
    then protect (leaf f (area_perm ar)) else leaf f (area_perm ar))) (frames ar))"
  unfolding area_map_def upds_def fold_map Let_def by (intro ext fold_cong) auto

lemma area_leaves_distinct:
  assumes "rm_inv m" "\<forall>st n. (st, n) \<in> set m \<longrightarrow> area_shape a st n"
  shows "distinct (map fst (area_leaves l m))"
  using assms
proof (induction m)
  case (Cons p m)
  obtain st n where p: "p = (st, n)" by (cases p)
  note cons = rm_inv_ConsD [OF Cons.prems(1) [unfolded p]]
  have wf: "bt_wf (frames (node_value n))" using Cons.prems(2) p by (auto simp: area_shape_def)
  have "v < st'" if "(v, f) \<in> set (frames (node_value n))" "(st', n') \<in> set m" for v f st' n'
  proof -
    have "v < node_end n" using Cons.prems(2) p that(1) by (auto simp: area_shape_def)
    moreover have "node_end n \<le> st'" using cons(3) [OF that(2)] by simp
    ultimately show ?thesis by simp
  qed
  moreover have "st' \<le> w" if "(st', n') \<in> set m" "(w, g) \<in> set (frames (node_value n'))" for st' n' w g
    using Cons.prems(2) that by (auto simp: area_shape_def)
  ultimately have "set (map fst (frames (node_value n))) \<inter> set (map fst (area_leaves l m)) = {}"
    unfolding area_leaves_def by fastforce
  with Cons.IH [OF cons(1)] Cons.prems(2) bt_wf_distinct [OF wf] p show ?case
    by (auto simp: area_leaves_def case_prod_beta comp_def)
qed (simp add: area_leaves_def)

lemma bt_insert_last: "\<forall>p \<in> set m. fst p < k \<Longrightarrow> bt_insert k v m = m @ [(k, v)]"
  by (induction k v m rule: bt_insert.induct) auto

lemma clone_cow_eq:
  assumes sh: "area_shape a st n" and pt: "\<forall>v f. (v, f) \<in> set (frames (node_value n)) \<longrightarrow> pt v \<noteq> None"
  shows "clone_cow (node_value n) pt ph = Some (node_value n, protect_all (cow_pages [(st, n)]) pt,
    fold (\<lambda>(_, f). arc_clone f) (frames (node_value n)) ph)"
proof (cases "\<not> map_shared (node_value n) \<and> perm_w (area_perm (node_value n))")
  case True
  then have "cow_pages [(st, n)] = set (map fst (frames (node_value n)))" by (force simp: cow_pages_def)
  moreover have "protect_pages (map fst (frames (node_value n))) pt =
      Some (protect_all (set (map fst (frames (node_value n)))) pt)"
    by (rule protect_pages_eq) (use pt bt_wf_distinct sh in \<open>auto simp: area_shape_def\<close>)
  ultimately show ?thesis using True by (simp add: clone_cow_def)
next
  case False
  then have "cow_pages [(st, n)] = {}" by (auto simp: cow_pages_def)
  with False show ?thesis by (auto simp: clone_cow_def protect_all_def)
qed

lemma push_last_area:
  assumes inv: "rm_inv (ps @ [(st, n)])" and sh: "area_shape a st n" and ret: "vs_areas ret = ps"
  shows "push_area a alloc (node_value n) None ret ph =
    Some (ret\<lparr>vs_areas := ps @ [(st, n)], vs_pt := area_map (node_value n) ph (vs_pt ret)\<rparr>, ph)"
proof -
  have psn: "rm_inv ps" "st < node_end n"
    using rm_inv_subset [OF inv, of ps] rm_invD(1,2) [OF inv] by (auto simp: bt_wf_append)
  have before: "fst p < st \<and> node_end (snd p) \<le> st" if "p \<in> set ps" for p
    using rm_invD(1) [OF inv] rm_invD(3) [OF inv, of p "(st, n)"] that by (auto simp: bt_wf_append)
  have free: "\<not> rm_overlaps (st, node_end n) ps" using before by (fastforce simp: rm_overlaps_def)
  have "rm_try_insert (range_vpn a (node_value n)) (node_value n) ps = Some (Inr (ps @ [(st, n)]))"
    using rm_try_insert_free [OF psn free, of "node_value n"] sh before bt_insert_last [of ps st n]
    by (auto simp: area_shape_def)
  moreover have "rm_set_value st (\<lambda>_. node_value n) (ps @ [(st, n)]) = ps @ [(st, n)]"
    by (rule rm_set_value_same) (use rm_invD(1) [OF inv] in auto)
  ultimately show ?thesis using sh ret by (simp add: push_area_def area_shape_def)
qed

lemma protect_all_Un: "protect_all V (protect_all W pt) = protect_all (V \<union> W) pt"
  by (intro ext) (auto simp: protect_all_def set_dirty_def set_writable_def option.map_comp comp_def
    intro!: option.map_cong)

lemma fork_areas_eq:
  assumes "rm_inv (ps @ ns)" "\<forall>st n. (st, n) \<in> set ns \<longrightarrow> area_shape a st n"
    "\<forall>st n v f. (st, n) \<in> set ns \<longrightarrow> (v, f) \<in> set (frames (node_value n)) \<longrightarrow> pt v \<noteq> None \<and> 0 < ph_owners ph f"
    "vs_areas ret = ps"
  shows "\<exists>ph'. fork_areas a ns pt ret ph = Some (protect_all (cow_pages ns) pt,
      ret\<lparr>vs_areas := ps @ ns, vs_pt := upds (area_leaves child_leaf ns) (vs_pt ret)\<rparr>, ph') \<and>
    (\<forall>f. ph_owners ph' f = ph_owners ph f + count_list (map (v_ppn \<circ> snd) (area_leaves child_leaf ns)) f) \<and>
    ph_data ph' = ph_data ph"
  using assms
proof (induction ns arbitrary: ps pt ret ph)
  case Nil
  then show ?case by (simp add: protect_all_def cow_pages_def area_leaves_def upds_def)
next
  case (Cons p ns)
  obtain st n where p: "p = (st, n)" by (cases p)
  have sh: "area_shape a st n" using Cons.prems(2) p by simp
  let ?ph = "fold (\<lambda>(_, f). arc_clone f) (frames (node_value n)) ph"
  let ?L = "area_leaves child_leaf [(st, n)]"
  let ?ret = "ret\<lparr>vs_areas := ps @ [(st, n)], vs_pt := upds ?L (vs_pt ret)\<rparr>"
  have inv: "rm_inv (ps @ [(st, n)])"
    by (rule rm_inv_subset [OF Cons.prems(1)]) (use rm_invD(1) [OF Cons.prems(1)] p in \<open>auto simp: bt_wf_append\<close>)
  have clone: "clone_cow (node_value n) pt ph = Some (node_value n, protect_all (cow_pages [(st, n)]) pt, ?ph)"
    by (rule clone_cow_eq [OF sh]) (use Cons.prems(3) p in auto)
  have "1 < ph_owners ?ph f" if "(v, f) \<in> set (frames (node_value n))" for v f
  proof -
    have "0 < count_list (map snd (frames (node_value n))) f"
      using that count_list_0_iff [of "map snd (frames (node_value n))" f] by force
    with Cons.prems(3) p that clone_owners(1) [of "frames (node_value n)" ph f] show ?thesis by fastforce
  qed
  then have "area_map (node_value n) ?ph (vs_pt ret) = upds ?L (vs_pt ret)"
    unfolding area_map_eq area_leaves_def child_leaf_def
    by (simp add: child_leaf_def cong: map_cong) (intro arg_cong [where f = "\<lambda>L. upds L (vs_pt ret)"] map_cong, auto)
  with push_last_area [OF inv sh Cons.prems(4), of no_alloc ?ph]
  have push: "push_area a no_alloc (node_value n) None ret ?ph = Some (?ret, ?ph)" by simp
  have "\<exists>ph'. fork_areas a ns (protect_all (cow_pages [(st, n)]) pt) ?ret ?ph = Some (protect_all (cow_pages ns)
      (protect_all (cow_pages [(st, n)]) pt), ?ret\<lparr>vs_areas := (ps @ [(st, n)]) @ ns,
      vs_pt := upds (area_leaves child_leaf ns) (vs_pt ?ret)\<rparr>, ph') \<and>
    (\<forall>f. ph_owners ph' f = ph_owners ?ph f + count_list (map (v_ppn \<circ> snd) (area_leaves child_leaf ns)) f) \<and>
    ph_data ph' = ph_data ?ph"
    by (rule Cons.IH) (use Cons.prems p in \<open>auto simp: protect_all_def clone_owners(1) intro: add_pos_nonneg\<close>)
  then obtain ph' where IH: "fork_areas a ns (protect_all (cow_pages [(st, n)]) pt) ?ret ?ph = Some (protect_all (cow_pages ns)
      (protect_all (cow_pages [(st, n)]) pt), ?ret\<lparr>vs_areas := (ps @ [(st, n)]) @ ns,
      vs_pt := upds (area_leaves child_leaf ns) (vs_pt ?ret)\<rparr>, ph')"
    "\<And>f. ph_owners ph' f = ph_owners ?ph f + count_list (map (v_ppn \<circ> snd) (area_leaves child_leaf ns)) f"
    "ph_data ph' = ph_data ?ph" by blast
  have cow: "cow_pages ns \<union> cow_pages [(st, n)] = cow_pages ((st, n) # ns)" by (auto simp: cow_pages_def)
  have lv: "area_leaves child_leaf ((st, n) # ns) = ?L @ area_leaves child_leaf ns" by (simp add: area_leaves_def)
  have ppn: "map (v_ppn \<circ> snd) ?L = map snd (frames (node_value n))"
    by (simp add: area_leaves_def child_leaf_def leaf_def set_dirty_def set_writable_def case_prod_beta comp_def)
  have up: "upds (area_leaves child_leaf ns) (vs_pt ?ret) = upds (area_leaves child_leaf ((st, n) # ns)) (vs_pt ret)"
    unfolding lv by (simp add: upds_def)
  have cnt: "count_list (map (v_ppn \<circ> snd) (area_leaves child_leaf ((st, n) # ns))) f =
      count_list (map snd (frames (node_value n))) f + count_list (map (v_ppn \<circ> snd) (area_leaves child_leaf ns)) f" for f
    by (simp only: lv map_append ppn count_list_append)
  have "fork_areas a (p # ns) pt ret ph = Some (protect_all (cow_pages (p # ns)) pt,
      ret\<lparr>vs_areas := ps @ p # ns, vs_pt := upds (area_leaves child_leaf (p # ns)) (vs_pt ret)\<rparr>, ph')"
    using clone push IH(1) unfolding p up protect_all_Un cow by simp
  moreover have "ph_owners ph' f = ph_owners ph f + count_list (map (v_ppn \<circ> snd) (area_leaves child_leaf (p # ns))) f" for f
    unfolding p cnt IH(2) clone_owners(1) by simp
  ultimately show ?case using IH(3) clone_owners(2) by metis
qed

lemma area_leaves_set:
  "(v, e) \<in> set (area_leaves l m) \<longleftrightarrow>
     (\<exists>st n f. (st, n) \<in> set m \<and> (v, f) \<in> set (frames (node_value n)) \<and> e = l (node_value n) f)"
  unfolding area_leaves_def by force

lemma refs_protect_all [simp]: "refs (protect_all V pt) f = refs pt f"
proof -
  have "(\<exists>e. protect_all V pt v = Some e \<and> v_ppn e = f) \<longleftrightarrow> (\<exists>e. pt v = Some e \<and> v_ppn e = f)" for v
    by (auto simp: protect_all_def set_dirty_def set_writable_def)
  then show ?thesis unfolding refs_def by simp
qed

lemma user_readI:
  assumes "\<And>v. map_option v_ppn (vs_pt s' v) = map_option v_ppn (vs_pt s v)" "ph_data ph' = ph_data ph"
  shows "user_read s' ph' = user_read s ph"
proof (intro ext)
  fix v i
  show "user_read s' ph' v i = user_read s ph v i"
    using assms(1) [of v] assms(2) by (cases "vs_pt s v"; cases "vs_pt s' v") (auto simp: user_read_def)
qed

lemma child_leaf_simps [simp]:
  "v_ppn (child_leaf ar f) = f" "perm_w (v_perm (child_leaf ar f)) \<Longrightarrow> map_shared ar"
  "v_perm (child_leaf ar f) = area_perm ar \<or> v_perm (child_leaf ar f) = (area_perm ar)\<lparr>perm_w := False\<rparr>"
  by (auto simp: child_leaf_def leaf_def set_dirty_def set_writable_def split: if_splits)

lemma space_ok_child:
  assumes ok: "space_ok a ph s"
  shows "space_ok a ph' \<lparr>vs_pt = map_of (area_leaves child_leaf (vs_areas s)), vs_areas = vs_areas s, heap_bottom_va = h\<rparr>"
    and "map_option v_ppn (map_of (area_leaves child_leaf (vs_areas s)) v) = map_option v_ppn (vs_pt s v)"
proof -
  let ?L = "area_leaves child_leaf (vs_areas s)"
  have inv: "rm_inv (vs_areas s)" and aok: "\<And>st n. (st, n) \<in> set (vs_areas s) \<Longrightarrow> area_ok a ph (vs_pt s) st n"
    and cov: "\<And>v x. vs_pt s v = Some x \<Longrightarrow>
      \<exists>st n. (st, n) \<in> set (vs_areas s) \<and> (v, v_ppn x) \<in> set (frames (node_value n))"
    using ok unfolding space_ok_def by blast+
  have dist: "distinct (map fst ?L)"
    by (rule area_leaves_distinct [OF inv]) (use aok area_ok_shape in blast)
  have at: "map_of ?L v = Some (child_leaf (node_value n) f)"
    if "(st, n) \<in> set (vs_areas s)" "(v, f) \<in> set (frames (node_value n))" for st n v f
    by (rule map_of_is_SomeI [OF dist]) (use that area_leaves_set in blast)
  have page: "page_ok ph' (map_of ?L) (node_value n) v f"
    if "(st, n) \<in> set (vs_areas s)" "(v, f) \<in> set (frames (node_value n))" for st n v f
    using at [OF that] child_leaf_simps unfolding page_ok_def by blast
  have "area_ok a ph' (map_of ?L) st n" if "(st, n) \<in> set (vs_areas s)" for st n
    using aok [OF that] page [OF that] unfolding area_ok_def by blast
  moreover have "\<exists>st n. (st, n) \<in> set (vs_areas s) \<and> (v, v_ppn e) \<in> set (frames (node_value n))"
    if "map_of ?L v = Some e" for v e
    using map_of_SomeD [OF that] unfolding area_leaves_set by (metis child_leaf_simps(1))
  ultimately show "space_ok a ph' \<lparr>vs_pt = map_of ?L, vs_areas = vs_areas s, heap_bottom_va = h\<rparr>"
    using inv by (simp add: space_ok_def)
  show "map_option v_ppn (map_of ?L v) = map_option v_ppn (vs_pt s v)"
  proof (cases "vs_pt s v")
    case (Some e)
    with cov [OF Some] at show ?thesis by fastforce
  next
    case None
    have "map_of ?L v = None"
    proof (rule ccontr)
      assume "map_of ?L v \<noteq> None"
      then obtain e where "map_of ?L v = Some e" by auto
      from map_of_SomeD [OF this] obtain st n f where "(st, n) \<in> set (vs_areas s)" "(v, f) \<in> set (frames (node_value n))"
        unfolding area_leaves_set by blast
      with aok None show False unfolding area_ok_def page_ok_def by fastforce
    qed
    with None show ?thesis by simp
  qed
qed

lemma space_ok_protected:
  assumes ok: "space_ok a ph s"
  shows "space_ok a ph' (s\<lparr>vs_pt := protect_all (cow_pages (vs_areas s)) (vs_pt s)\<rparr>)" (is "space_ok _ _ ?s")
proof -
  let ?V = "cow_pages (vs_areas s)"
  have aok: "\<And>st n. (st, n) \<in> set (vs_areas s) \<Longrightarrow> area_ok a ph (vs_pt s) st n"
    using ok unfolding space_ok_def by blast
  have page: "page_ok ph' (protect_all ?V (vs_pt s)) (node_value n) v f"
    if sn: "(st, n) \<in> set (vs_areas s)" "(v, f) \<in> set (frames (node_value n))" for st n v f
  proof -
    from aok [OF sn(1)] sn(2) obtain e where e: "vs_pt s v = Some e" "v_ppn e = f"
      "v_perm e = area_perm (node_value n) \<or> v_perm e = (area_perm (node_value n))\<lparr>perm_w := False\<rparr>"
      unfolding area_ok_def page_ok_def by blast
    show ?thesis
    proof (cases "v \<in> ?V")
      case True
      with e show ?thesis by (auto simp: page_ok_def protect_all_def set_dirty_def set_writable_def)
    next
      case False
      then have "map_shared (node_value n) \<or> \<not> perm_w (area_perm (node_value n))"
        using sn unfolding cow_pages_def by blast
      with e False show ?thesis by (auto simp: page_ok_def protect_all_def)
    qed
  qed
  have "area_ok a ph' (protect_all ?V (vs_pt s)) st n" if "(st, n) \<in> set (vs_areas s)" for st n
    using aok [OF that] page [OF that] unfolding area_ok_def by blast
  moreover have "\<exists>st n. (st, n) \<in> set (vs_areas s) \<and> (v, v_ppn x) \<in> set (frames (node_value n))"
    if "protect_all ?V (vs_pt s) v = Some x" for v x
  proof -
    from that obtain e where "vs_pt s v = Some e" "v_ppn e = v_ppn x"
      by (auto simp: protect_all_def set_dirty_def set_writable_def split: if_splits)
    with ok show ?thesis unfolding space_ok_def by metis
  qed
  ultimately show ?thesis using ok by (simp add: space_ok_def)
qed

lemma fork_vm_spec:
  assumes ok: "space_ok a ph s" and cov: "covered K s ph"
  shows "\<exists>s' c ph'. from_existed a s ph = Some (s', c, ph') \<and> local_step a K s ph [s', c] ph' \<and>
    user_read s' ph' = user_read s ph \<and> user_read c ph' = user_read s ph"
proof -
  let ?L = "area_leaves child_leaf (vs_areas s)"
  have inv: "rm_inv ([] @ vs_areas s)" and aok: "\<And>st n. (st, n) \<in> set (vs_areas s) \<Longrightarrow> area_ok a ph (vs_pt s) st n"
    using ok by (simp_all add: space_ok_def)
  have sh: "\<forall>st n. (st, n) \<in> set (vs_areas s) \<longrightarrow> area_shape a st n" using aok area_ok_shape by blast
  have live: "\<forall>st n v f. (st, n) \<in> set (vs_areas s) \<longrightarrow> (v, f) \<in> set (frames (node_value n)) \<longrightarrow>
      vs_pt s v \<noteq> None \<and> 0 < ph_owners ph f"
    using aok covered_refs [OF cov] unfolding area_ok_def page_ok_def by blast
  let ?c0 = "space_new\<lparr>heap_bottom_va := heap_bottom_va s\<rparr>"
  from fork_areas_eq [OF inv sh live, of ?c0] obtain ph' where
    f: "fork_areas a (vs_areas s) (vs_pt s) ?c0 ph = Some (protect_all (cow_pages (vs_areas s)) (vs_pt s),
      ?c0\<lparr>vs_areas := vs_areas s, vs_pt := upds ?L (vs_pt ?c0)\<rparr>, ph')"
    "\<And>g. ph_owners ph' g = ph_owners ph g + count_list (map (v_ppn \<circ> snd) ?L) g" "ph_data ph' = ph_data ph"
    by (auto simp: space_new_def rm_new_def)
  let ?s = "s\<lparr>vs_pt := protect_all (cow_pages (vs_areas s)) (vs_pt s)\<rparr>"
  define c where "c = \<lparr>vs_pt = map_of ?L, vs_areas = vs_areas s, heap_bottom_va = heap_bottom_va s\<rparr>"
  have dist: "distinct (map fst ?L)" by (rule area_leaves_distinct [OF _ sh]) (use inv in simp)
  have "upds ?L (vs_pt ?c0) = map_of ?L" using fold_upd [OF dist] by (simp add: space_new_def)
  then have fe: "from_existed a s ph = Some (?s, c, ph')" using f(1) by (simp add: from_existed_def c_def space_new_def)
  note child = space_ok_child [OF ok]
  have oks: "space_ok a ph' ?s" "space_ok a ph' c"
    using space_ok_protected [OF ok] child(1) unfolding c_def by blast+
  have rc: "refs (vs_pt c) g = count_list (map (v_ppn \<circ> snd) ?L) g" for g
    using refs_map_of [OF dist] by (simp add: c_def)
  have sub: "0 < refs (vs_pt s) g" if "0 < refs (vs_pt c) g" for g
  proof -
    from that obtain v e where "vs_pt c v = Some e" "v_ppn e = g" unfolding refs_pos by blast
    with child(2) [of v] show ?thesis unfolding refs_pos c_def by (cases "vs_pt s v") auto
  qed
  have "local_step a K s ph [?s, c] ph'"
    unfolding local_step_def using oks f(2,3) rc sub by auto
  moreover have "user_read ?s ph' = user_read s ph"
    by (rule user_readI [OF _ f(3)])
      (simp add: protect_all_def option.map_comp comp_def set_dirty_def set_writable_def)
  moreover have "user_read c ph' = user_read s ph"
    by (rule user_readI [OF _ f(3)]) (use child(2) in \<open>simp add: c_def\<close>)
  ultimately show ?thesis using fe by blast
qed

end
