(* ===== verification/Vm_Unmap.thy ===== *)
theory Vm_Unmap
  imports Vm_Invariant
begin

text \<open>
  Merging, cutting and unmapping areas. Regrouping the frames of a space into other areas with
  the same permissions keeps the invariant; unmapping a range takes exactly the pages of that
  range out of the page table, and dropping the area that is returned gives up their frames.
\<close>

section \<open>Page numbers of user addresses\<close>

definition user_vpn :: "arch \<Rightarrow> virt_page_num \<Rightarrow> bool" where
  "user_vpn a p \<longleftrightarrow> unat p * 4096 \<le> unat (USER_STACK_TOP a)"

lemma user_stack_top: "unat (USER_STACK_TOP a) = 2 ^ (VA_WIDTH a - 1) - 4096"
  by (cases a) (simp_all add: USER_STACK_TOP_def PAGE_SIZE_def)

lemma user_start_addr:
  assumes "user_vpn a p"
  shows "unat (vpn_start_addr a p) = unat p * 4096" "vpn_start_addr a p \<le> USER_STACK_TOP a"
    "va_floor a (vpn_start_addr a p) = p" "va_ceil a (vpn_start_addr a p) = p"
proof -
  have lt: "unat p * 4096 \<le> 2 ^ (VA_WIDTH a - 1) - 4096" using assms by (simp add: user_vpn_def user_stack_top)
  have small: "unat p * 4096 < 2 ^ (VA_WIDTH a - 1)" "(2::nat) ^ (VA_WIDTH a - 1) \<le> 2 ^ 48" "VA_WIDTH a < 64" "12 < VA_WIDTH a"
    using lt arch_widths [of a] by (cases a; simp)+
  have sh: "unat (push_bit 12 p) = unat p * 4096"
    using small(1,2) by (simp add: push_bit_eq_mult unat_word_ariths)
  have hi: "\<not> bit (push_bit 12 p) k" if "VA_WIDTH a - 1 \<le> k" for k
    using high_bit_clear [of "push_bit 12 p" "VA_WIDTH a - 1" k] sh small(1) that by simp
  have "va_from a (push_bit 12 p) = push_bit 12 p"
  proof (rule bit_eqI)
    fix k
    show "bit (va_from a (push_bit 12 p)) k \<longleftrightarrow> bit (push_bit 12 p) k"
      using hi [of k] hi [of "VA_WIDTH a - 1"] small(3) bit64 [of "push_bit 12 p" k]
      by (auto simp: bit_va_from)
  qed
  then show 1: "unat (vpn_start_addr a p) = unat p * 4096" using sh by (simp add: vpn_start_addr_def PAGE_SIZE_BITS_def)
  show "vpn_start_addr a p \<le> USER_STACK_TOP a"
    unfolding word_le_nat_alt 1 using assms by (simp add: user_vpn_def)
  have w: "unat p < 2 ^ VPN_WIDTH a" using lt by (cases a) (simp_all add: VPN_WIDTH_def PAGE_SIZE_BITS_def)
  show "va_floor a (vpn_start_addr a p) = p"
    by (rule word_unat_eq_iff [THEN iffD2]) (use w in \<open>simp add: unat_va_floor 1\<close>)
  have "unat (vpn_start_addr a p) \<le> 2 ^ 64 - 4096" using 1 small by simp
  from unat_va_ceil [OF this] show "va_ceil a (vpn_start_addr a p) = p"
    by (intro word_unat_eq_iff [THEN iffD2]) (use w in \<open>simp add: 1\<close>)
qed

lemma user_area_end:
  assumes "range_vpn a ar = (st, e)" "snd (range_va ar) \<le> USER_STACK_TOP a"
  shows "user_vpn a e" "p < e \<Longrightarrow> vpn_start_addr a p < snd (range_va ar)"
proof -
  have top: "unat (snd (range_va ar)) \<le> 2 ^ (VA_WIDTH a - 1) - 4096"
    using assms(2) unfolding word_le_nat_alt user_stack_top .
  moreover have "(2::nat) ^ (VA_WIDTH a - 1) - 4096 \<le> 2 ^ 64 - 4096" by (cases a) simp_all
  ultimately have le: "unat (snd (range_va ar)) \<le> 2 ^ 64 - 4096" by linarith
  have "(unat (snd (range_va ar)) + 4095) div 4096 < 2 ^ VPN_WIDTH a"
    using top by (cases a) (simp_all add: VPN_WIDTH_def PAGE_SIZE_BITS_def)
  with unat_va_ceil [OF le, of a] assms(1) have e: "unat e = (unat (snd (range_va ar)) + 4095) div 4096"
    by (simp add: range_vpn_def)
  have "unat e * 4096 \<le> 2 ^ (VA_WIDTH a - 1) - 4096"
    using top e by (cases a) simp_all
  then show ue: "user_vpn a e" by (simp add: user_vpn_def user_stack_top)
  assume p: "p < e"
  then have "unat p < unat e" by (simp add: word_less_nat_alt)
  then have "unat p * 4096 < unat (snd (range_va ar))" "unat p * 4096 \<le> unat e * 4096" using e by auto
  moreover from this(2) ue have "user_vpn a p" by (simp add: user_vpn_def)
  ultimately show "vpn_start_addr a p < snd (range_va ar)"
    using user_start_addr(1) by (simp add: word_less_nat_alt)
qed

lemma user_vpn_le: "p \<le> q \<Longrightarrow> user_vpn a q \<Longrightarrow> user_vpn a p"
  unfolding user_vpn_def word_le_nat_alt by (meson mult_le_mono1 order_trans)

section \<open>Regrouping areas\<close>

definition area_geom :: "arch \<Rightarrow> virt_page_num \<Rightarrow> (virt_page_num, vm_area) node \<Rightarrow> bool" where
  "area_geom a st n \<longleftrightarrow>
     area_shape a st n \<and> snd (range_va (node_value n)) \<le> USER_STACK_TOP a \<and>
     (\<forall>i. vm_file (node_value n) = ShmOf i \<longrightarrow> map_shared (node_value n))"

lemma area_ok_iff:
  "area_ok a ph pt st n \<longleftrightarrow> area_geom a st n \<and>
     (\<forall>vpn f. (vpn, f) \<in> set (frames (node_value n)) \<longrightarrow> page_ok ph pt (node_value n) vpn f)"
  unfolding area_ok_def area_geom_def area_shape_def by blast

lemma page_ok_attr:
  "page_ok ph pt ar v f \<Longrightarrow> area_perm ar' = area_perm ar \<Longrightarrow> map_shared ar' = map_shared ar \<Longrightarrow> page_ok ph pt ar' v f"
  by (simp add: page_ok_def)

lemma space_ok_regroup:
  assumes ok: "space_ok a ph s" and inv: "rm_inv m'" and geo: "\<forall>t m. (t, m) \<in> set m' \<longrightarrow> area_geom a t m"
    and old: "\<forall>t m v f. (t, m) \<in> set m' \<longrightarrow> (v, f) \<in> set (frames (node_value m)) \<longrightarrow> v \<notin> V \<and>
      (\<exists>t0 m0. (t0, m0) \<in> set (vs_areas s) \<and> (v, f) \<in> set (frames (node_value m0)) \<and>
        area_perm (node_value m) = area_perm (node_value m0) \<and> map_shared (node_value m) = map_shared (node_value m0))"
    and keep: "\<forall>t0 m0 v f. (t0, m0) \<in> set (vs_areas s) \<longrightarrow> (v, f) \<in> set (frames (node_value m0)) \<longrightarrow> v \<notin> V \<longrightarrow>
      (\<exists>t m. (t, m) \<in> set m' \<and> (v, f) \<in> set (frames (node_value m)))"
    and own: "\<forall>v x. v \<notin> V \<longrightarrow> vs_pt s v = Some x \<longrightarrow> ph_owners ph (v_ppn x) = 1 \<longrightarrow> ph_owners ph' (v_ppn x) = 1"
  shows "space_ok a ph' \<lparr>vs_pt = (\<lambda>v. if v \<in> V then None else vs_pt s v), vs_areas = m', heap_bottom_va = h\<rparr>"
proof -
  let ?pt = "\<lambda>v. if v \<in> V then None else vs_pt s v"
  have page: "page_ok ph' ?pt (node_value m) v f"
    if m: "(t, m) \<in> set m'" "(v, f) \<in> set (frames (node_value m))" for t m v f
  proof -
    from old m obtain t0 m0 where m0: "v \<notin> V" "(t0, m0) \<in> set (vs_areas s)" "(v, f) \<in> set (frames (node_value m0))"
      "area_perm (node_value m) = area_perm (node_value m0)" "map_shared (node_value m) = map_shared (node_value m0)"
      by blast
    from ok m0(2,3) have "page_ok ph (vs_pt s) (node_value m0) v f" unfolding space_ok_def area_ok_iff by blast
    then have "page_ok ph (vs_pt s) (node_value m) v f" by (rule page_ok_attr) (use m0 in auto)
    with own m0(1) show ?thesis unfolding page_ok_def by auto
  qed
  have "\<exists>t m. (t, m) \<in> set m' \<and> (v, v_ppn x) \<in> set (frames (node_value m))" if "?pt v = Some x" for v x
    using that ok keep unfolding space_ok_def by (metis option.distinct(1))
  then show ?thesis unfolding space_ok_def area_ok_iff vm_space.simps using page inv geo by blast
qed

lemma area_unmap_eq: "area_unmap ar pt = (\<lambda>v. if v \<in> fst ` set (frames ar) then None else pt v)"
proof -
  have "fold (\<lambda>(v, f) pt. pt(v := None)) fs pt = (\<lambda>v. if v \<in> fst ` set fs then None else pt v)"
    for fs :: "(virt_page_num, phys_page_num) btree"
    by (induction fs arbitrary: pt) auto
  then show ?thesis by (simp add: area_unmap_def)
qed

lemma refs_area_unmap:
  assumes "distinct (map fst fs)" "\<forall>v f. (v, f) \<in> set fs \<longrightarrow> (\<exists>e. pt v = Some e \<and> v_ppn e = f)"
  shows "refs pt g = refs (\<lambda>v. if v \<in> fst ` set fs then None else pt v) g + count_list (map snd fs) g"
  using assms
proof (induction fs arbitrary: pt)
  case (Cons p fs)
  obtain v f where p: "p = (v, f)" by (cases p)
  obtain e where e: "pt v = Some e" "v_ppn e = f" using Cons.prems(2) p by auto
  have "v \<notin> fst ` set fs" using Cons.prems(1) p by simp
  then have "\<forall>w f. (w, f) \<in> set fs \<longrightarrow> (\<exists>x. (pt(v := None)) w = Some x \<and> v_ppn x = f)"
    using Cons.prems(2) by force
  from Cons.IH [OF _ this] Cons.prems(1)
  have "refs (pt(v := None)) g = refs (\<lambda>w. if w \<in> fst ` set fs then None else (pt(v := None)) w) g + count_list (map snd fs) g"
    by (simp add: fun_upd_def)
  moreover have "(\<lambda>w. if w \<in> fst ` set fs then None else (pt(v := None)) w) = (\<lambda>w. if w \<in> fst ` set (p # fs) then None else pt w)"
    using p by auto
  ultimately show ?case using refs_unmap [of pt v e g] e p by auto
qed simp

lemma drop_owners:
  "ph_owners (area_drop ar ph) g = ph_owners ph g - count_list (map snd (frames ar)) g"
  "ph_data (area_drop ar ph) = ph_data ph"
proof -
  have "ph_owners (fold (\<lambda>(_, f). arc_drop f) fs ph) g = ph_owners ph g - count_list (map snd fs) g \<and>
    ph_data (fold (\<lambda>(_, f). arc_drop f) fs ph) = ph_data ph" for fs :: "(virt_page_num, phys_page_num) btree"
    by (induction fs arbitrary: ph) (auto simp: arc_drop_def)
  then show "ph_owners (area_drop ar ph) g = ph_owners ph g - count_list (map snd (frames ar)) g"
    "ph_data (area_drop ar ph) = ph_data ph" by (simp_all add: area_drop_def)
qed

section \<open>Merging areas\<close>

lemma fold_insert_after:
  assumes "bt_wf fs2" "\<forall>p \<in> set fs1. \<forall>q \<in> set fs2. fst p < fst q"
  shows "fold (\<lambda>(v, f). bt_insert v f) fs2 fs1 = fs1 @ fs2"
  using assms
proof (induction fs2 arbitrary: fs1)
  case (Cons q fs2)
  obtain v f where q: "q = (v, f)" by (cases q)
  have "bt_insert v f fs1 = fs1 @ [(v, f)]" by (rule bt_insert_last) (use Cons.prems(2) q in auto)
  with Cons.IH [of "fs1 @ [(v, f)]"] Cons.prems q show ?case by auto
qed simp

lemma adjacent_node:
  assumes inv: "rm_inv m" and n1: "(s1, n1) \<in> set m" and n2: "(s2, n2) \<in> set m"
    and k: "s2 \<le> node_end n1" "node_end n1 < node_end n2"
  shows "s2 = node_end n1" "s1 < s2"
proof -
  have "s1 < node_end n1" using rm_invD(2) [OF inv n1] by simp
  moreover have "s1 \<noteq> s2" using bt_wf_unique [OF rm_invD(1) [OF inv] n1] n2 k(2) by auto
  moreover have "\<not> s2 < s1" using rm_invD(3) [OF inv n2 n1] \<open>s1 < node_end n1\<close> k(2) by auto
  ultimately show "s1 < s2" by simp
  then show "s2 = node_end n1" using rm_invD(3) [OF inv n1 n2] k(1) by simp
qed

lemma merged_geom:
  assumes g1: "area_geom a s1 n1" and g2: "area_geom a (node_end n1) n2" and c: "check_back_contiguous (node_value n1) (node_value n2)"
    and lt: "s1 < node_end n1" "node_end n1 < node_end n2"
  defines "ar \<equiv> push_back_unchecked (node_value n1) (node_value n2)"
  shows "area_geom a s1 \<lparr>node_end = node_end n2, node_value = ar\<rparr>" "range_vpn a ar = (s1, node_end n2)"
    "frames ar = frames (node_value n1) @ frames (node_value n2)"
    "area_perm ar = area_perm (node_value n1)" "area_perm ar = area_perm (node_value n2)"
    "map_shared ar = map_shared (node_value n1)" "map_shared ar = map_shared (node_value n2)"
proof -
  have sep: "\<forall>p \<in> set (frames (node_value n1)). \<forall>q \<in> set (frames (node_value n2)). fst p < fst q"
    using g1 g2 unfolding area_geom_def area_shape_def by force
  have wf: "bt_wf (frames (node_value n1))" "bt_wf (frames (node_value n2))"
    using g1 g2 by (simp_all add: area_geom_def area_shape_def)
  from fold_insert_after [OF wf(2) sep] show fr: "frames ar = frames (node_value n1) @ frames (node_value n2)"
    by (simp add: ar_def push_back_unchecked_def)
  show rv: "range_vpn a ar = (s1, node_end n2)"
    using g1 g2 by (simp add: ar_def push_back_unchecked_def range_vpn_def area_geom_def area_shape_def)
  show "area_perm ar = area_perm (node_value n1)" "area_perm ar = area_perm (node_value n2)"
    "map_shared ar = map_shared (node_value n1)" "map_shared ar = map_shared (node_value n2)"
    using c by (auto simp: ar_def push_back_unchecked_def check_back_contiguous_def split: if_splits)
  have "st \<le> v \<and> v < node_end n2" if "(v, f) \<in> set (frames ar)" "st = s1" for v f st
    using that g1 g2 lt unfolding fr area_geom_def area_shape_def by fastforce
  moreover have "bt_wf (frames ar)" unfolding fr bt_wf_append using wf sep by simp
  moreover have "snd (range_va ar) \<le> USER_STACK_TOP a" "vm_file ar = vm_file (node_value n1)" "map_shared ar = map_shared (node_value n1)"
    using g2 by (simp_all add: ar_def push_back_unchecked_def area_geom_def)
  ultimately show "area_geom a s1 \<lparr>node_end = node_end n2, node_value = ar\<rparr>"
    using rv g1 by (simp add: area_geom_def area_shape_def)
qed

lemma union_step:
  assumes inv: "rm_inv m" and n1: "(s1, n1) \<in> set m" and n2: "(s2, n2) \<in> set m"
    and k: "s2 \<le> node_end n1" "node_end n1 < node_end n2" and st: "s1 \<le> start" "start < node_end n1"
    and g1: "area_geom a s1 n1" and g2: "area_geom a s2 n2" and c: "check_back_contiguous (node_value n1) (node_value n2)"
  defines "ar \<equiv> push_back_unchecked (node_value n1) (node_value n2)"
  defines "m1 \<equiv> rm_set_value s1 (\<lambda>_. ar) (bt_remove s2 m)"
  shows "rm_force_remove_one (range_vpn a (node_value n2)) m = Some (node_value n2, bt_remove s2 m)"
    "rm_get start (bt_remove s2 m) = Some (node_value n1)" "rm_get_mut start (\<lambda>_. ar) (bt_remove s2 m) = Some m1"
    "rm_extend_back (range_vpn a ar) m1 = Some (Inr (rm_set_end s1 (node_end n2) m1))"
    "rm_inv (rm_set_end s1 (node_end n2) m1)"
    "set (rm_set_end s1 (node_end n2) m1) =
       insert (s1, \<lparr>node_end = node_end n2, node_value = ar\<rparr>) {p \<in> set m. fst p \<noteq> s1 \<and> fst p \<noteq> s2}"
    "length (rm_set_end s1 (node_end n2) m1) < length m"
proof -
  note adj = adjacent_node [OF inv n1 n2 k]
  note geo = merged_geom [OF g1 _ c, unfolded ar_def [symmetric]]
  have rv: "range_vpn a ar = (s1, node_end n2)" by (rule geo(2)) (use g2 adj k rm_invD(2) [OF inv n1] in simp_all)
  show "rm_force_remove_one (range_vpn a (node_value n2)) m = Some (node_value n2, bt_remove s2 m)"
    using rm_force_remove_one_ok [OF inv n2] g2 by (simp add: area_geom_def area_shape_def)
  note rem = rm_remove_node(1) [OF inv n2]
  have in1: "(s1, n1) \<in> set (bt_remove s2 m)" using n1 adj(2) by simp
  note got = last_le_node(2,3) [OF rem in1 st]
  show "rm_get start (bt_remove s2 m) = Some (node_value n1)" "rm_get_mut start (\<lambda>_. ar) (bt_remove s2 m) = Some m1"
    using got by (simp_all add: m1_def)
  have inv1: "rm_inv m1" unfolding m1_def by (rule rm_set_value_ok(1) [OF rem in1])
  have set1: "set m1 = insert (s1, n1\<lparr>node_value := ar\<rparr>) {p \<in> set m. fst p \<noteq> s1 \<and> fst p \<noteq> s2}"
    unfolding m1_def set_rm_set_value [OF rm_invD(1) [OF rem] in1] by auto
  have in2: "(s1, n1\<lparr>node_value := ar\<rparr>) \<in> set m1" unfolding set1 by simp
  have free: "\<not> rm_overlaps (node_end n1, node_end n2) m1"
  proof
    assume "rm_overlaps (node_end n1, node_end n2) m1"
    then obtain p where p: "p \<in> set m1" "fst p < node_end n2" "node_end n1 < node_end (snd p)"
      by (auto simp: rm_overlaps_def)
    then have pm: "p \<in> set m" "fst p \<noteq> s1" "fst p \<noteq> s2" unfolding set1 by (cases p, auto)+
    then have "node_end (snd p) \<le> s2 \<or> node_end n2 \<le> fst p"
      using rm_invD(3) [OF inv pm(1) n2] rm_invD(3) [OF inv n2 pm(1)] by (cases "fst p" s2 rule: linorder_cases) auto
    with p adj show False by auto
  qed
  have s1e: "s1 < node_end n2" using rm_invD(2) [OF inv n1] k(2) by simp
  show "rm_extend_back (range_vpn a ar) m1 = Some (Inr (rm_set_end s1 (node_end n2) m1))"
    using rm_extend_back_ok [OF inv1 in2] k(2) free rv by simp
  show "rm_inv (rm_set_end s1 (node_end n2) m1)"
    by (rule rm_set_end_ok(1) [OF inv1 in2 s1e]) (use free in simp)
  show "set (rm_set_end s1 (node_end n2) m1) =
       insert (s1, \<lparr>node_end = node_end n2, node_value = ar\<rparr>) {p \<in> set m. fst p \<noteq> s1 \<and> fst p \<noteq> s2}"
    unfolding set_rm_set_end [OF rm_invD(1) [OF inv1] in2] set1 by auto
  have "length (bt_remove s2 m) < length m"
    unfolding bt_remove_def by (rule length_filter_less [of "(s2, n2)"]) (use n2 in auto)
  then show "length (rm_set_end s1 (node_end n2) m1) < length m"
    by (simp add: rm_set_end_def m1_def rm_set_value_def bt_get_mut_def)
qed

definition page_attr ::
  "(virt_page_num, vm_area) range_map \<Rightarrow> virt_page_num \<Rightarrow> (map_perm \<times> bool \<times> user_area_type \<times> user_vm_file) option" where
  "page_attr m k = map_option (\<lambda>ar. (area_perm ar, map_shared ar, vma_type ar, vm_file ar)) (rm_abs m k)"

lemma rm_abs_node: "rm_inv m \<Longrightarrow> (st, n) \<in> set m \<Longrightarrow> st \<le> k \<Longrightarrow> k < node_end n \<Longrightarrow> rm_abs m k = Some (node_value n)"
  unfolding rm_abs_Some by blast

lemma rm_abs_other:
  assumes inv: "rm_inv m" "rm_inv m'" and same: "\<And>p. fst p \<le> k \<Longrightarrow> k < node_end (snd p) \<Longrightarrow> p \<in> set m \<longleftrightarrow> p \<in> set m'"
  shows "rm_abs m k = rm_abs m' k"
  by (rule rm_abs_eqI [OF inv]) (use same in \<open>fastforce simp: rm_abs_Some [OF inv(1)] rm_abs_Some [OF inv(2)]\<close>)

lemma union_step_attr:
  assumes inv: "rm_inv m" and n1: "(s1, n1) \<in> set m" and n2: "(s2, n2) \<in> set m" and e: "s2 = node_end n1"
    and c: "check_back_contiguous (node_value n1) (node_value n2)" and inv': "rm_inv m'"
    and sets: "set m' = insert (s1, \<lparr>node_end = node_end n2, node_value = push_back_unchecked (node_value n1) (node_value n2)\<rparr>)
      {p \<in> set m. fst p \<noteq> s1 \<and> fst p \<noteq> s2}"
  shows "page_attr m' k = page_attr m k"
proof -
  let ?ar = "push_back_unchecked (node_value n1) (node_value n2)"
  have at: "area_perm ?ar = area_perm v \<and> map_shared ?ar = map_shared v \<and> vma_type ?ar = vma_type v \<and> vm_file ?ar = vm_file v"
    if "v = node_value n1 \<or> v = node_value n2" for v
    using that c by (auto simp: push_back_unchecked_def check_back_contiguous_def split: if_splits)
  have lt: "s1 < node_end n1" "s2 < node_end n2" using rm_invD(2) [OF inv n1] rm_invD(2) [OF inv n2] by simp_all
  have new: "rm_abs m' k = Some ?ar" if "s1 \<le> k" "k < node_end n2"
    by (rule rm_abs_node [OF inv', of s1 "\<lparr>node_end = node_end n2, node_value = ?ar\<rparr>", simplified]) (use sets that in simp_all)
  consider "s1 \<le> k" "k < node_end n1" | "s2 \<le> k" "k < node_end n2" | "\<not> (s1 \<le> k \<and> k < node_end n2)"
    using e by fastforce
  then show ?thesis
  proof cases
    case 1
    with new rm_abs_node [OF inv n1] at [of "node_value n1"] e lt show ?thesis by (simp add: page_attr_def)
  next
    case 2
    with new rm_abs_node [OF inv n2] at [of "node_value n2"] e lt show ?thesis by (simp add: page_attr_def)
  next
    case 3
    have "rm_abs m k = rm_abs m' k"
    proof (rule rm_abs_other [OF inv inv'])
      fix p :: "virt_page_num \<times> (virt_page_num, vm_area) node" assume p: "fst p \<le> k" "k < node_end (snd p)"
      have "fst p \<noteq> s1 \<and> fst p \<noteq> s2" if pm: "p \<in> set m"
      proof (intro conjI notI)
        assume "fst p = s1"
        with pm have "snd p = n1" using bt_wf_unique [OF rm_invD(1) [OF inv] n1, of "snd p"] by (metis prod.collapse)
        with p 3 e lt(2) \<open>fst p = s1\<close> show False by simp
      next
        assume "fst p = s2"
        with pm have "snd p = n2" using bt_wf_unique [OF rm_invD(1) [OF inv] n2, of "snd p"] by (metis prod.collapse)
        with p 3 e lt(1) \<open>fst p = s2\<close> show False by simp
      qed
      moreover have "fst p \<noteq> s1" if pm: "p \<in> set m'"
      proof
        assume "fst p = s1"
        with pm have "node_end (snd p) = node_end n2" unfolding sets by auto
        with p 3 \<open>fst p = s1\<close> show False by simp
      qed
      ultimately show "p \<in> set m \<longleftrightarrow> p \<in> set m'" unfolding sets by auto
    qed
    then show ?thesis by (simp add: page_attr_def)
  qed
qed

lemma union_step_ok:
  assumes ok: "space_ok a ph s" and n1: "(s1, n1) \<in> set (vs_areas s)" and n2: "(node_end n1, n2) \<in> set (vs_areas s)"
    and lt: "s1 < node_end n1" "node_end n1 < node_end n2"
    and c: "check_back_contiguous (node_value n1) (node_value n2)" and inv': "rm_inv m'"
    and sets: "set m' = insert (s1, \<lparr>node_end = node_end n2, node_value = push_back_unchecked (node_value n1) (node_value n2)\<rparr>)
      {p \<in> set (vs_areas s). fst p \<noteq> s1 \<and> fst p \<noteq> node_end n1}"
  shows "space_ok a ph (s\<lparr>vs_areas := m'\<rparr>)"
proof -
  have inv: "rm_inv (vs_areas s)" and g: "\<And>t n. (t, n) \<in> set (vs_areas s) \<Longrightarrow> area_geom a t n"
    using ok unfolding space_ok_def area_ok_iff by blast+
  note geo = merged_geom [OF g [OF n1] g [OF n2] c lt]
  have uniq: "n = n1" if "(s1, n) \<in> set (vs_areas s)" for n using bt_wf_unique [OF rm_invD(1) [OF inv] n1 that] by simp
  have uniq2: "n = n2" if "(node_end n1, n) \<in> set (vs_areas s)" for n
    using bt_wf_unique [OF rm_invD(1) [OF inv] n2 that] by simp
  let ?n = "\<lparr>node_end = node_end n2, node_value = push_back_unchecked (node_value n1) (node_value n2)\<rparr>"
  have "space_ok a ph \<lparr>vs_pt = (\<lambda>v. if v \<in> {} then None else vs_pt s v), vs_areas = m', heap_bottom_va = heap_bottom_va s\<rparr>"
  proof (rule space_ok_regroup [OF ok inv'])
    show "\<forall>t m. (t, m) \<in> set m' \<longrightarrow> area_geom a t m" using g geo(1) unfolding sets by auto
    show "\<forall>t m v f. (t, m) \<in> set m' \<longrightarrow> (v, f) \<in> set (frames (node_value m)) \<longrightarrow> v \<notin> {} \<and>
      (\<exists>t0 m0. (t0, m0) \<in> set (vs_areas s) \<and> (v, f) \<in> set (frames (node_value m0)) \<and>
        area_perm (node_value m) = area_perm (node_value m0) \<and> map_shared (node_value m) = map_shared (node_value m0))"
    proof (intro allI impI conjI)
      fix t m v f assume m: "(t, m) \<in> set m'" "(v, f) \<in> set (frames (node_value m))"
      show "\<exists>t0 m0. (t0, m0) \<in> set (vs_areas s) \<and> (v, f) \<in> set (frames (node_value m0)) \<and>
        area_perm (node_value m) = area_perm (node_value m0) \<and> map_shared (node_value m) = map_shared (node_value m0)"
      proof (cases "m = ?n")
        case True
        with m(2) geo(3) have "(v, f) \<in> set (frames (node_value n1)) \<or> (v, f) \<in> set (frames (node_value n2))" by simp
        with True n1 n2 geo(4-7) show ?thesis by (metis node.select_convs(2))
      next
        case False
        with m sets have "(t, m) \<in> set (vs_areas s)" by auto
        with m(2) show ?thesis by blast
      qed
    qed simp
    show "\<forall>t0 m0 v f. (t0, m0) \<in> set (vs_areas s) \<longrightarrow> (v, f) \<in> set (frames (node_value m0)) \<longrightarrow> v \<notin> {} \<longrightarrow>
      (\<exists>t m. (t, m) \<in> set m' \<and> (v, f) \<in> set (frames (node_value m)))"
    proof (intro allI impI)
      fix t0 m0 v f assume m0: "(t0, m0) \<in> set (vs_areas s)" "(v, f) \<in> set (frames (node_value m0))"
      show "\<exists>t m. (t, m) \<in> set m' \<and> (v, f) \<in> set (frames (node_value m))"
      proof (cases "t0 = s1 \<or> t0 = node_end n1")
        case True
        with m0 uniq uniq2 geo(3) have "(v, f) \<in> set (frames (node_value ?n))" by auto
        then show ?thesis unfolding sets by blast
      next
        case False
        with m0 have "(t0, m0) \<in> set m'" unfolding sets by simp
        with m0(2) show ?thesis by blast
      qed
    qed
  qed simp
  moreover have "\<lparr>vs_pt = (\<lambda>v. if v \<in> {} then None else vs_pt s v), vs_areas = m', heap_bottom_va = heap_bottom_va s\<rparr> = s\<lparr>vs_areas := m'\<rparr>"
    by (cases s) simp
  ultimately show ?thesis by (simp only:)
qed

lemma try_union_loop_ok:
  assumes "space_ok a ph s" "length (vs_areas s) < n"
  shows "\<exists>r m'. try_union_loop a n start e (vs_areas s) = Some (r, m') \<and> space_ok a ph (s\<lparr>vs_areas := m'\<rparr>) \<and>
    (\<forall>k. page_attr m' k = page_attr (vs_areas s) k)"
  using assms
proof (induction n arbitrary: start s)
  case (Suc n)
  have inv: "rm_inv (vs_areas s)" and g: "\<And>t n. (t, n) \<in> set (vs_areas s) \<Longrightarrow> area_geom a t n"
    using Suc.prems(1) unfolding space_ok_def area_ok_iff by blast+
  have same: "space_ok a ph (s\<lparr>vs_areas := vs_areas s\<rparr>)" using Suc.prems(1) by simp
  show ?case
  proof (cases "\<exists>v1 v2. start < e \<and> rm_get start (vs_areas s) = Some v1 \<and> snd (range_vpn a v1) < e \<and>
      rm_get (snd (range_vpn a v1)) (vs_areas s) = Some v2 \<and> check_back_contiguous v1 v2")
    case False
    then have "\<exists>r. try_union_loop a (Suc n) start e (vs_areas s) = Some (r, vs_areas s)"
      by (auto simp: Let_def not_less split: option.splits)
    with same show ?thesis by auto
  next
    case True
    then obtain v1 v2 where v: "start < e" "rm_get start (vs_areas s) = Some v1" "snd (range_vpn a v1) < e"
      "rm_get (snd (range_vpn a v1)) (vs_areas s) = Some v2" "check_back_contiguous v1 v2" by blast
    from rm_get_node [OF inv v(2)] obtain s1 n1 where
      n1: "(s1, n1) \<in> set (vs_areas s)" "s1 \<le> start" "start < node_end n1" "node_value n1 = v1" .
    have e1: "snd (range_vpn a v1) = node_end n1" using g [OF n1(1)] n1(4) by (simp add: area_geom_def area_shape_def)
    from rm_get_node [OF inv v(4) [unfolded e1]] obtain s2 n2 where
      n2: "(s2, n2) \<in> set (vs_areas s)" "s2 \<le> node_end n1" "node_end n1 < node_end n2" "node_value n2 = v2" .
    note c = v(5) [folded n1(4) n2(4)]
    note adj = adjacent_node [OF inv n1(1) n2(1-3)]
    note step = union_step [OF inv n1(1) n2(1-3) n1(2,3) g [OF n1(1)] g [OF n2(1)] c]
    let ?m = "rm_set_end s1 (node_end n2) (rm_set_value s1 (\<lambda>_. push_back_unchecked (node_value n1) (node_value n2))
      (bt_remove s2 (vs_areas s)))"
    have eq: "try_union_loop a (Suc n) start e (vs_areas s) = try_union_loop a n (node_end n1) e ?m"
      using v(1,2,4,5) v(3) [folded not_le] e1 n1(4) n2(4) step(1-4) by (simp add: Let_def)
    have ok': "space_ok a ph (s\<lparr>vs_areas := ?m\<rparr>)"
      using union_step_ok [OF Suc.prems(1) n1(1) n2(1) [unfolded adj(1)] _ n2(3) c step(5)] step(6) rm_invD(2) [OF inv n1(1)]
      by (simp add: adj(1))
    have at: "page_attr ?m k = page_attr (vs_areas s) k" for k
      by (rule union_step_attr [OF inv n1(1) n2(1) adj(1) c step(5) step(6)])
    have "length (vs_areas (s\<lparr>vs_areas := ?m\<rparr>)) < n" using step(7) Suc.prems(2) by simp
    from Suc.IH [OF ok' this, of "node_end n1"] at eq show ?thesis by simp
  qed
qed simp

lemma try_union_ok:
  assumes "space_ok a ph s"
  shows "\<exists>r m'. try_union a vpn pg_len s = Some (r, s\<lparr>vs_areas := m'\<rparr>) \<and> space_ok a ph (s\<lparr>vs_areas := m'\<rparr>) \<and>
    (\<forall>k. page_attr m' k = page_attr (vs_areas s) k)"
proof -
  have "length (vs_areas s) < length (vs_areas s) + 1" by simp
  from try_union_loop_ok [OF assms this, of vpn "vpn_add a vpn pg_len"] obtain r m' where
    "try_union_loop a (length (vs_areas s) + 1) vpn (vpn_add a vpn pg_len) (vs_areas s) = Some (r, m')"
    "space_ok a ph (s\<lparr>vs_areas := m'\<rparr>)" "\<forall>k. page_attr m' k = page_attr (vs_areas s) k" by blast
  moreover from this(1) have "try_union a vpn pg_len s = Some (r, s\<lparr>vs_areas := m'\<rparr>)" unfolding try_union_def by simp
  ultimately show ?thesis by blast
qed

section \<open>Cutting an area\<close>

lemma split_off_simps:
  assumes "area_split_off a p ar = (front, back)"
  shows "range_va front = (fst (range_va ar), vpn_start_addr a p)" "range_va back = (vpn_start_addr a p, snd (range_va ar))"
    "frames front = filter (\<lambda>(v, _). v < p) (frames ar)" "frames back = filter (\<lambda>(v, _). p \<le> v) (frames ar)"
    "area_perm front = area_perm ar" "area_perm back = area_perm ar"
    "map_shared front = map_shared ar" "map_shared back = map_shared ar"
    "vm_file front = vm_file ar" "vm_file back = vm_file ar" "vma_type front = vma_type ar" "vma_type back = vma_type ar"
  using assms by (auto simp: area_split_off_def bt_split_off_def Let_def)

lemma split_geom:
  assumes g: "area_geom a st n" and p: "p < node_end n" and sp: "area_split_off a p (node_value n) = (front, back)"
  shows "range_vpn a front = (st, p)" "range_vpn a back = (p, node_end n)" "vpn_start_addr a p < snd (range_va back)"
    "st < p \<Longrightarrow> area_geom a st \<lparr>node_end = p, node_value = front\<rparr>"
    "area_geom a p \<lparr>node_end = node_end n, node_value = back\<rparr>"
proof -
  note sps = split_off_simps [OF sp]
  have rv: "range_vpn a (node_value n) = (st, node_end n)" and top: "snd (range_va (node_value n)) \<le> USER_STACK_TOP a"
    and wf: "bt_wf (frames (node_value n))"
    and keys: "\<And>v f. (v, f) \<in> set (frames (node_value n)) \<Longrightarrow> st \<le> v \<and> v < node_end n"
    using g unfolding area_geom_def area_shape_def by blast+
  note ue = user_area_end [OF rv top]
  have up: "user_vpn a p" by (rule user_vpn_le [OF _ ue(1)]) (use p in simp)
  note sa = user_start_addr [OF up]
  show rf: "range_vpn a front = (st, p)" and rb: "range_vpn a back = (p, node_end n)"
    using rv sps(1,2) sa by (simp_all add: range_vpn_def)
  show "vpn_start_addr a p < snd (range_va back)" using ue(2) [OF p] sps(2) by simp
  show "area_geom a st \<lparr>node_end = p, node_value = front\<rparr>" if "st < p"
    using rf sps sa wf keys g by (auto simp: area_geom_def area_shape_def)
  show "area_geom a p \<lparr>node_end = node_end n, node_value = back\<rparr>"
    using rb sps top wf keys g by (auto simp: area_geom_def area_shape_def)
qed

definition cut_areas ::
  "(virt_page_num, vm_area) range_map \<Rightarrow> virt_page_num \<Rightarrow> (virt_page_num, vm_area) node \<Rightarrow> virt_page_num \<Rightarrow>
     virt_page_num \<Rightarrow> vm_area \<Rightarrow> vm_area \<Rightarrow> (virt_page_num, vm_area) range_map \<Rightarrow> bool" where
  "cut_areas m st n lo hi front back m' \<longleftrightarrow>
     rm_inv m' \<and> set m' = {p \<in> set m. fst p \<noteq> st} \<union>
       (if st < lo then {(st, \<lparr>node_end = lo, node_value = front\<rparr>)} else {}) \<union>
       (if hi < node_end n then {(hi, \<lparr>node_end = node_end n, node_value = back\<rparr>)} else {})"

lemma cut_front:
  fixes m :: "(virt_page_num, vm_area) range_map" and front :: vm_area
  assumes inv: "rm_inv m" and sn: "(st, n) \<in> set m" and lo: "lo < node_end n"
  defines "m1 \<equiv> rm_set_value st (\<lambda>_. front) m"
  shows "\<exists>m2. (if rng_is_empty (st, lo) then map_option snd (rm_force_remove_one (st, node_end n) m1)
      else map_option (\<lambda>r. case r of Inr x \<Rightarrow> x | Inl _ \<Rightarrow> m1) (rm_reduce_back (st, lo) m1)) = Some m2 \<and>
    rm_inv m2 \<and> set m2 = {p \<in> set m. fst p \<noteq> st} \<union> (if st < lo then {(st, \<lparr>node_end = lo, node_value = front\<rparr>)} else {})"
proof -
  have inv1: "rm_inv m1" unfolding m1_def by (rule rm_set_value_ok(1) [OF inv sn])
  have set1: "set m1 = insert (st, n\<lparr>node_value := front\<rparr>) {p \<in> set m. fst p \<noteq> st}"
    unfolding m1_def by (rule set_rm_set_value [OF rm_invD(1) [OF inv] sn])
  have in1: "(st, n\<lparr>node_value := front\<rparr>) \<in> set m1" unfolding set1 by simp
  show ?thesis
  proof (cases "st < lo")
    case False
    have "set (bt_remove st m1) = {p \<in> set m. fst p \<noteq> st}" using set1 by auto
    with False rm_force_remove_one_ok [OF inv1 in1] rm_remove_node(1) [OF inv1 in1] show ?thesis
      by (simp add: rng_is_empty_def)
  next
    case True
    have "rm_reduce_back (st, lo) m1 = Some (Inr (rm_set_end st lo m1))"
      using rm_reduce_back_ok [OF inv1 in1, of lo] True [THEN less_imp_le] True [THEN less_imp_neq] lo by simp
    moreover have "rm_inv (rm_set_end st lo m1)" by (rule rm_set_end_ok(1) [OF inv1 in1 True]) (use lo in simp)
    moreover have "set (rm_set_end st lo m1) = {p \<in> set m. fst p \<noteq> st} \<union> {(st, \<lparr>node_end = lo, node_value = front\<rparr>)}"
      unfolding set_rm_set_end [OF rm_invD(1) [OF inv1] in1] set1 by auto
    ultimately show ?thesis using True by (simp add: rng_is_empty_def)
  qed
qed

lemma cut_back:
  assumes inv: "rm_inv m" and sn: "(st, n) \<in> set m" and inv2: "rm_inv m2" and lohi: "lo < hi" "hi < node_end n"
    and st: "st < hi" and set2: "set m2 = {p \<in> set m. fst p \<noteq> st} \<union> (if st < lo then {(st, \<lparr>node_end = lo, node_value = front\<rparr>)} else {})"
  shows "\<exists>m3. rm_try_insert (hi, node_end n) back m2 = Some (Inr m3) \<and> cut_areas m st n lo hi front back m3"
proof -
  have free: "\<not> rm_overlaps (hi, node_end n) m2"
  proof
    assume "rm_overlaps (hi, node_end n) m2"
    then obtain p where p: "p \<in> set m2" "fst p < node_end n" "hi < node_end (snd p)" by (auto simp: rm_overlaps_def)
    show False
    proof (cases "fst p = st")
      case True
      with p(1) set2 have "node_end (snd p) = lo" by (auto split: if_splits)
      with p lohi show False by auto
    next
      case False
      with p(1) set2 have pm: "p \<in> set m" by (auto split: if_splits)
      with False rm_invD(3) [OF inv pm sn] rm_invD(3) [OF inv sn pm] have "node_end (snd p) \<le> st \<or> node_end n \<le> fst p"
        by (cases "fst p" st rule: linorder_cases) auto
      with p st show False by auto
    qed
  qed
  have eq: "rm_try_insert (hi, node_end n) back m2 = Some (Inr (bt_insert hi \<lparr>node_end = node_end n, node_value = back\<rparr> m2))"
    by (rule rm_try_insert_free [OF inv2 lohi(2) free])
  have "hi \<noteq> fst p" if "p \<in> set m2" for p
    using free that rm_invD(2) [OF inv2 that] lohi by (auto simp: rm_overlaps_def)
  then have "set (bt_insert hi \<lparr>node_end = node_end n, node_value = back\<rparr> m2) = insert (hi, \<lparr>node_end = node_end n, node_value = back\<rparr>) (set m2)"
    unfolding set_bt_insert [OF rm_invD(1) [OF inv2]] by auto
  then have "cut_areas m st n lo hi front back (bt_insert hi \<lparr>node_end = node_end n, node_value = back\<rparr> m2)"
    unfolding cut_areas_def using rm_abs_insert(1) [OF inv2 lohi(2) free] lohi(2) set2 by simp
  with eq show ?thesis by blast
qed

lemma mid_simps:
  assumes g: "area_geom a st n" and lo: "lo < node_end n" "lo < hi"
    and sp1: "area_split_off a lo (node_value n) = (front, mid0)"
    and sp2: "if hi < node_end n then area_split_off a hi mid0 = (mid, back) else mid = mid0"
  shows "frames mid = filter (\<lambda>(v, _). lo \<le> v \<and> v < hi) (frames (node_value n))"
    "range_vpn a mid = (lo, min hi (node_end n))" "area_geom a lo \<lparr>node_end = min hi (node_end n), node_value = mid\<rparr>"
    "area_perm mid = area_perm (node_value n)" "map_shared mid = map_shared (node_value n)"
    "vma_type mid = vma_type (node_value n)" "vm_file mid = vm_file (node_value n)"
    "hi < node_end n \<Longrightarrow> area_geom a hi \<lparr>node_end = node_end n, node_value = back\<rparr>"
    "hi < node_end n \<Longrightarrow> frames back = filter (\<lambda>(v, _). hi \<le> v) (frames (node_value n))"
    "hi < node_end n \<Longrightarrow> area_perm back = area_perm (node_value n) \<and> map_shared back = map_shared (node_value n) \<and>
       vma_type back = vma_type (node_value n) \<and> vm_file back = vm_file (node_value n)"
    "hi < node_end n \<Longrightarrow> range_vpn a back = (hi, node_end n) \<and> \<not> rng_is_empty (range_va back)"
proof -
  note s1 = split_off_simps [OF sp1] and g1 = split_geom [OF g lo(1) sp1]
  have keys: "v < node_end n" if "(v, f) \<in> set (frames (node_value n))" for v f
    using g that unfolding area_geom_def area_shape_def by blast
  show "frames mid = filter (\<lambda>(v, _). lo \<le> v \<and> v < hi) (frames (node_value n))"
  proof (cases "hi < node_end n")
    case True
    from sp2 True have "area_split_off a hi mid0 = (mid, back)" by simp
    from split_off_simps(3) [OF this] s1(4) show ?thesis by (auto simp: filter_filter case_prod_beta intro!: filter_cong)
  next
    case False
    have "frames mid = filter (\<lambda>(v, _). lo \<le> v) (frames (node_value n))" using sp2 False s1(4) by simp
    moreover have "\<dots> = filter (\<lambda>(v, _). lo \<le> v \<and> v < hi) (frames (node_value n))"
      by (rule filter_cong) (use keys False in fastforce)+
    ultimately show ?thesis by simp
  qed
  have g0: "area_geom a lo \<lparr>node_end = node_end n, node_value = mid0\<rparr>" by (rule g1(5))
  have sp: "area_split_off a hi mid0 = (mid, back)" if "hi < node_end n" using sp2 that by simp
  note s2 = split_off_simps [OF sp] and g2 = split_geom [OF g0, simplified, OF _ sp]
  show "range_vpn a mid = (lo, min hi (node_end n))"
    using g1(2) g2(1) sp2 by (cases "hi < node_end n") (auto simp: min_def)
  show "area_geom a lo \<lparr>node_end = min hi (node_end n), node_value = mid\<rparr>"
    using g2(4) lo(2) g0 sp2 by (cases "hi < node_end n") (auto simp: min_def)
  show "area_perm mid = area_perm (node_value n)" "map_shared mid = map_shared (node_value n)"
    "vma_type mid = vma_type (node_value n)" "vm_file mid = vm_file (node_value n)"
    using s1 s2 sp2 by (cases "hi < node_end n"; simp)+
  assume hi: "hi < node_end n"
  show "area_geom a hi \<lparr>node_end = node_end n, node_value = back\<rparr>" by (rule g2(5) [OF hi hi])
  show "frames back = filter (\<lambda>(v, _). hi \<le> v) (frames (node_value n))"
    using s2(4) [OF hi] s1(4) lo(2) by (auto intro!: filter_cong)
  show "area_perm back = area_perm (node_value n) \<and> map_shared back = map_shared (node_value n) \<and>
       vma_type back = vma_type (node_value n) \<and> vm_file back = vm_file (node_value n)"
    using s1 s2 [OF hi] by simp
  show "range_vpn a back = (hi, node_end n) \<and> \<not> rng_is_empty (range_va back)"
    using g2(2,3) [OF hi hi] s2(2) [OF hi] by (simp add: rng_is_empty_def)
qed

lemma cut_space_ok:
  assumes ok: "space_ok a ph s" and sn: "(st, n) \<in> set (vs_areas s)" and lo: "lo < node_end n" "lo < hi"
    and sp1: "area_split_off a lo (node_value n) = (front, mid0)"
    and sp2: "if hi < node_end n then area_split_off a hi mid0 = (mid, back) else mid = mid0"
    and cut: "cut_areas (vs_areas s) st n lo hi front back m'"
  shows "space_ok a ph \<lparr>vs_pt = area_unmap mid (vs_pt s), vs_areas = m', heap_bottom_va = h\<rparr>"
proof -
  have inv: "rm_inv (vs_areas s)" and g: "\<And>t n. (t, n) \<in> set (vs_areas s) \<Longrightarrow> area_geom a t n"
    using ok unfolding space_ok_def area_ok_iff by blast+
  note mid = mid_simps [OF g [OF sn] lo sp1 sp2] and s1 = split_off_simps [OF sp1] and g1 = split_geom [OF g [OF sn] lo(1) sp1]
  let ?V = "fst ` set (frames mid)"
  have V: "?V = {v. lo \<le> v \<and> v < hi \<and> (\<exists>f. (v, f) \<in> set (frames (node_value n)))}" unfolding mid(1) by force
  have sets: "p \<in> set m' \<longleftrightarrow> p \<in> set (vs_areas s) \<and> fst p \<noteq> st \<or>
      st < lo \<and> p = (st, \<lparr>node_end = lo, node_value = front\<rparr>) \<or>
      hi < node_end n \<and> p = (hi, \<lparr>node_end = node_end n, node_value = back\<rparr>)" for p
    using cut unfolding cut_areas_def by auto
  have stlo: "st < lo" if "(v, f) \<in> set (frames (node_value n))" "v < lo" for v f
    using g [OF sn] that unfolding area_geom_def area_shape_def by fastforce
  show ?thesis unfolding area_unmap_eq
  proof (rule space_ok_regroup [OF ok])
    show "rm_inv m'" using cut by (simp add: cut_areas_def)
    show "\<forall>t m. (t, m) \<in> set m' \<longrightarrow> area_geom a t m" using g g1(4) mid(8) unfolding sets by auto
    show "\<forall>t m v f. (t, m) \<in> set m' \<longrightarrow> (v, f) \<in> set (frames (node_value m)) \<longrightarrow> v \<notin> ?V \<and>
      (\<exists>t0 m0. (t0, m0) \<in> set (vs_areas s) \<and> (v, f) \<in> set (frames (node_value m0)) \<and>
        area_perm (node_value m) = area_perm (node_value m0) \<and> map_shared (node_value m) = map_shared (node_value m0))"
    proof (intro allI impI)
      fix t m v f assume m: "(t, m) \<in> set m'" "(v, f) \<in> set (frames (node_value m))"
      from m(1) consider "(t, m) \<in> set (vs_areas s)" "t \<noteq> st" | "st < lo" "t = st" "m = \<lparr>node_end = lo, node_value = front\<rparr>"
        | "hi < node_end n" "m = \<lparr>node_end = node_end n, node_value = back\<rparr>" unfolding sets by auto
      then show "v \<notin> ?V \<and> (\<exists>t0 m0. (t0, m0) \<in> set (vs_areas s) \<and> (v, f) \<in> set (frames (node_value m0)) \<and>
        area_perm (node_value m) = area_perm (node_value m0) \<and> map_shared (node_value m) = map_shared (node_value m0))"
      proof cases
        case 1
        have "(v, f') \<notin> set (frames (node_value n))" for f'
        proof
          assume "(v, f') \<in> set (frames (node_value n))"
          with g [OF sn] g [OF 1(1)] m(2) have "st \<le> v" "v < node_end n" "t \<le> v" "v < node_end m"
            unfolding area_geom_def area_shape_def by blast+
          with rm_inv_same_node [OF inv sn 1(1), of v] 1(2) show False by simp
        qed
        with 1(1) m(2) show ?thesis unfolding V by blast
      next
        case 2
        with m(2) sn s1(3,5,7) show ?thesis unfolding V by auto
      next
        case 3
        with m(2) sn mid(9,10) show ?thesis unfolding V by auto
      qed
    qed
    show "\<forall>t0 m0 v f. (t0, m0) \<in> set (vs_areas s) \<longrightarrow> (v, f) \<in> set (frames (node_value m0)) \<longrightarrow> v \<notin> ?V \<longrightarrow>
      (\<exists>t m. (t, m) \<in> set m' \<and> (v, f) \<in> set (frames (node_value m)))"
    proof (intro allI impI)
      fix t0 m0 v f assume m0: "(t0, m0) \<in> set (vs_areas s)" "(v, f) \<in> set (frames (node_value m0))" "v \<notin> ?V"
      show "\<exists>t m. (t, m) \<in> set m' \<and> (v, f) \<in> set (frames (node_value m))"
      proof (cases "t0 = st")
        case False
        with m0 show ?thesis unfolding sets by auto
      next
        case True
        with bt_wf_unique [OF rm_invD(1) [OF inv] sn] m0(1) have mn: "m0 = n" by simp
        with m0(2,3) have cases: "v < lo \<or> hi \<le> v" unfolding V by force
        have vn: "v < node_end n" using g [OF sn] m0(2) mn unfolding area_geom_def area_shape_def by blast
        show ?thesis
        proof (cases "v < lo")
          case True
          with stlo m0(2) mn s1(3) show ?thesis unfolding sets
            by (intro exI [of _ st] exI [of _ "\<lparr>node_end = lo, node_value = front\<rparr>"]) auto
        next
          case False
          then have hv: "hi \<le> v" "hi < node_end n" using cases vn by auto
          with mid(9) m0(2) mn show ?thesis unfolding sets
            by (intro exI [of _ hi] exI [of _ "\<lparr>node_end = node_end n, node_value = back\<rparr>"]) auto
        qed
      qed
    qed
  qed simp
qed

lemma page_attr_None: "page_attr m k = None \<longleftrightarrow> (\<forall>p \<in> set m. \<not> (fst p \<le> k \<and> k < node_end (snd p)))"
  by (simp add: page_attr_def rm_abs_None)

lemma cut_attr:
  assumes inv: "rm_inv m" and sn: "(st, n) \<in> set m" and g: "area_geom a st n" and lo: "lo < node_end n" "lo < hi"
    and sp1: "area_split_off a lo (node_value n) = (front, mid0)"
    and sp2: "if hi < node_end n then area_split_off a hi mid0 = (mid, back) else mid = mid0"
    and cut: "cut_areas m st n lo hi front back m'" and gap: "\<forall>k. lo \<le> k \<longrightarrow> k < st \<longrightarrow> page_attr m k = None"
    and st: "st < hi"
  shows "page_attr m' k = (if lo \<le> k \<and> k < min hi (node_end n) then None else page_attr m k)"
proof -
  note mid = mid_simps [OF g lo sp1 sp2] and s1 = split_off_simps [OF sp1]
  have inv': "rm_inv m'" using cut by (simp add: cut_areas_def)
  have sets: "p \<in> set m' \<longleftrightarrow> p \<in> set m \<and> fst p \<noteq> st \<or>
      st < lo \<and> p = (st, \<lparr>node_end = lo, node_value = front\<rparr>) \<or>
      hi < node_end n \<and> p = (hi, \<lparr>node_end = node_end n, node_value = back\<rparr>)" for p
    using cut unfolding cut_areas_def by auto
  have other: "\<not> (fst p \<le> k \<and> k < node_end (snd p))" if "p \<in> set m" "fst p \<noteq> st" "st \<le> k" "k < node_end n" for p
    using rm_inv_same_node [OF inv sn that(1), of k] that by auto
  consider "st \<le> k" "k < lo" | "lo \<le> k" "k < min hi (node_end n)" | "hi \<le> k" "k < node_end n"
    | "\<not> lo \<le> k \<or> node_end n \<le> k" "\<not> (st \<le> k \<and> k < node_end n)"
    by fastforce
  then show ?thesis
  proof cases
    case 1
    have "rm_abs m' k = Some front"
      by (rule rm_abs_node [OF inv', of st "\<lparr>node_end = lo, node_value = front\<rparr>", simplified]) (use 1 sets in auto)
    moreover have "rm_abs m k = Some (node_value n)" by (rule rm_abs_node [OF inv sn]) (use 1 lo in auto)
    ultimately show ?thesis using 1(2) [folded not_le] s1 by (simp add: page_attr_def)
  next
    case 2
    have "\<not> (fst p \<le> k \<and> k < node_end (snd p))" if p: "p \<in> set m'" for p
    proof (cases "p \<in> set m \<and> fst p \<noteq> st")
      case True
      show ?thesis
      proof (cases "st \<le> k")
        case False
        with gap 2 True show ?thesis unfolding page_attr_None by auto
      qed (use other True 2 in auto)
    next
      case False
      with p sets 2 show ?thesis by auto
    qed
    then show ?thesis using 2 by (simp add: page_attr_None)
  next
    case 3
    then have hi: "hi < node_end n" by simp
    have "rm_abs m' k = Some back"
      by (rule rm_abs_node [OF inv', of hi "\<lparr>node_end = node_end n, node_value = back\<rparr>", simplified]) (use 3 hi sets in auto)
    moreover have "rm_abs m k = Some (node_value n)" by (rule rm_abs_node [OF inv sn]) (use 3 st in auto)
    ultimately show ?thesis using 3(1) [folded not_less] mid(10) [OF hi] by (simp add: page_attr_def)
  next
    case 4
    have "rm_abs m k = rm_abs m' k"
    proof (rule rm_abs_other [OF inv inv'])
      fix p :: "virt_page_num \<times> (virt_page_num, vm_area) node" assume p: "fst p \<le> k" "k < node_end (snd p)"
      have "fst p \<noteq> st" if "p \<in> set m"
        using bt_wf_unique [OF rm_invD(1) [OF inv] sn, of "snd p"] that p 4 by (metis prod.collapse)
      moreover have "p \<noteq> (st, \<lparr>node_end = lo, node_value = front\<rparr>)" "p \<noteq> (hi, \<lparr>node_end = node_end n, node_value = back\<rparr>)"
        using p 4 lo st by auto
      ultimately show "p \<in> set m \<longleftrightarrow> p \<in> set m'" unfolding sets by blast
    qed
    with 4 show ?thesis by (auto simp: page_attr_def)
  qed
qed

section \<open>Unmapping a range\<close>

lemma unmap_find_cases:
  assumes inv: "rm_inv m" and e: "vpn_add a vpn pg_len = e" "vpn < e"
  shows "unmap_find a vpn pg_len m = Some None \<and> (\<forall>k. vpn \<le> k \<longrightarrow> k < e \<longrightarrow> page_attr m k = None) \<or>
    (\<exists>st n. unmap_find a vpn pg_len m = Some (Some ((st, node_end n), node_value n)) \<and> (st, n) \<in> set m \<and>
      vpn < node_end n \<and> st < e \<and> (\<forall>k. vpn \<le> k \<longrightarrow> k < st \<longrightarrow> page_attr m k = None))"
proof (cases "rm_get_key_value vpn m")
  case (Some x)
  obtain s' e' v where x: "x = ((s', e'), v)" by (cases x) auto
  with Some rm_get_key_value_iff [OF inv, of vpn s' e' v] have
    h: "(s', \<lparr>node_end = e', node_value = v\<rparr>) \<in> set m" "s' \<le> vpn" "vpn < e'" by simp_all
  then show ?thesis using Some x e by (intro disjI2 exI [of _ s'] exI [of _ "\<lparr>node_end = e', node_value = v\<rparr>"])
      (auto simp: unmap_find_def)
next
  case None
  have no: "\<not> (fst p \<le> vpn \<and> vpn < node_end (snd p))" if p: "p \<in> set m" for p
  proof
    assume "fst p \<le> vpn \<and> vpn < node_end (snd p)"
    with p have "rm_get_key_value vpn m = Some ((fst p, node_end (snd p)), node_value (snd p))"
      unfolding rm_get_key_value_iff [OF inv] by simp
    with None show False by simp
  qed
  let ?f = "filter (\<lambda>(x, _). vpn \<le> x \<and> x < e) m"
  have find: "unmap_find a vpn pg_len m = Some (hd_opt (rm_iter ?f))"
    using None e by (simp add: unmap_find_def rm_range_def bt_range_Some)
  have sub: "p \<in> set ?f" if "p \<in> set m" "vpn \<le> k" "k < e" "fst p \<le> k" "k < node_end (snd p)" for p k
  proof -
    have "vpn < fst p" using no [OF that(1)] that by (meson linorder_not_le order.strict_trans1)
    moreover have "fst p < e" using that by simp
    ultimately show ?thesis using that(1) by (simp add: case_prod_beta less_imp_le)
  qed
  show ?thesis
  proof (cases ?f)
    case Nil
    have "page_attr m k = None" if "vpn \<le> k" "k < e" for k
      unfolding page_attr_None using sub that Nil by fastforce
    with find Nil show ?thesis by (simp add: rm_iter_def)
  next
    case (Cons p ps)
    obtain st n where p: "p = (st, n)" by (cases p)
    have "p \<in> set ?f" unfolding Cons by simp
    then have st: "(st, n) \<in> set m" "vpn \<le> st" "st < e" using p by auto
    have first: "st \<le> fst q" if "q \<in> set ?f" for q
    proof -
      have "bt_wf (p # ps)" using bt_wf_filter [OF rm_invD(1) [OF inv], of "\<lambda>(x, _). vpn \<le> x \<and> x < e"] Cons by simp
      with that p show ?thesis unfolding Cons by auto
    qed
    have "page_attr m k = None" if k: "vpn \<le> k" "k < st" for k
      unfolding page_attr_None
    proof (intro ballI notI)
      fix q assume q: "q \<in> set m" "fst q \<le> k \<and> k < node_end (snd q)"
      with sub [of q k] k st(3) have "q \<in> set ?f" by auto
      from first [OF this] q(2) k(2) show False by (meson leD order_trans)
    qed
    moreover have "vpn < node_end n" using st(2) rm_invD(2) [OF inv st(1)] by simp
    ultimately show ?thesis using find Cons p st by (intro disjI2 exI [of _ st] exI [of _ n]) (simp add: rm_iter_def)
  qed
qed

lemma vpn_add_ceil: "vpn_add a v (va_ceil a x - v) = va_ceil a x"
  by (simp add: vpn_add_def vpn_from_def va_ceil_def shift_one_mask)

definition unmapped :: "arch \<Rightarrow> phys \<Rightarrow> vm_space \<Rightarrow> virt_page_num \<Rightarrow> virt_page_num \<Rightarrow> vm_area \<Rightarrow> vm_space \<Rightarrow> bool" where
  "unmapped a ph s lo e mid s' \<longleftrightarrow>
     space_ok a ph s' \<and> area_geom a lo \<lparr>node_end = e, node_value = mid\<rparr> \<and>
     vs_pt s' = area_unmap mid (vs_pt s) \<and> heap_bottom_va s' = heap_bottom_va s \<and>
     (\<forall>v f. (v, f) \<in> set (frames mid) \<longrightarrow> (\<exists>x. vs_pt s v = Some x \<and> v_ppn x = f)) \<and>
     (\<forall>v. vs_pt s' v = (if lo \<le> v \<and> v < e then None else vs_pt s v)) \<and>
     (\<forall>k. page_attr (vs_areas s') k = (if lo \<le> k \<and> k < e then None else page_attr (vs_areas s) k)) \<and>
     (\<forall>k. lo \<le> k \<longrightarrow> k < e \<longrightarrow> page_attr (vs_areas s) k = None \<or>
        page_attr (vs_areas s) k = Some (area_perm mid, map_shared mid, vma_type mid, vm_file mid))"

lemma space_ok_attr: "space_ok a ph s \<Longrightarrow> page_attr (vs_areas s) v = None \<Longrightarrow> vs_pt s v = None"
proof (rule ccontr)
  assume ok: "space_ok a ph s" and no: "page_attr (vs_areas s) v = None" and "vs_pt s v \<noteq> None"
  then obtain e where "vs_pt s v = Some e" by auto
  with ok obtain st n where sn: "(st, n) \<in> set (vs_areas s)" "(v, v_ppn e) \<in> set (frames (node_value n))"
    unfolding space_ok_def by blast
  with ok have "st \<le> v \<and> v < node_end n" unfolding space_ok_def area_ok_def by blast
  with no sn(1) show False unfolding page_attr_None by force
qed

lemma cut_unmapped:
  assumes ok: "space_ok a ph s" and sn: "(st, n) \<in> set (vs_areas s)" and lo: "lo < node_end n" "lo < hi" and st: "st < hi"
    and gap: "\<forall>k. lo \<le> k \<longrightarrow> k < st \<longrightarrow> page_attr (vs_areas s) k = None"
    and sp1: "area_split_off a lo (node_value n) = (front, mid0)"
    and sp2: "if hi < node_end n then area_split_off a hi mid0 = (mid, back) else mid = mid0"
    and cut: "cut_areas (vs_areas s) st n lo hi front back m'"
  shows "unmapped a ph s lo (min hi (node_end n)) mid (s\<lparr>vs_areas := m', vs_pt := area_unmap mid (vs_pt s)\<rparr>)"
    (is "unmapped a ph s lo ?e mid ?s")
proof -
  have inv: "rm_inv (vs_areas s)" and g: "area_geom a st n" and pg: "\<And>v f. (v, f) \<in> set (frames (node_value n)) \<Longrightarrow>
      page_ok ph (vs_pt s) (node_value n) v f"
    using ok sn unfolding space_ok_def area_ok_iff by blast+
  note mid = mid_simps [OF g lo sp1 sp2]
  have "?s = \<lparr>vs_pt = area_unmap mid (vs_pt s), vs_areas = m', heap_bottom_va = heap_bottom_va s\<rparr>" by simp
  then have ok': "space_ok a ph ?s" using cut_space_ok [OF ok sn lo sp1 sp2 cut] by (simp only:)
  have at: "page_attr (vs_areas ?s) k = (if lo \<le> k \<and> k < ?e then None else page_attr (vs_areas s) k)" for k
    using cut_attr [OF inv sn g lo sp1 sp2 cut gap st] by simp
  have keys: "lo \<le> v \<and> v < ?e" if "(v, f) \<in> set (frames mid)" for v f
    using mid(3) that unfolding area_geom_def area_shape_def by simp blast
  have pt: "vs_pt ?s v = (if lo \<le> v \<and> v < ?e then None else vs_pt s v)" for v
  proof (cases "lo \<le> v \<and> v < ?e")
    case True
    then have "page_attr (vs_areas ?s) v = None" using at by simp
    with space_ok_attr [OF ok'] True show ?thesis by simp
  next
    case False
    then have "v \<notin> fst ` set (frames mid)" using keys by fastforce
    with False show ?thesis unfolding area_unmap_eq by auto
  qed
  have fr: "\<exists>x. vs_pt s v = Some x \<and> v_ppn x = f" if "(v, f) \<in> set (frames mid)" for v f
    using that pg [of v f] unfolding mid(1) page_ok_def by auto
  have "page_attr (vs_areas s) k = None \<or>
      page_attr (vs_areas s) k = Some (area_perm mid, map_shared mid, vma_type mid, vm_file mid)" if "lo \<le> k" "k < ?e" for k
  proof (cases "st \<le> k")
    case True
    have "rm_abs (vs_areas s) k = Some (node_value n)" by (rule rm_abs_node [OF inv sn True]) (use that in simp)
    then show ?thesis using mid(4-7) by (simp add: page_attr_def)
  qed (use gap that in auto)
  then show ?thesis unfolding unmapped_def using ok' mid(3) at pt fr by simp
qed

lemma space_unmap_spec:
  fixes a va len
  assumes ok: "space_ok a ph s" and ne: "va_floor a va < va_ceil a (va_add a va len)"
  defines "lo \<equiv> va_floor a va" and "hi \<equiv> va_ceil a (va_add a va len)"
  shows "(\<exists>m'. space_unmap a va len s = Some (Inl EINVAL, s\<lparr>vs_areas := m'\<rparr>) \<and> space_ok a ph (s\<lparr>vs_areas := m'\<rparr>) \<and>
      (\<forall>k. page_attr m' k = page_attr (vs_areas s) k) \<and> (\<forall>k. lo \<le> k \<longrightarrow> k < hi \<longrightarrow> page_attr (vs_areas s) k = None)) \<or>
    (\<exists>mid s' e. space_unmap a va len s = Some (Inr mid, s') \<and> lo < e \<and> e \<le> hi \<and> unmapped a ph s lo e mid s' \<and>
      (\<exists>k. lo \<le> k \<and> k < e \<and> page_attr (vs_areas s) k \<noteq> None))"
proof -
  have ne': "lo < hi" using ne by (simp add: lo_def hi_def)
  have ae: "vpn_add a lo (hi - lo) = hi" unfolding lo_def hi_def by (rule vpn_add_ceil)
  from try_union_ok [OF ok, of lo "hi - lo"] obtain r m1 where
    u: "try_union a lo (hi - lo) s = Some (r, s\<lparr>vs_areas := m1\<rparr>)" and ok1: "space_ok a ph (s\<lparr>vs_areas := m1\<rparr>)"
    and at1: "\<And>k. page_attr m1 k = page_attr (vs_areas s) k" by blast
  have inv1: "rm_inv m1" and g1: "\<And>t n. (t, n) \<in> set m1 \<Longrightarrow> area_geom a t n"
    using ok1 unfolding space_ok_def area_ok_iff by auto
  note defs = space_unmap_def lo_def [symmetric] hi_def [symmetric] Let_def
  from unmap_find_cases [OF inv1 ae ne'] show ?thesis
  proof (elim disjE exE conjE)
    assume "unmap_find a lo (hi - lo) m1 = Some None" "\<forall>k. lo \<le> k \<longrightarrow> k < hi \<longrightarrow> page_attr m1 k = None"
    with u ok1 at1 show ?thesis by (intro disjI1 exI [of _ m1]) (simp add: defs)
  next
    fix st n assume f: "unmap_find a lo (hi - lo) m1 = Some (Some ((st, node_end n), node_value n))"
      and sn: "(st, n) \<in> set m1" and lo: "lo < node_end n" and st: "st < hi"
      and gap: "\<forall>k. lo \<le> k \<longrightarrow> k < st \<longrightarrow> page_attr m1 k = None"
    obtain front mid0 where sp1: "area_split_off a lo (node_value n) = (front, mid0)" by (cases "area_split_off a lo (node_value n)")
    obtain mid bk where sp2: "if hi < node_end n then area_split_off a hi mid0 = (mid, bk) else mid = mid0"
      by (cases "hi < node_end n"; cases "area_split_off a hi mid0") auto
    note sg = split_geom [OF g1 [OF sn] lo sp1] and mid = mid_simps [OF g1 [OF sn] lo ne' sp1 sp2]
    from cut_front [OF inv1 sn lo, of front] obtain m2 where
      m2: "(if rng_is_empty (st, lo) then map_option snd (rm_force_remove_one (st, node_end n) (rm_set_value st (\<lambda>_. front) m1))
        else map_option (\<lambda>r. case r of Inr x \<Rightarrow> x | Inl _ \<Rightarrow> rm_set_value st (\<lambda>_. front) m1)
          (rm_reduce_back (st, lo) (rm_set_value st (\<lambda>_. front) m1))) = Some m2" and inv2: "rm_inv m2"
      and set2: "set m2 = {p \<in> set m1. fst p \<noteq> st} \<union> (if st < lo then {(st, \<lparr>node_end = lo, node_value = front\<rparr>)} else {})"
      by blast
    have ex: "\<exists>m'. space_unmap a va len s = Some (Inr mid, s\<lparr>vs_areas := m', vs_pt := area_unmap mid (vs_pt s)\<rparr>) \<and>
      cut_areas m1 st n lo hi front bk m'"
    proof (cases "hi < node_end n")
      case False
      then have "cut_areas m1 st n lo hi front bk m2" using inv2 set2 by (auto simp: cut_areas_def)
      moreover have "space_unmap a va len s = Some (Inr mid, s\<lparr>vs_areas := m2, vs_pt := area_unmap mid (vs_pt s)\<rparr>)"
        using u f sp1 sp2 m2 sg(1,2) False ae by (cases "rng_is_empty (st, lo)") (auto simp: defs)
      ultimately show ?thesis by blast
    next
      case True
      from cut_back [OF inv1 sn inv2 ne' True st set2, of bk] obtain m3 where
        m3: "rm_try_insert (hi, node_end n) bk m2 = Some (Inr m3)" "cut_areas m1 st n lo hi front bk m3" by blast
      have "space_unmap a va len s = Some (Inr mid, s\<lparr>vs_areas := m3, vs_pt := area_unmap mid (vs_pt s)\<rparr>)"
        using u f sp1 sp2 m2 sg(1,2) True ae m3(1) mid(11) by (cases "rng_is_empty (st, lo)") (auto simp: defs)
      with m3(2) show ?thesis by blast
    qed
    then obtain m' where m': "space_unmap a va len s = Some (Inr mid, s\<lparr>vs_areas := m', vs_pt := area_unmap mid (vs_pt s)\<rparr>)"
      "cut_areas m1 st n lo hi front bk m'" by blast
    have "unmapped a ph (s\<lparr>vs_areas := m1\<rparr>) lo (min hi (node_end n)) mid (s\<lparr>vs_areas := m', vs_pt := area_unmap mid (vs_pt s)\<rparr>)"
      using cut_unmapped [OF ok1 _ lo ne' st _ sp1 sp2, of m'] sn gap m'(2) by simp
    then have un: "unmapped a ph s lo (min hi (node_end n)) mid (s\<lparr>vs_areas := m', vs_pt := area_unmap mid (vs_pt s)\<rparr>)"
      using at1 by (simp add: unmapped_def)
    have "rm_abs m1 (max lo st) = Some (node_value n)"
      by (rule rm_abs_node [OF inv1 sn]) (use lo rm_invD(2) [OF inv1 sn] in auto)
    then have "page_attr (vs_areas s) (max lo st) \<noteq> None" unfolding at1 [symmetric] by (simp add: page_attr_def)
    moreover have "max lo st < min hi (node_end n)" using lo ne' st rm_invD(2) [OF inv1 sn] by auto
    ultimately show ?thesis using m'(1) un lo ne'
      by (intro disjI2 exI [of _ mid] exI [of _ "s\<lparr>vs_areas := m', vs_pt := area_unmap mid (vs_pt s)\<rparr>"]
          exI [of _ "min hi (node_end n)"]) (auto intro: exI [of _ "max lo st"])
  qed
qed

lemma covered_mono: "covered K s ph \<Longrightarrow> refs (vs_pt s) f \<le> ph_owners ph f"
  unfolding covered_def by (metis add_leE)

lemma drop_local:
  assumes ok: "space_ok a ph s" and cov: "covered K s ph" and un: "unmapped a ph s lo e mid s'"
  shows "local_step a K s ph [s'] (area_drop mid ph)"
    and "v < lo \<or> e \<le> v \<Longrightarrow> user_read s' (area_drop mid ph) v = user_read s ph v"
proof -
  note u = un [unfolded unmapped_def]
  have wf: "distinct (map fst (frames mid))"
    using u bt_wf_distinct by (auto simp: area_geom_def area_shape_def)
  have fr: "\<forall>v f. (v, f) \<in> set (frames mid) \<longrightarrow> (\<exists>e. vs_pt s v = Some e \<and> v_ppn e = f)" using u by blast
  have pt: "vs_pt s' = (\<lambda>v. if v \<in> fst ` set (frames mid) then None else vs_pt s v)"
    using u by (simp add: area_unmap_eq)
  have cnt: "refs (vs_pt s) f = refs (vs_pt s') f + count_list (map snd (frames mid)) f" for f
    using refs_area_unmap [OF wf fr, of f] unfolding pt .
  have own: "ph_owners (area_drop mid ph) f + refs (vs_pt s) f = ph_owners ph f + refs (vs_pt s') f" for f
    using drop_owners(1) [of mid ph f] cnt [of f] covered_mono [OF cov, of f] by linarith
  have ok': "space_ok a (area_drop mid ph) s'"
  proof (rule space_ok_owners)
    show "space_ok a ph s'" using u by blast
    fix f assume "0 < refs (vs_pt s') f" "ph_owners ph f = 1"
    then show "ph_owners (area_drop mid ph) f = 1" using own [of f] cnt [of f] covered_mono [OF cov, of f] by linarith
  qed
  have "0 < refs (vs_pt s) f" if "0 < refs (vs_pt s') f" for f using cnt [of f] that by linarith
  with ok' own show "local_step a K s ph [s'] (area_drop mid ph)"
    by (auto simp: local_step_def drop_owners(2))
  show "user_read s' (area_drop mid ph) v = user_read s ph v" if "v < lo \<or> e \<le> v"
  proof -
    have "vs_pt s' v = vs_pt s v" using u that by (auto simp: not_less)
    then show ?thesis by (intro ext) (simp add: user_read_def drop_owners(2))
  qed
qed

section \<open>Adding an area\<close>

lemma refs_upds:
  assumes "distinct (map fst L)" "\<forall>k \<in> fst ` set L. pt k = None"
  shows "refs (upds L pt) f = refs pt f + count_list (map (v_ppn \<circ> snd) L) f"
  using assms
proof (induction L arbitrary: pt)
  case (Cons kv L)
  obtain k v where kv: "kv = (k, v)" by (cases kv)
  have "\<forall>j \<in> fst ` set L. (pt(k \<mapsto> v)) j = None" using Cons.prems kv by auto
  with Cons.IH [of "pt(k \<mapsto> v)"] Cons.prems(1) have "refs (upds L (pt(k \<mapsto> v))) f =
      refs (pt(k \<mapsto> v)) f + count_list (map (v_ppn \<circ> snd) L) f" by (metis distinct.simps(2) list.simps(9))
  moreover have "pt k = None" using Cons.prems(2) kv by auto
  ultimately show ?case using refs_map_new [of pt k v f] kv by (simp add: upds_def comp_def del: fun_upd_apply)
qed (simp add: upds_def)

definition mapped_leaf :: "phys \<Rightarrow> vm_area \<Rightarrow> phys_page_num \<Rightarrow> pte_view" where
  "mapped_leaf ph ar f = (if ph_owners ph f > 1 \<and> \<not> map_shared ar
     then protect (leaf f (area_perm ar)) else leaf f (area_perm ar))"

lemma mapped_leaf_ppn [simp]: "v_ppn (mapped_leaf ph ar f) = f"
  by (simp add: mapped_leaf_def leaf_def set_dirty_def set_writable_def)

lemma area_map_lookup:
  assumes "bt_wf (frames ar)"
  shows "area_map ar ph pt v = (case bt_get (frames ar) v of Some f \<Rightarrow> Some (mapped_leaf ph ar f) | None \<Rightarrow> pt v)"
    and "\<forall>k \<in> fst ` set (frames ar). pt k = None \<Longrightarrow>
      refs (area_map ar ph pt) f = refs pt f + count_list (map snd (frames ar)) f"
proof -
  let ?L = "map (\<lambda>(v, f). (v, mapped_leaf ph ar f)) (frames ar)"
  have eq: "area_map ar ph = upds ?L" unfolding area_map_eq mapped_leaf_def by simp
  have d: "distinct (map fst ?L)" using bt_wf_distinct [OF assms] by (simp add: case_prod_beta comp_def)
  have "map_of ?L v = map_option (mapped_leaf ph ar) (bt_get (frames ar) v)"
    by (induction "frames ar") (auto simp: bt_get_def map_of_map)
  then show "area_map ar ph pt v = (case bt_get (frames ar) v of Some f \<Rightarrow> Some (mapped_leaf ph ar f) | None \<Rightarrow> pt v)"
    unfolding eq fold_upd [OF d] by (simp add: map_add_def split: option.splits)
  show "refs (area_map ar ph pt) f = refs pt f + count_list (map snd (frames ar)) f" if "\<forall>k \<in> fst ` set (frames ar). pt k = None"
  proof -
    have "map (v_ppn \<circ> snd) ?L = map snd (frames ar)" by (simp add: case_prod_beta comp_def)
    moreover have "\<forall>k \<in> fst ` set ?L. pt k = None" using that by auto
    ultimately show ?thesis unfolding eq using refs_upds [OF d, of pt f] by (simp only:)
  qed
qed

lemma push_area_ok:
  assumes ok: "space_ok a ph s" and g: "area_geom a st n" and ne: "st < node_end n"
    and free: "\<forall>k. st \<le> k \<longrightarrow> k < node_end n \<longrightarrow> page_attr (vs_areas s) k = None"
    and own: "\<forall>v f. (v, f) \<in> set (frames (node_value n)) \<longrightarrow> 0 < ph_owners ph f"
  shows "\<exists>s'. push_area a alloc (node_value n) None s ph = Some (s', ph) \<and> space_ok a ph s' \<and>
    vs_pt s' = area_map (node_value n) ph (vs_pt s) \<and> heap_bottom_va s' = heap_bottom_va s \<and>
    (\<forall>f. refs (vs_pt s') f = refs (vs_pt s) f + count_list (map snd (frames (node_value n))) f) \<and>
    (\<forall>k. rm_abs (vs_areas s') k = (if st \<le> k \<and> k < node_end n then Some (node_value n) else rm_abs (vs_areas s) k))"
proof -
  let ?ar = "node_value n" and ?m = "bt_insert st n (vs_areas s)"
  have inv: "rm_inv (vs_areas s)" using ok by (simp add: space_ok_def)
  have wf: "bt_wf (frames ?ar)" and rv: "range_vpn a ?ar = (st, node_end n)"
    and keys: "\<And>v f. (v, f) \<in> set (frames ?ar) \<Longrightarrow> st \<le> v \<and> v < node_end n"
    using g unfolding area_geom_def area_shape_def by blast+
  have no: "\<not> rm_overlaps (st, node_end n) (vs_areas s)"
    unfolding rm_overlaps_abs [OF inv ne] using free by (auto simp: page_attr_def)
  have ins: "rm_try_insert (st, node_end n) ?ar (vs_areas s) = Some (Inr ?m)"
    using rm_try_insert_free [OF inv ne no, of ?ar] by simp
  note ai = rm_abs_insert [OF inv ne no, of ?ar, simplified]
  have "bt_get (vs_areas s) st = None"
    using no ne rm_invD(2) [OF inv] unfolding bt_get_None rm_overlaps_def by fastforce
  then have sets: "set ?m = insert (st, n) (set (vs_areas s))"
    unfolding set_bt_insert [OF rm_invD(1) [OF inv]] bt_get_None by force
  have same: "rm_set_value st (\<lambda>_. ?ar) ?m = ?m" by (rule rm_set_value_same) (use rm_invD(1) [OF ai(1)] sets in auto)
  have out: "vs_pt s v = None" if "st \<le> v" "v < node_end n" for v
    using space_ok_attr [OF ok] free that by blast
  let ?pt = "area_map ?ar ph (vs_pt s)"
  let ?s = "s\<lparr>vs_areas := ?m, vs_pt := ?pt\<rparr>"
  note look = area_map_lookup(1) [OF wf, of ph "vs_pt s"]
  have old: "?pt v = vs_pt s v" if "vs_pt s v \<noteq> None" for v
  proof -
    have "(v, f) \<notin> set (frames ?ar)" for f using keys [of v f] out [of v] that by auto
    then have "bt_get (frames ?ar) v = None" by (simp add: bt_get_None)
    then show ?thesis using look by simp
  qed
  have aold: "area_ok a ph ?pt t m" if m: "(t, m) \<in> set (vs_areas s)" for t m
  proof -
    have ao: "area_ok a ph (vs_pt s) t m" using ok m by (simp add: space_ok_def)
    have "page_ok ph ?pt (node_value m) v f" if "page_ok ph (vs_pt s) (node_value m) v f" for v f
      using that old [of v] by (auto simp: page_ok_def)
    with ao show ?thesis unfolding area_ok_iff by blast
  qed
  have anew: "area_ok a ph ?pt st n"
    unfolding area_ok_iff
  proof (intro conjI g allI impI)
    fix v f assume vf: "(v, f) \<in> set (frames ?ar)"
    then have "?pt v = Some (mapped_leaf ph ?ar f)" using look [of v] bt_get_iff [OF wf, of v f] by simp
    moreover have "0 < ph_owners ph f" using own vf by blast
    ultimately show "page_ok ph ?pt ?ar v f"
      by (auto simp: page_ok_def mapped_leaf_def leaf_def set_dirty_def set_writable_def split: if_splits)
  qed
  have cov: "\<exists>t m. (t, m) \<in> set ?m \<and> (v, v_ppn x) \<in> set (frames (node_value m))" if x: "?pt v = Some x" for v x
  proof (cases "bt_get (frames ?ar) v")
    case None
    with x look have "vs_pt s v = Some x" by simp
    with ok sets show ?thesis unfolding space_ok_def by blast
  next
    case (Some f)
    with x look bt_get_iff [OF wf, of v f] sets show ?thesis by (intro exI [of _ st] exI [of _ n]) auto
  qed
  have ok': "space_ok a ph ?s" unfolding space_ok_def using ai(1) aold anew cov sets by auto
  have "\<forall>k \<in> fst ` set (frames ?ar). vs_pt s k = None" using keys out by auto
  from area_map_lookup(2) [OF wf this] have rf: "refs ?pt f = refs (vs_pt s) f + count_list (map snd (frames ?ar)) f" for f .
  have "push_area a alloc ?ar None s ph = Some (?s, ph)" using ins same rv by (simp add: push_area_def)
  with ok' rf ai(2) show ?thesis by (intro exI [of _ ?s]) simp
qed

end
