(* ===== verification/Vm_Syscall.thy ===== *)
theory Vm_Syscall
  imports Vm_Unmap
begin

text \<open>
  The memory system calls of \<^verbatim>\<open>os/src/syscall/mm.rs\<close> and \<^verbatim>\<open>sys_brk\<close> of
  \<^verbatim>\<open>os/src/syscall/process.rs\<close>. What the file descriptor table answers for a descriptor and what
  the shared memory manager answers for a new segment are arguments. An area that a call
  takes out of the space and does not put back is dropped at its end. The loops of
  \<^verbatim>\<open>munmap\<close> and \<^verbatim>\<open>mprotect\<close> take a number of rounds; \<open>Some None\<close> is a loop that has not ended.
\<close>

section \<open>Flags\<close>

definition MAP_SHARED :: "32 word" where "MAP_SHARED = 0x01"
definition MAP_PRIVATE :: "32 word" where "MAP_PRIVATE = 0x02"
definition MAP_TYPE_MASK :: "32 word" where "MAP_TYPE_MASK = 0x03"
definition MAP_FIXED :: "32 word" where "MAP_FIXED = 0x10"
definition MAP_ANONYMOUS :: "32 word" where "MAP_ANONYMOUS = 0x20"
definition MAP_NORESERVE :: "32 word" where "MAP_NORESERVE = 0x4000"

definition mmap_flags_truncate :: "32 word \<Rightarrow> 32 word" where
  "mmap_flags_truncate w = w AND (MAP_TYPE_MASK OR MAP_FIXED OR MAP_ANONYMOUS OR MAP_NORESERVE)"

definition has_flag :: "32 word \<Rightarrow> 32 word \<Rightarrow> bool" where
  "has_flag w f \<longleftrightarrow> w AND f = f"

definition perm_of_prot :: "32 word \<Rightarrow> map_perm" where
  "perm_of_prot prot = \<lparr>perm_r = has_flag prot 1, perm_w = has_flag prot 2, perm_x = has_flag prot 4, perm_u = True\<rparr>"

definition MREMAP_MAYMOVE :: "32 word" where "MREMAP_MAYMOVE = 1"
definition MREMAP_FIXED :: "32 word" where "MREMAP_FIXED = 2"
definition MREMAP_DONTUNMAP :: "32 word" where "MREMAP_DONTUNMAP = 4"

definition mremap_from_bits :: "32 word \<Rightarrow> 32 word option" where
  "mremap_from_bits w = (if w AND NOT 7 = 0 then Some w else None)"

section \<open>System calls\<close>

type_synonym vm_result = "((sys_error + usize) \<times> vm_space \<times> phys) option"

definition sys_brk :: "arch \<Rightarrow> virt_addr \<Rightarrow> vm_space \<Rightarrow> phys \<Rightarrow> vm_result" where
  "sys_brk a addr s ph = do {
     (brk, s, ph) \<leftarrow> reset_heap_break a addr s ph;
     Some (Inr brk, s, ph) }"

definition sys_mmap ::
  "arch \<Rightarrow> (usize \<Rightarrow> sys_error + nat) \<Rightarrow> usize option \<Rightarrow> virt_addr \<Rightarrow> usize \<Rightarrow> 32 word \<Rightarrow> 32 word \<Rightarrow> usize \<Rightarrow>
     usize \<Rightarrow> vm_space \<Rightarrow> phys \<Rightarrow> vm_result" where
  "sys_mmap a get_file new_shm addr len prot flags fd offset s ph =
     (let flags = mmap_flags_truncate flags;
          perm = perm_of_prot prot;
          fixed = has_flag flags MAP_FIXED;
          shared = has_flag flags MAP_SHARED
      in if len = 0 then Some (Inl EINVAL, s, ph)
         else if addr = 0 \<and> fixed then Some (Inl EINVAL, s, ph)
         else if offset mod PAGE_SIZE \<noteq> 0 then Some (Inl EINVAL, s, ph)
         else do {
           (r, s, ph) \<leftarrow>
             (if fixed then do {
                (r, s) \<leftarrow> space_unmap a addr len s;
                (case r of
                   Inl e \<Rightarrow> Some (Inl e, s, ph)
                 | Inr vma \<Rightarrow> Some (Inr (), s, area_drop vma ph)) }
              else Some (Inr (), s, ph));
           (case r of
              Inl e \<Rightarrow> Some (Inl e, s, ph)
            | Inr _ \<Rightarrow>
                if flags AND MAP_TYPE_MASK = MAP_SHARED then
                  (if has_flag flags MAP_ANONYMOUS then alloc_anon_area a addr len perm fixed shared new_shm s ph
                   else (case get_file fd of
                           Inl e \<Rightarrow> Some (Inl e, s, ph)
                         | Inr file \<Rightarrow> alloc_mmap_area a addr len perm fixed shared file offset s ph))
                else if flags AND MAP_TYPE_MASK = MAP_PRIVATE then
                  (if has_flag flags MAP_ANONYMOUS then alloc_anon_area a addr len perm fixed shared None s ph
                   else (case get_file fd of
                           Inl e \<Rightarrow> Some (Inl e, s, ph)
                         | Inr file \<Rightarrow> alloc_mmap_area a addr len perm fixed shared file offset s ph))
                else Some (Inl EINVAL, s, ph)) })"

fun munmap_loop ::
  "arch \<Rightarrow> nat \<Rightarrow> virt_page_num \<Rightarrow> virt_page_num \<Rightarrow> usize \<Rightarrow> vm_space \<Rightarrow> phys \<Rightarrow> (vm_space \<times> phys) option option" where
  "munmap_loop a 0 cur_vpn end_vpn len s ph = Some None"
| "munmap_loop a (Suc n) cur_vpn end_vpn len s ph =
     (if \<not> cur_vpn < end_vpn then Some (Some (s, ph))
      else do {
        (r, s) \<leftarrow> space_unmap a (vpn_start_addr a cur_vpn) len s;
        (case r of
           Inl _ \<Rightarrow> Some (Some (s, ph))
         | Inr vma \<Rightarrow>
             let new_vpn = snd (range_vpn a vma)
             in munmap_loop a n new_vpn end_vpn (len - push_bit PAGE_SIZE_BITS (new_vpn - cur_vpn)) s (area_drop vma ph)) })"

definition sys_munmap ::
  "arch \<Rightarrow> nat \<Rightarrow> virt_addr \<Rightarrow> usize \<Rightarrow> vm_space \<Rightarrow> phys \<Rightarrow> ((sys_error + usize) \<times> vm_space \<times> phys) option option" where
  "sys_munmap a rounds addr len s ph =
     (if len = 0 then Some (Some (Inr 0, s, ph))
      else do {
        let len = page_up len;
        r \<leftarrow> munmap_loop a rounds (va_floor a addr) (va_ceil a (va_add a addr len)) len s ph;
        Some (map_option (\<lambda>(s, ph). (Inr 0, s, ph)) r) })"

fun mprotect_loop ::
  "arch \<Rightarrow> nat \<Rightarrow> map_perm \<Rightarrow> virt_page_num \<Rightarrow> virt_page_num \<Rightarrow> usize \<Rightarrow> vm_space \<Rightarrow> phys \<Rightarrow>
     (vm_space \<times> phys) option option" where
  "mprotect_loop a 0 perm cur_vpn end_vpn len s ph = Some None"
| "mprotect_loop a (Suc n) perm cur_vpn end_vpn len s ph =
     (if \<not> cur_vpn < end_vpn then Some (Some (s, ph))
      else do {
        (r, s) \<leftarrow> space_unmap a (vpn_start_addr a cur_vpn) len s;
        (case r of
           Inl _ \<Rightarrow> Some (Some (s, ph))
         | Inr vma \<Rightarrow> do {
             let new_vpn = snd (range_vpn a vma);
             (s, ph) \<leftarrow> push_area a no_alloc (vma\<lparr>area_perm := perm\<rparr>) None s ph;
             mprotect_loop a n perm new_vpn end_vpn (len - push_bit PAGE_SIZE_BITS (new_vpn - cur_vpn)) s ph }) })"

definition sys_mprotect ::
  "arch \<Rightarrow> nat \<Rightarrow> virt_addr \<Rightarrow> usize \<Rightarrow> 32 word \<Rightarrow> vm_space \<Rightarrow> phys \<Rightarrow>
     ((sys_error + usize) \<times> vm_space \<times> phys) option option" where
  "sys_mprotect a rounds addr len prot s ph =
     (if page_offset addr \<noteq> 0 \<or> len = 0 \<or> len mod PAGE_SIZE \<noteq> 0 then Some (Some (Inl EINVAL, s, ph))
      else do {
        r \<leftarrow> mprotect_loop a rounds (perm_of_prot prot) (va_floor a addr) (va_ceil a (va_add a addr len)) len s ph;
        Some (map_option (\<lambda>(s, ph). (Inr 0, s, ph)) r) })"

definition mremap_round :: "usize \<Rightarrow> usize" where
  "mremap_round n = (n - 1 + PAGE_SIZE) AND NOT PAGE_SIZE"

definition area_mmap_flags :: "vm_area \<Rightarrow> 32 word" where
  "area_mmap_flags ar =
     (if map_shared ar then MAP_SHARED else MAP_PRIVATE) OR (if \<not> file_is_file (vm_file ar) then MAP_ANONYMOUS else 0)"

definition mremap_in_place ::
  "arch \<Rightarrow> virt_addr \<Rightarrow> usize \<Rightarrow> (vm_area \<Rightarrow> phys \<Rightarrow> vm_area \<times> phys) \<Rightarrow> vm_space \<Rightarrow> phys \<Rightarrow> vm_result" where
  "mremap_in_place a old_addr old_size resize s ph = do {
     (r, s) \<leftarrow> space_unmap a old_addr old_size s;
     (case r of
        Inl e \<Rightarrow> Some (Inl e, s, ph)
      | Inr old_area \<Rightarrow> do {
          let (old_area, ph) = resize old_area ph;
          (s, ph) \<leftarrow> push_area a no_alloc old_area None s ph;
          Some (Inr old_size, s, ph) }) }"

definition mremap_move ::
  "arch \<Rightarrow> vm_area \<Rightarrow> virt_addr \<Rightarrow> usize \<Rightarrow> usize \<Rightarrow> virt_addr \<Rightarrow> bool \<Rightarrow> vm_space \<Rightarrow> phys \<Rightarrow> vm_result" where
  "mremap_move a view old_addr old_size new_size new_addr dontunmap s ph = do {
     (r, s, ph) \<leftarrow>
       (case vm_file view of
          FileOf file \<Rightarrow> alloc_mmap_area a new_addr new_size (area_perm view) False (map_shared view) file 0 s ph
        | ShmOf shm \<Rightarrow> alloc_anon_area a new_addr new_size (area_perm view) False (map_shared view) (Some shm) s ph
        | NoFile \<Rightarrow> do {
            assert_that (\<not> map_shared view);
            alloc_anon_area a new_addr new_size (area_perm view) False (map_shared view) None s ph });
     (case r of
        Inl e \<Rightarrow> Some (Inl e, s, ph)
      | Inr new_addr \<Rightarrow> do {
          (r, s) \<leftarrow> space_unmap a new_addr new_size s;
          (case r of
             Inl _ \<Rightarrow> panic
           | Inr new_area \<Rightarrow> do {
               (r, s) \<leftarrow> space_unmap a old_addr old_size s;
               (case r of
                  Inl e \<Rightarrow> Some (Inl e, s, area_drop new_area ph)
                | Inr old_area \<Rightarrow> do {
                    let (old_area, new_area, ph) = move_frames_to a old_area new_area ph;
                    (s, ph) \<leftarrow> push_area a no_alloc new_area None s ph;
                    (s, ph) \<leftarrow> (if dontunmap then push_area a no_alloc old_area None s ph else Some (s, ph));
                    Some (Inr new_addr, s, ph) }) }) }) }"

definition sys_mremap ::
  "arch \<Rightarrow> virt_addr \<Rightarrow> usize \<Rightarrow> usize \<Rightarrow> 32 word \<Rightarrow> usize \<Rightarrow> vm_space \<Rightarrow> phys \<Rightarrow> vm_result" where
  "sys_mremap a old_addr old_size new_size flags new_address s ph =
     (if page_offset old_addr \<noteq> 0 then Some (Inl EINVAL, s, ph)
      else
        let old_size = mremap_round old_size; new_size = mremap_round new_size
        in case mremap_from_bits flags of
             None \<Rightarrow> Some (Inl EINVAL, s, ph)
           | Some flags \<Rightarrow>
               if (has_flag flags MREMAP_FIXED \<or> has_flag flags MREMAP_DONTUNMAP) \<and> \<not> has_flag flags MREMAP_MAYMOVE
               then Some (Inl EINVAL, s, ph)
               else
                 (case get_area_ref a old_addr s of
                    None \<Rightarrow> Some (Inl EINVAL, s, ph)
                  | Some view \<Rightarrow>
                      if snd (range_va view) - old_addr < old_size then Some (Inl EINVAL, s, ph)
                      else if vma_type view \<noteq> VMmap then Some (Inl EINVAL, s, ph)
                      else if has_flag flags MREMAP_DONTUNMAP \<and>
                        \<not> has_flag (area_mmap_flags view) (MAP_PRIVATE OR MAP_ANONYMOUS) then Some (Inl EINVAL, s, ph)
                      else if (flags = 0 \<or> flags = MREMAP_MAYMOVE) \<and> old_size \<ge> new_size then
                        mremap_in_place a old_addr old_size (area_shrink a (old_size - new_size)) s ph
                      else if (flags = 0 \<or> flags = MREMAP_MAYMOVE) \<and>
                        check_free a (va_add a old_addr old_size) (new_size - old_size) s = Inr () then
                        mremap_in_place a old_addr old_size (\<lambda>ar ph. (area_extend a (new_size - old_size) ar, ph)) s ph
                      else if flags = 0 then Some (Inl ENOMEM, s, ph)
                      else if has_flag flags MREMAP_FIXED then
                        (case check_free a (va_from a new_address) new_size s of
                           Inl _ \<Rightarrow> Some (Inl ENOMEM, s, ph)
                         | Inr _ \<Rightarrow> mremap_move a view old_addr old_size new_size (va_from a new_address)
                             (has_flag flags MREMAP_DONTUNMAP) s ph)
                      else mremap_move a view old_addr old_size new_size 0 (has_flag flags MREMAP_DONTUNMAP) s ph))"

section \<open>Page ranges\<close>

lemma push_bit_12: "push_bit 12 x = x * (4096 :: usize)"
  by (simp add: push_bit_eq_mult)

lemma range_add: "user_vpn a lo \<Longrightarrow> va_add a (vpn_start_addr a lo) (push_bit 12 (hi - lo)) = vpn_start_addr a hi"
proof -
  assume u: "user_vpn a lo"
  have "unat lo * 4096 < 2 ^ 64" using u unfolding user_vpn_def user_stack_top by (cases a) simp_all
  then have "unat (push_bit 12 lo) = unat lo * 4096" by (simp add: push_bit_12 unat_word_ariths)
  then have "vpn_start_addr a lo = push_bit 12 lo" using user_start_addr(1) [OF u] by (simp add: word_unat_eq_iff)
  then have "vpn_start_addr a lo + push_bit 12 (hi - lo) = push_bit 12 hi" by (simp add: push_bit_12 algebra_simps)
  then show ?thesis by (simp add: va_add_def vpn_start_addr_def PAGE_SIZE_BITS_def)
qed

lemma covered_step:
  assumes "covered K s ph" "local_step a K s ph [t] ph'"
  shows "covered K t ph'"
  unfolding covered_def
proof
  fix f
  have "ph_owners ph' f + refs (vs_pt s) f = ph_owners ph f + refs (vs_pt t) f"
    using assms(2) by (simp add: local_step_def)
  moreover have "refs (vs_pt s) f + (if f \<in> K then 1 else 0) \<le> ph_owners ph f" using assms(1) by (simp add: covered_def)
  ultimately show "refs (vs_pt t) f + (if f \<in> K then 1 else 0) \<le> ph_owners ph' f" by linarith
qed

lemma unmappedD:
  assumes "unmapped a ph s lo e mid s'"
  shows "vs_pt s' v = (if lo \<le> v \<and> v < e then None else vs_pt s v)"
    "page_attr (vs_areas s') k = (if lo \<le> k \<and> k < e then None else page_attr (vs_areas s) k)"
    "range_vpn a mid = (lo, e)" "area_geom a lo \<lparr>node_end = e, node_value = mid\<rparr>" "space_ok a ph s'"
    "lo \<le> k \<Longrightarrow> k < e \<Longrightarrow> page_attr (vs_areas s) k = None \<or>
      page_attr (vs_areas s) k = Some (area_perm mid, map_shared mid, vma_type mid, vm_file mid)"
  using assms unfolding unmapped_def area_geom_def area_shape_def by (blast, blast, simp, simp, blast, simp)

lemma local_step_regroup: "space_ok a ph (s\<lparr>vs_areas := m\<rparr>) \<Longrightarrow> local_step a K s ph [s\<lparr>vs_areas := m\<rparr>] ph"
  by (simp add: local_step_def)

section \<open>munmap\<close>

lemma munmap_loop_ok:
  assumes "space_ok a ph s" "covered K s ph" "user_vpn a hi" "lo \<le> hi" "unat hi - unat lo < n"
  shows "\<exists>s' ph'. munmap_loop a n lo hi (push_bit 12 (hi - lo)) s ph = Some (Some (s', ph')) \<and>
    local_step a K s ph [s'] ph' \<and> (\<forall>v. vs_pt s' v = (if lo \<le> v \<and> v < hi then None else vs_pt s v)) \<and>
    (\<forall>k. page_attr (vs_areas s') k = (if lo \<le> k \<and> k < hi then None else page_attr (vs_areas s) k)) \<and>
    ph_data ph' = ph_data ph"
  using assms
proof (induction n arbitrary: lo s ph)
  case (Suc n)
  show ?case
  proof (cases "lo < hi")
    case False
    with Suc.prems(4) have "lo = hi" by simp
    then show ?thesis using local_step_refl [OF Suc.prems(1)] by (auto simp: not_less)
  next
    case True
    have ul: "user_vpn a lo" by (rule user_vpn_le [OF Suc.prems(4,3)])
    let ?va = "vpn_start_addr a lo" and ?len = "push_bit 12 (hi - lo)"
    have fl: "va_floor a ?va = lo" "va_ceil a (va_add a ?va ?len) = hi"
      using user_start_addr(3) [OF ul] range_add [OF ul, of hi] user_start_addr(4) [OF Suc.prems(3)] by simp_all
    from space_unmap_spec [OF Suc.prems(1), of ?va ?len, unfolded fl, OF True] show ?thesis
    proof (elim disjE exE conjE)
      fix m' assume m': "space_unmap a ?va ?len s = Some (Inl EINVAL, s\<lparr>vs_areas := m'\<rparr>)" "space_ok a ph (s\<lparr>vs_areas := m'\<rparr>)"
        "\<forall>k. page_attr m' k = page_attr (vs_areas s) k" "\<forall>k. lo \<le> k \<longrightarrow> k < hi \<longrightarrow> page_attr (vs_areas s) k = None"
      have "munmap_loop a (Suc n) lo hi ?len s ph = Some (Some (s\<lparr>vs_areas := m'\<rparr>, ph))" using True m'(1) by simp
      moreover have "vs_pt s v = None" if "lo \<le> v" "v < hi" for v
        using space_ok_attr [OF Suc.prems(1)] m'(4) that by blast
      ultimately show ?thesis using local_step_regroup [OF m'(2)] m'(3,4)
        by (intro exI [of _ "s\<lparr>vs_areas := m'\<rparr>"] exI [of _ ph]) simp
    next
      fix mid s1 e k assume u: "space_unmap a ?va ?len s = Some (Inr mid, s1)" "lo < e" "e \<le> hi" "unmapped a ph s lo e mid s1"
      let ?ph = "area_drop mid ph"
      have st: "local_step a K s ph [s1] ?ph" by (rule drop_local(1) [OF Suc.prems(1,2) u(4)])
      have ok1: "space_ok a ?ph s1" using st by (simp add: local_step_def)
      have lt: "unat hi - unat e < n" using u(2,3) Suc.prems(5) unfolding word_less_nat_alt word_le_nat_alt by linarith
      from Suc.IH [OF ok1 covered_step [OF Suc.prems(2) st] Suc.prems(3) u(3) lt] obtain s' ph' where
        IH: "munmap_loop a n e hi (push_bit 12 (hi - e)) s1 ?ph = Some (Some (s', ph'))"
        "local_step a K s1 ?ph [s'] ph'" "\<And>v. vs_pt s' v = (if e \<le> v \<and> v < hi then None else vs_pt s1 v)"
        "\<And>k. page_attr (vs_areas s') k = (if e \<le> k \<and> k < hi then None else page_attr (vs_areas s1) k)"
        "ph_data ph' = ph_data ?ph" by blast
      have re: "snd (range_vpn a mid) = e" using unmappedD(3) [OF u(4)] by simp
      have len: "?len - push_bit 12 (e - lo) = push_bit 12 (hi - e)" by (simp add: push_bit_12 algebra_simps)
      have "munmap_loop a (Suc n) lo hi ?len s ph = Some (Some (s', ph'))"
        using True u(1) IH(1) re len by (simp add: Let_def PAGE_SIZE_BITS_def)
      moreover have in_range: "lo \<le> v \<and> v < hi \<longleftrightarrow> e \<le> v \<and> v < hi \<or> lo \<le> v \<and> v < e" for v
        using u(2,3) by (auto simp: not_less intro: less_imp_le less_le_trans order_trans)
      have "vs_pt s' v = (if lo \<le> v \<and> v < hi then None else vs_pt s v)" for v
        using IH(3) [of v] unmappedD(1) [OF u(4), of v] in_range [of v] by simp
      moreover have "page_attr (vs_areas s') v = (if lo \<le> v \<and> v < hi then None else page_attr (vs_areas s) v)" for v
        using IH(4) [of v] unmappedD(2) [OF u(4), of v] in_range [of v] by simp
      ultimately show ?thesis using local_step_trans [OF st IH(2)] IH(5) drop_owners(2) by metis
    qed
  qed
qed simp

lemma unat_push_12: "unat x * 4096 < 2 ^ 64 \<Longrightarrow> unat (push_bit 12 x :: usize) = unat x * 4096"
  by (simp add: push_bit_12 unat_word_ariths)

lemma va_from_user: "unat x \<le> unat (USER_STACK_TOP a) \<Longrightarrow> va_from a x = x"
proof -
  assume "unat x \<le> unat (USER_STACK_TOP a)"
  then have x: "unat x < 2 ^ (VA_WIDTH a - 1)" unfolding user_stack_top by (cases a) simp_all
  have hi: "\<not> bit x k" if "VA_WIDTH a - 1 \<le> k" for k using high_bit_clear [OF x that] .
  show ?thesis
  proof (rule bit_eqI)
    fix k
    show "bit (va_from a x) k \<longleftrightarrow> bit x k"
      using hi [of k] hi [of "VA_WIDTH a - 1"] arch_widths [of a] bit64 [of x k] by (auto simp: bit_va_from)
  qed
qed

lemma unat_page_up:
  assumes "n \<noteq> 0" "unat n \<le> 2 ^ 63"
  shows "unat (page_up n) = (unat n + 4095) div 4096 * 4096"
proof -
  have "unat (n - 1 + PAGE_SIZE) = unat n + 4095"
  proof -
    have "1 \<le> unat n" using assms(1) by (metis One_nat_def Suc_leI unat_eq_0 neq0_conv)
    then have "unat (n - 1) = unat n - 1" by (simp add: unat_minus_one assms(1))
    with \<open>1 \<le> unat n\<close> assms(2) show ?thesis by (simp add: unat_word_ariths PAGE_SIZE_def)
  qed
  moreover have "x AND NOT (PAGE_SIZE - 1) = push_bit 12 (drop_bit 12 x)" for x :: usize
  proof -
    have "PAGE_SIZE - 1 = (mask 12 :: usize)" by (simp add: PAGE_SIZE_def mask_eq_exp_minus_1)
    then show ?thesis by (intro bit_eqI) (auto simp: bit_simps)
  qed
  moreover have "unat (push_bit 12 (drop_bit 12 x)) = unat x div 4096 * 4096" for x :: usize
  proof -
    have "unat x div 4096 * 4096 < 2 ^ 64" using unsigned_less [of x, where ?'a = nat] by simp
    then show ?thesis by (simp add: push_bit_12 unat_word_ariths unat_drop_bit)
  qed
  ultimately show ?thesis by (simp add: page_up_def)
qed

lemma unat_page_offset: "unat (page_offset va) = unat va mod 4096"
  unfolding page_offset_def shift_one_mask unat_and_mask by (simp add: PAGE_SIZE_BITS_def)

lemma ceil_page_le:
  assumes "(x :: nat) \<le> t" "t mod 4096 = 0"
  shows "(x + 4095) div 4096 * 4096 \<le> t"
proof -
  obtain q where q: "t = 4096 * q" using assms(2) by (metis dvd_def mod_0_imp_dvd)
  have "(x + 4095) div 4096 \<le> (4096 * q + 4095) div 4096" by (rule div_le_mono) (use assms(1) q in simp)
  also have "\<dots> = q" by simp
  finally show ?thesis using q by simp
qed

lemma ceil_page_diff:
  assumes "(x :: nat) mod 4096 = 0"
  shows "(x + y + 4095) div 4096 - x div 4096 = (y + 4095) div 4096" "x div 4096 * 4096 = x"
proof -
  obtain q where q: "x = 4096 * q" using assms by (metis dvd_def mod_0_imp_dvd)
  have "(4096 * q + y + 4095) div 4096 = (4096 * q + (y + 4095)) div 4096" by (simp add: ac_simps)
  also have "\<dots> = q + (y + 4095) div 4096" by (rule div_mult_self4) simp
  finally show "(x + y + 4095) div 4096 - x div 4096 = (y + 4095) div 4096" using q by simp
  show "x div 4096 * 4096 = x" using q by simp
qed

lemma addr_range:
  fixes a addr len
  assumes len: "len \<noteq> 0" and al: "page_offset addr = 0" and top: "unat addr + unat len \<le> unat (USER_STACK_TOP a)"
  defines "lo \<equiv> va_floor a addr" and "hi \<equiv> va_ceil a (va_add a addr len)"
  shows "user_vpn a hi" "lo < hi" "vpn_start_addr a lo = addr" "page_up len = push_bit 12 (hi - lo)"
    "va_ceil a (va_add a addr (page_up len)) = hi" "unat lo = unat addr div 4096"
    "unat hi = (unat addr + unat len + 4095) div 4096"
proof -
  have t: "unat (USER_STACK_TOP a) \<le> 2 ^ 47" "2 ^ VPN_WIDTH a * 2048 = unat (USER_STACK_TOP a) + 4096"
    "unat (USER_STACK_TOP a) mod 4096 = 0"
    unfolding user_stack_top by (cases a; simp add: VPN_WIDTH_def PAGE_SIZE_BITS_def)+
  have md: "unat addr mod 4096 = 0" using al unat_page_offset [of addr] by simp
  have sum: "unat (addr + len) = unat addr + unat len" using top t(1) by (simp add: unat_word_ariths)
  have va: "va_add a addr len = addr + len" unfolding va_add_def by (rule va_from_user) (use sum top in simp)
  show lo: "unat lo = unat addr div 4096" unfolding lo_def unat_va_floor
    by (rule mod_less) (use top t(2) in simp)
  have "unat (addr + len) \<le> 2 ^ 64 - 4096" using sum top t(1) by simp
  from unat_va_ceil [OF this, of a] have "unat hi = (unat addr + unat len + 4095) div 4096 mod 2 ^ VPN_WIDTH a"
    unfolding hi_def va sum .
  also have "\<dots> = (unat addr + unat len + 4095) div 4096" by (rule mod_less) (use top t(2) in simp)
  finally show hi: "unat hi = (unat addr + unat len + 4095) div 4096" .
  show uh: "user_vpn a hi" unfolding user_vpn_def hi by (rule ceil_page_le [OF top t(3)])
  have lp: "0 < unat len" using len by (simp add: unat_gt_0)
  show lt: "lo < hi" unfolding word_less_nat_alt lo hi using lp by simp
  have "user_vpn a lo" by (rule user_vpn_le [OF _ uh]) (use lt in simp)
  from user_start_addr(1) [OF this] show sa: "vpn_start_addr a lo = addr"
    unfolding word_unat_eq_iff lo ceil_page_diff(2) [OF md] .
  have pu: "unat (page_up len) = (unat len + 4095) div 4096 * 4096"
    by (rule unat_page_up [OF len]) (use top t(1) in simp)
  have "unat (hi - lo) = unat hi - unat lo" by (rule unat_sub) (use lt in simp)
  also have "\<dots> = (unat len + 4095) div 4096" unfolding hi lo by (rule ceil_page_diff(1) [OF md])
  finally have d: "unat (hi - lo) = (unat len + 4095) div 4096" .
  have "unat (push_bit 12 (hi - lo)) = (unat len + 4095) div 4096 * 4096"
    using unat_push_12 [of "hi - lo"] d top t(1) by simp
  then show pe: "page_up len = push_bit 12 (hi - lo)" unfolding word_unat_eq_iff pu by simp
  show "va_ceil a (va_add a addr (page_up len)) = hi"
    using range_add [of a lo hi] \<open>user_vpn a lo\<close> user_start_addr(4) [OF uh] unfolding pe sa by simp
qed

lemma munmap_spec:
  assumes ok: "space_ok a ph s" and cov: "covered K s ph" and len: "len \<noteq> 0" and al: "page_offset addr = 0"
    and top: "unat addr + unat len \<le> unat (USER_STACK_TOP a)" and n: "unat len div 4096 + 2 \<le> rounds"
  shows "\<exists>s' ph'. sys_munmap a rounds addr len s ph = Some (Some (Inr 0, s', ph')) \<and> local_step a K s ph [s'] ph' \<and>
    (\<forall>v. vs_pt s' v = (if va_floor a addr \<le> v \<and> v < va_ceil a (va_add a addr len) then None else vs_pt s v)) \<and>
    (\<forall>k. page_attr (vs_areas s') k =
      (if va_floor a addr \<le> k \<and> k < va_ceil a (va_add a addr len) then None else page_attr (vs_areas s) k)) \<and>
    ph_data ph' = ph_data ph"
proof -
  note ar = addr_range [OF len al top]
  have "unat (va_ceil a (va_add a addr len)) - unat (va_floor a addr) < rounds"
  proof -
    have "unat addr mod 4096 = 0" using al unat_page_offset [of addr] by simp
    from ceil_page_diff(1) [OF this, of "unat len"] div_le_mono [of "unat len + 4095" "unat len + 4096" 4096] n
    show ?thesis unfolding ar(6,7) by simp
  qed
  from munmap_loop_ok [OF ok cov ar(1) less_imp_le [OF ar(2)] this] ar(4,5) len show ?thesis
    by (auto simp: sys_munmap_def)
qed

section \<open>mprotect\<close>

definition prot_attr ::
  "map_perm \<Rightarrow> (map_perm \<times> bool \<times> user_area_type \<times> user_vm_file) option \<Rightarrow>
     (map_perm \<times> bool \<times> user_area_type \<times> user_vm_file) option" where
  "prot_attr perm x = map_option (\<lambda>(_, sh, ty, fl). (perm, sh, ty, fl)) x"

lemma reprotect:
  assumes ok: "space_ok a ph s" and cov: "covered K s ph" and un: "unmapped a ph s lo e mid s1" and lt: "lo < e"
  shows "\<exists>s2. push_area a no_alloc (mid\<lparr>area_perm := perm\<rparr>) None s1 ph = Some (s2, ph) \<and> local_step a K s ph [s2] ph \<and>
    (\<forall>v. map_option v_ppn (vs_pt s2 v) = map_option v_ppn (vs_pt s v)) \<and>
    (\<forall>k. lo \<le> k \<longrightarrow> k < e \<longrightarrow> page_attr (vs_areas s) k \<noteq> None \<longrightarrow>
      page_attr (vs_areas s2) k = prot_attr perm (page_attr (vs_areas s) k)) \<and>
    (\<forall>k. k < lo \<or> e \<le> k \<longrightarrow> page_attr (vs_areas s2) k = page_attr (vs_areas s) k)"
proof -
  note u = un [unfolded unmapped_def] and ud = unmappedD [OF un]
  let ?ar = "mid\<lparr>area_perm := perm\<rparr>"
  let ?n = "\<lparr>node_end = e, node_value = ?ar\<rparr>"
  have wf: "bt_wf (frames mid)" using ud(4) by (simp add: area_geom_def area_shape_def)
  have fr: "\<forall>v f. (v, f) \<in> set (frames mid) \<longrightarrow> (\<exists>x. vs_pt s v = Some x \<and> v_ppn x = f)" using u by blast
  have g: "area_geom a lo ?n" using ud(4) by (simp add: area_geom_def area_shape_def range_vpn_def)
  have own: "\<forall>v f. (v, f) \<in> set (frames (node_value ?n)) \<longrightarrow> 0 < ph_owners ph f"
    using fr covered_refs [OF cov] by fastforce
  have free: "\<forall>k. lo \<le> k \<longrightarrow> k < node_end ?n \<longrightarrow> page_attr (vs_areas s1) k = None" using ud(2) by simp
  from push_area_ok [OF ud(5) g _ free own, of no_alloc] lt obtain s2 where
    p: "push_area a no_alloc ?ar None s1 ph = Some (s2, ph)" "space_ok a ph s2" "vs_pt s2 = area_map ?ar ph (vs_pt s1)"
    "\<And>f. refs (vs_pt s2) f = refs (vs_pt s1) f + count_list (map snd (frames mid)) f"
    "\<And>k. rm_abs (vs_areas s2) k = (if lo \<le> k \<and> k < e then Some ?ar else rm_abs (vs_areas s1) k)" by auto
  have pt1: "vs_pt s1 = (\<lambda>v. if v \<in> fst ` set (frames mid) then None else vs_pt s v)" using u by (simp add: area_unmap_eq)
  have "refs (vs_pt s2) f = refs (vs_pt s) f" for f
    using refs_area_unmap [OF bt_wf_distinct [OF wf] fr, of f] p(4) [of f] unfolding pt1 [symmetric] by simp
  then have "local_step a K s ph [s2] ph" using p(2) by (simp add: local_step_def)
  moreover have "map_option v_ppn (vs_pt s2 v) = map_option v_ppn (vs_pt s v)" for v
  proof (cases "bt_get (frames mid) v")
    case None
    then have "v \<notin> fst ` set (frames mid)" by (force simp: bt_get_None)
    with None area_map_lookup(1) [of ?ar ph "vs_pt s1" v] wf show ?thesis unfolding p(3) pt1 by simp
  next
    case (Some f)
    then obtain x where "vs_pt s v = Some x" "v_ppn x = f" using fr bt_get_iff [OF wf] by blast
    with Some area_map_lookup(1) [of ?ar ph "vs_pt s1" v] wf show ?thesis unfolding p(3) by simp
  qed
  moreover have "page_attr (vs_areas s2) k = prot_attr perm (page_attr (vs_areas s) k)"
    if "lo \<le> k" "k < e" "page_attr (vs_areas s) k \<noteq> None" for k
  proof -
    from ud(6) [OF that(1,2)] that(3)
    have "page_attr (vs_areas s) k = Some (area_perm mid, map_shared mid, vma_type mid, vm_file mid)" by simp
    with p(5) [of k] that show ?thesis by (auto simp: page_attr_def prot_attr_def)
  qed
  moreover have "page_attr (vs_areas s2) k = page_attr (vs_areas s) k" if "k < lo \<or> e \<le> k" for k
    using p(5) [of k] ud(2) [of k] that by (auto simp: page_attr_def not_less)
  ultimately show ?thesis using p(1) by blast
qed

lemma mprotect_loop_ok:
  assumes "space_ok a ph s" "covered K s ph" "user_vpn a hi" "lo \<le> hi" "unat hi - unat lo < n"
  shows "\<exists>s'. mprotect_loop a n perm lo hi (push_bit 12 (hi - lo)) s ph = Some (Some (s', ph)) \<and>
    local_step a K s ph [s'] ph \<and> (\<forall>v. map_option v_ppn (vs_pt s' v) = map_option v_ppn (vs_pt s v)) \<and>
    (\<forall>k. lo \<le> k \<longrightarrow> k < hi \<longrightarrow> page_attr (vs_areas s) k \<noteq> None \<longrightarrow>
      page_attr (vs_areas s') k = prot_attr perm (page_attr (vs_areas s) k)) \<and>
    (\<forall>k. k < lo \<or> hi \<le> k \<longrightarrow> page_attr (vs_areas s') k = page_attr (vs_areas s) k)"
  using assms
proof (induction n arbitrary: lo s)
  case (Suc n)
  show ?case
  proof (cases "lo < hi")
    case False
    with Suc.prems(4) have "lo = hi" by simp
    then show ?thesis using local_step_refl [OF Suc.prems(1)] by (auto simp: not_less)
  next
    case True
    have ul: "user_vpn a lo" by (rule user_vpn_le [OF Suc.prems(4,3)])
    let ?va = "vpn_start_addr a lo" and ?len = "push_bit 12 (hi - lo)"
    have fl: "va_floor a ?va = lo" "va_ceil a (va_add a ?va ?len) = hi"
      using user_start_addr(3) [OF ul] range_add [OF ul, of hi] user_start_addr(4) [OF Suc.prems(3)] by simp_all
    from space_unmap_spec [OF Suc.prems(1), of ?va ?len, unfolded fl, OF True] show ?thesis
    proof (elim disjE exE conjE)
      fix m' assume m': "space_unmap a ?va ?len s = Some (Inl EINVAL, s\<lparr>vs_areas := m'\<rparr>)" "space_ok a ph (s\<lparr>vs_areas := m'\<rparr>)"
        "\<forall>k. page_attr m' k = page_attr (vs_areas s) k" "\<forall>k. lo \<le> k \<longrightarrow> k < hi \<longrightarrow> page_attr (vs_areas s) k = None"
      have "mprotect_loop a (Suc n) perm lo hi ?len s ph = Some (Some (s\<lparr>vs_areas := m'\<rparr>, ph))" using True m'(1) by simp
      with local_step_regroup [OF m'(2)] m'(3,4) show ?thesis by (intro exI [of _ "s\<lparr>vs_areas := m'\<rparr>"]) simp
    next
      fix mid s1 e k assume u: "space_unmap a ?va ?len s = Some (Inr mid, s1)" "lo < e" "e \<le> hi" "unmapped a ph s lo e mid s1"
      from reprotect [OF Suc.prems(1,2) u(4,2), of perm] obtain s2 where
        p: "push_area a no_alloc (mid\<lparr>area_perm := perm\<rparr>) None s1 ph = Some (s2, ph)" "local_step a K s ph [s2] ph"
        "\<And>v. map_option v_ppn (vs_pt s2 v) = map_option v_ppn (vs_pt s v)"
        "\<And>k. lo \<le> k \<Longrightarrow> k < e \<Longrightarrow> page_attr (vs_areas s) k \<noteq> None \<Longrightarrow>
          page_attr (vs_areas s2) k = prot_attr perm (page_attr (vs_areas s) k)"
        "\<And>k. k < lo \<or> e \<le> k \<Longrightarrow> page_attr (vs_areas s2) k = page_attr (vs_areas s) k" by blast
      have ok2: "space_ok a ph s2" using p(2) by (simp add: local_step_def)
      have lt: "unat hi - unat e < n" using u(2,3) Suc.prems(5) unfolding word_less_nat_alt word_le_nat_alt by linarith
      from Suc.IH [OF ok2 covered_step [OF Suc.prems(2) p(2)] Suc.prems(3) u(3) lt] obtain s' where
        IH: "mprotect_loop a n perm e hi (push_bit 12 (hi - e)) s2 ph = Some (Some (s', ph))" "local_step a K s2 ph [s'] ph"
        "\<And>v. map_option v_ppn (vs_pt s' v) = map_option v_ppn (vs_pt s2 v)"
        "\<And>k. e \<le> k \<Longrightarrow> k < hi \<Longrightarrow> page_attr (vs_areas s2) k \<noteq> None \<Longrightarrow>
          page_attr (vs_areas s') k = prot_attr perm (page_attr (vs_areas s2) k)"
        "\<And>k. k < e \<or> hi \<le> k \<Longrightarrow> page_attr (vs_areas s') k = page_attr (vs_areas s2) k" by blast
      have len: "?len - push_bit 12 (e - lo) = push_bit 12 (hi - e)" by (simp add: push_bit_12 algebra_simps)
      have "mprotect_loop a (Suc n) perm lo hi ?len s ph = Some (Some (s', ph))"
        using True u(1) IH(1) unmappedD(3) [OF u(4)] len p(1) by (simp add: Let_def PAGE_SIZE_BITS_def)
      moreover have "page_attr (vs_areas s') k = prot_attr perm (page_attr (vs_areas s) k)"
        if "lo \<le> k" "k < hi" "page_attr (vs_areas s) k \<noteq> None" for k
        using p(4,5) [of k] IH(4,5) [of k] that by (cases "k < e") (auto simp: not_less)
      moreover have "page_attr (vs_areas s') k = page_attr (vs_areas s) k" if "k < lo \<or> hi \<le> k" for k
      proof -
        have "k < e \<or> hi \<le> k" "k < lo \<or> e \<le> k" using that u(2,3) by auto
        with p(5) [of k] IH(5) [of k] show ?thesis by simp
      qed
      ultimately show ?thesis using local_step_trans [OF p(2) IH(2)] p(3) IH(3) by metis
    qed
  qed
qed simp

section \<open>mmap\<close>

abbreviation user_top_vpn :: "arch \<Rightarrow> virt_page_num" where
  "user_top_vpn a \<equiv> va_floor a (USER_STACK_TOP a)"

lemma unat_user_top: "unat (user_top_vpn a) = 2 ^ (VPN_WIDTH a - 1) - 1" "user_vpn a v \<longleftrightarrow> v \<le> user_top_vpn a"
proof -
  show t: "unat (user_top_vpn a) = 2 ^ (VPN_WIDTH a - 1) - 1"
    unfolding unat_va_floor user_stack_top by (cases a) (simp_all add: VPN_WIDTH_def PAGE_SIZE_BITS_def)
  show "user_vpn a v \<longleftrightarrow> v \<le> user_top_vpn a"
    unfolding user_vpn_def word_le_nat_alt t user_stack_top by (cases a) (auto simp: VPN_WIDTH_def PAGE_SIZE_BITS_def)
qed

lemma unat_vpn_add:
  assumes "v \<le> user_top_vpn a" "k \<le> 2 ^ (VPN_WIDTH a - 1)"
  shows "unat (vpn_add a v (of_nat k)) = unat v + k"
proof -
  have w: "(2::nat) ^ (VPN_WIDTH a - 1) + 2 ^ (VPN_WIDTH a - 1) = 2 ^ VPN_WIDTH a" "(2::nat) ^ VPN_WIDTH a \<le> 2 ^ 36"
    by (cases a; simp add: VPN_WIDTH_def PAGE_SIZE_BITS_def)+
  have lt: "unat v + k < 2 ^ VPN_WIDTH a"
    using assms w(1) unfolding word_le_nat_alt unat_user_top(1) by (simp add: le_diff_conv2)
  then have "unat (v + of_nat k) = unat v + k" using w(2) by (simp add: unat_word_ariths unat_of_nat)
  then show ?thesis using lt by (simp only: vpn_add_def vpn_from_def shift_one_mask unat_and_mask mod_less)
qed

lemma wrap_free_vpn:
  assumes "0 < k" "k \<le> 2 ^ (VPN_WIDTH a - 1)"
  shows "wrap_free (\<lambda>v n. vpn_add a v (of_nat n)) k (user_top_vpn a)"
  unfolding wrap_free_def
proof (intro conjI allI impI)
  fix x assume "x \<le> user_top_vpn a"
  then show "x < vpn_add a x (of_nat k)" using unat_vpn_add [OF _ assms(2)] assms(1) by (simp add: word_less_nat_alt)
next
  fix x y assume xy: "x \<le> y" "y \<le> user_top_vpn a"
  then have "x \<le> user_top_vpn a" by simp
  with xy show "vpn_add a x (of_nat k) \<le> vpn_add a y (of_nat k)"
    using unat_vpn_add [OF _ assms(2)] by (simp add: word_le_nat_alt)
qed

lemma choose_range_ok:
  assumes ok: "space_ok a ph s" and win: "lo \<le> hi" "unat hi \<le> unat (USER_STACK_TOP a)"
    and len: "0 < unat len div 4096" "unat len \<le> unat (USER_STACK_TOP a)"
  shows "\<exists>r. choose_range a False va len lo hi s = Some r \<and> (\<forall>e. r = Inl e \<longrightarrow> e = ENOMEM) \<and>
    (\<forall>rg. r = Inr rg \<longrightarrow> fst rg < snd rg \<and> user_vpn a (snd rg) \<and> unat (snd rg) = unat (fst rg) + unat len div 4096 \<and>
      va_floor a (va_from a lo) \<le> fst rg \<and> snd rg \<le> va_floor a (va_from a hi) \<and>
      (\<forall>k. fst rg \<le> k \<longrightarrow> k < snd rg \<longrightarrow> page_attr (vs_areas s) k = None))"
proof -
  let ?add = "\<lambda>v n. vpn_add a v (of_nat n)" and ?sz = "unat len div 4096"
  have inv: "rm_inv (vs_areas s)" using ok by (simp add: space_ok_def)
  have sz: "?sz \<le> 2 ^ (VPN_WIDTH a - 1)"
    using len(2) unfolding user_stack_top by (cases a) (simp_all add: VPN_WIDTH_def PAGE_SIZE_BITS_def)
  have fl: "va_from a lo = lo" "va_from a hi = hi"
    using va_from_user [of lo a] va_from_user [of hi a] win unfolding word_le_nat_alt by linarith+
  have small: "unat v div 4096 < 2 ^ VPN_WIDTH a" if "unat v \<le> unat (USER_STACK_TOP a)" for v :: usize
    using that unfolding user_stack_top by (cases a) (simp_all add: VPN_WIDTH_def PAGE_SIZE_BITS_def)
  have le: "va_floor a lo \<le> va_floor a hi" "va_floor a hi \<le> user_top_vpn a"
    using win small [of lo] small [of hi] small [of "USER_STACK_TOP a"]
    unfolding word_le_nat_alt unat_va_floor by (auto intro: div_le_mono)
  have ends: "\<forall>p \<in> set (vs_areas s). fst p < va_floor a hi \<longrightarrow> node_end (snd p) \<le> user_top_vpn a"
  proof (intro ballI impI)
    fix p assume "p \<in> set (vs_areas s)"
    with ok have "area_geom a (fst p) (snd p)" unfolding space_ok_def area_ok_iff by (metis prod.collapse)
    then have "user_vpn a (node_end (snd p))"
      using user_area_end(1) [of a "node_value (snd p)"] unfolding area_geom_def area_shape_def by blast
    then show "node_end (snd p) \<le> user_top_vpn a" by (simp add: unat_user_top(2))
  qed
  have div: "unat (len div PAGE_SIZE) = ?sz" by (simp add: unat_div PAGE_SIZE_def)
  from rm_find_free_range_spec [OF inv wrap_free_vpn [OF len(1) sz] le ends] obtain res where
    r: "rm_find_free_range ?add (va_floor a lo, va_floor a hi) ?sz (vs_areas s) = Some res"
    "case res of Some r \<Rightarrow> snd r = ?add (fst r) ?sz \<and> rm_fits ?add (va_floor a lo, va_floor a hi) ?sz (vs_areas s) (fst r)
      | None \<Rightarrow> True" by (auto split: option.splits)
  show ?thesis
  proof (cases res)
    case None
    with r show ?thesis by (simp add: choose_range_def fl div)
  next
    case (Some rg)
    with r(2) have f: "snd rg = ?add (fst rg) ?sz" "va_floor a lo \<le> fst rg" "fst rg \<le> va_floor a hi" "snd rg \<le> va_floor a hi"
      "\<not> rm_overlaps (fst rg, snd rg) (vs_areas s)" by (simp_all add: rm_fits_def)
    have top: "fst rg \<le> user_top_vpn a" using f(3) le(2) by simp
    have u: "unat (snd rg) = unat (fst rg) + ?sz" unfolding f(1) by (rule unat_vpn_add [OF top sz])
    then have lt: "fst rg < snd rg" using len(1) by (simp add: word_less_nat_alt)
    have "user_vpn a (snd rg)" using f(4) le(2) by (simp add: unat_user_top(2))
    moreover have "\<forall>k. fst rg \<le> k \<longrightarrow> k < snd rg \<longrightarrow> page_attr (vs_areas s) k = None"
      using f(5) unfolding rm_overlaps_abs [OF inv lt] by (auto simp: page_attr_def)
    ultimately show ?thesis using r(1) Some lt u f(2,4) by (cases rg) (simp add: choose_range_def fl div)
  qed
qed

lemma push_empty_area:
  assumes ok: "space_ok a ph s" and rg: "fst rg < snd rg" "user_vpn a (snd rg)"
    and free: "\<forall>k. fst rg \<le> k \<longrightarrow> k < snd rg \<longrightarrow> page_attr (vs_areas s) k = None"
    and ar: "range_va ar = (vpn_start_addr a (fst rg), vpn_start_addr a (snd rg))" "frames ar = []"
      "\<forall>i. vm_file ar = ShmOf i \<longrightarrow> map_shared ar"
  shows "\<exists>s'. push_area a no_alloc ar None s ph = Some (s', ph) \<and> local_step a K s ph [s'] ph \<and> vs_pt s' = vs_pt s \<and>
    (\<forall>k. page_attr (vs_areas s') k = (if fst rg \<le> k \<and> k < snd rg
       then Some (area_perm ar, map_shared ar, vma_type ar, vm_file ar) else page_attr (vs_areas s) k))"
proof -
  let ?n = "\<lparr>node_end = snd rg, node_value = ar\<rparr>"
  have ul: "user_vpn a (fst rg)" by (rule user_vpn_le [OF less_imp_le [OF rg(1)] rg(2)])
  have g: "area_geom a (fst rg) ?n"
    using ar user_start_addr(3) [OF ul] user_start_addr(2,4) [OF rg(2)]
    by (simp add: area_geom_def area_shape_def range_vpn_def)
  from push_area_ok [OF ok g _ _ _, of no_alloc] rg(1) free ar(2) obtain s' where
    p: "push_area a no_alloc ar None s ph = Some (s', ph)" "space_ok a ph s'" "vs_pt s' = area_map ar ph (vs_pt s)"
    "\<And>k. rm_abs (vs_areas s') k = (if fst rg \<le> k \<and> k < snd rg then Some ar else rm_abs (vs_areas s) k)" by auto
  have pt: "vs_pt s' = vs_pt s" using p(3) ar(2) by (simp add: area_map_def)
  have "local_step a K s ph [s'] ph" using p(2) pt by (simp add: local_step_def)
  with p(1,4) pt show ?thesis by (auto simp: page_attr_def)
qed

text \<open>
  What a call that places a new mapping of \<open>n\<close> pages promises: an error leaves the space as it was; an address
  is the start of \<open>n\<close> pages which were free, lie below the stack top and now carry the requested permission,
  while every other page keeps its area and no page-table entry changes.
\<close>

definition placed ::
  "arch \<Rightarrow> map_perm \<Rightarrow> nat \<Rightarrow> vm_space \<Rightarrow> phys \<Rightarrow> (sys_error + virt_addr) \<Rightarrow> vm_space \<Rightarrow> bool" where
  "placed a perm n s ph r s' \<longleftrightarrow>
     (\<forall>K. local_step a K s ph [s'] ph) \<and> vs_pt s' = vs_pt s \<and>
     (case r of
        Inl _ \<Rightarrow> s' = s
      | Inr p \<Rightarrow> \<exists>lo hi shared vf. p = vpn_start_addr a lo \<and> unat hi = unat lo + n \<and> user_vpn a hi \<and>
          (\<forall>k. lo \<le> k \<longrightarrow> k < hi \<longrightarrow> page_attr (vs_areas s) k = None) \<and>
          (\<forall>k. page_attr (vs_areas s') k =
             (if lo \<le> k \<and> k < hi then Some (perm, shared, VMmap, vf) else page_attr (vs_areas s) k)))"

lemma placed_refl [simp]: "space_ok a ph s \<Longrightarrow> placed a perm n s ph (Inl e) s"
  by (simp add: placed_def local_step_refl)

lemma mmap_windows:
  "USER_FILE_BEG a \<le> USER_FILE_END a" "unat (USER_FILE_END a) \<le> unat (USER_STACK_TOP a)"
  "USER_SHARE_BEG a \<le> USER_SHARE_END a" "unat (USER_SHARE_END a) \<le> unat (USER_STACK_TOP a)"
  by (cases a; simp add: const_defs)+

lemma page_up_len:
  assumes "len \<noteq> 0" "unat va mod 4096 + unat len \<le> unat (USER_STACK_TOP a)"
  defines "l \<equiv> page_up (page_offset va + len)"
  shows "unat l div 4096 = (unat va mod 4096 + unat len + 4095) div 4096" "0 < unat l div 4096"
    "unat l \<le> unat (USER_STACK_TOP a)"
proof -
  have t: "unat (USER_STACK_TOP a) \<le> 2 ^ 47" "unat (USER_STACK_TOP a) mod 4096 = 0"
    unfolding user_stack_top by (cases a; simp)+
  have n: "unat (page_offset va + len) = unat va mod 4096 + unat len"
    using assms(2) t(1) by (simp add: unat_word_ariths unat_page_offset)
  have pos: "0 < unat len" using assms(1) unat_gt_0 by blast
  then have "page_offset va + len \<noteq> 0" using n by (metis add_is_0 neq0_conv unat_0)
  from unat_page_up [OF this] n assms(2) t(1)
  have l: "unat l = (unat va mod 4096 + unat len + 4095) div 4096 * 4096" by (simp add: l_def)
  then show d: "unat l div 4096 = (unat va mod 4096 + unat len + 4095) div 4096" by simp
  show "0 < unat l div 4096" unfolding d using pos by (simp add: div_greater_zero_iff)
  show "unat l \<le> unat (USER_STACK_TOP a)" unfolding l by (rule ceil_page_le [OF assms(2) t(2)])
qed

definition chosen ::
  "arch \<Rightarrow> nat \<Rightarrow> vm_space \<Rightarrow> (sys_error + (virt_page_num \<times> virt_page_num)) \<Rightarrow> bool" where
  "chosen a n s r \<longleftrightarrow>
     (\<forall>rg. r = Inr rg \<longrightarrow> fst rg < snd rg \<and> user_vpn a (snd rg) \<and> unat (snd rg) = unat (fst rg) + n \<and>
        (\<forall>k. fst rg \<le> k \<longrightarrow> k < snd rg \<longrightarrow> page_attr (vs_areas s) k = None))"

lemma place_chosen:
  assumes ok: "space_ok a ph s" and ch: "chosen a n s r"
    and mk: "\<And>rg. range_va (mk rg) = (vpn_start_addr a (fst rg), vpn_start_addr a (snd rg))" "\<And>rg. frames (mk rg) = []"
      "\<And>rg i. vm_file (mk rg) = ShmOf i \<Longrightarrow> map_shared (mk rg)" "\<And>rg. area_perm (mk rg) = perm"
      "\<And>rg. vma_type (mk rg) = VMmap" "\<And>rg. map_shared (mk rg) = sh" "\<And>rg. vm_file (mk rg) = vf"
  shows "\<exists>r' s'. (case r of
         Inl e \<Rightarrow> Some (Inl e, s, ph)
       | Inr rg \<Rightarrow> do {
           (s, ph) \<leftarrow> push_area a no_alloc (mk rg) None s ph;
           Some (Inr (vpn_start_addr a (fst rg)), s, ph) }) = Some (r', s', ph) \<and>
    placed a perm n s ph r' s' \<and> r' = map_sum id (\<lambda>rg. vpn_start_addr a (fst rg)) r"
proof (cases r)
  case (Inl e)
  with ok show ?thesis by simp
next
  case (Inr rg)
  with ch have g: "fst rg < snd rg" "user_vpn a (snd rg)" "unat (snd rg) = unat (fst rg) + n"
    "\<forall>k. fst rg \<le> k \<longrightarrow> k < snd rg \<longrightarrow> page_attr (vs_areas s) k = None" unfolding chosen_def by blast+
  have sh: "\<forall>i. vm_file (mk rg) = ShmOf i \<longrightarrow> map_shared (mk rg)" using mk(3) by blast
  have push: "\<exists>s'. push_area a no_alloc (mk rg) None s ph = Some (s', ph) \<and> local_step a K s ph [s'] ph \<and>
    vs_pt s' = vs_pt s \<and> (\<forall>k. page_attr (vs_areas s') k = (if fst rg \<le> k \<and> k < snd rg
       then Some (perm, sh, VMmap, vf) else page_attr (vs_areas s) k))" for K
    using push_empty_area [where K = K, OF ok g(1,2,4) mk(1) mk(2) sh] unfolding mk(4-7) .
  then obtain s' where p: "push_area a no_alloc (mk rg) None s ph = Some (s', ph)" "vs_pt s' = vs_pt s"
    "\<forall>k. page_attr (vs_areas s') k = (if fst rg \<le> k \<and> k < snd rg
       then Some (perm, sh, VMmap, vf) else page_attr (vs_areas s) k)" by blast
  have "\<forall>K. local_step a K s ph [s'] ph" using push p(1) by fastforce
  with p g have "placed a perm n s ph (Inr (vpn_start_addr a (fst rg))) s'"
    unfolding placed_def by (simp only: sum.case) blast
  with Inr p(1) show ?thesis by simp
qed

lemma alloc_anon_chosen:
  assumes ok: "space_ok a ph s" and sh: "shm \<noteq> None \<longrightarrow> shared"
    and r: "choose_range a fixed (vpn_start_addr a (va_floor a va)) (page_up (page_offset va + len))
      (USER_SHARE_BEG a) (USER_SHARE_END a) s = Some r" "chosen a n s r"
  shows "\<exists>r' s'. alloc_anon_area a va len perm fixed shared shm s ph = Some (r', s', ph) \<and>
    placed a perm n s ph r' s' \<and> (\<forall>p. r' = Inr p \<longrightarrow> (\<exists>rg. r = Inr rg \<and> p = vpn_start_addr a (fst rg)))"
proof (cases "len = 0 \<or> shared \<and> shm = None")
  case True
  with ok show ?thesis by (auto simp: alloc_anon_area_def)
next
  case False
  have "\<exists>r' s'. alloc_anon_area a va len perm fixed shared shm s ph = Some (r', s', ph) \<and>
    placed a perm n s ph r' s' \<and> r' = map_sum id (\<lambda>rg. vpn_start_addr a (fst rg)) r"
    using place_chosen [OF ok r(2),
      where mk = "\<lambda>rg. (case shm of
                  Some i \<Rightarrow> area_new_mmap (vpn_start_addr a (fst rg), vpn_start_addr a (snd rg)) perm shared (ShmOf i) 0
                    (page_up (page_offset va + len))
                | None \<Rightarrow> area_new_mmap (vpn_start_addr a (fst rg), vpn_start_addr a (snd rg)) perm shared NoFile
                    (vpn_start_addr a (fst rg)) (page_up (page_offset va + len)))"
        and vf = "case shm of Some i \<Rightarrow> ShmOf i | None \<Rightarrow> NoFile" and sh = shared and perm = perm] False sh r(1)
    by (cases shm; cases r) (simp_all add: alloc_anon_area_def Let_def area_new_mmap_def)
  then show ?thesis by (cases r) auto
qed

lemma alloc_mmap_chosen:
  assumes ok: "space_ok a ph s"
    and r: "choose_range a fixed va (page_up (page_offset va + len)) (USER_FILE_BEG a) (USER_FILE_END a) s = Some r"
      "chosen a n s r"
  shows "\<exists>r' s'. alloc_mmap_area a va len perm fixed shared i offset s ph = Some (r', s', ph) \<and>
    placed a perm n s ph r' s' \<and> (\<forall>p. r' = Inr p \<longrightarrow> (\<exists>rg. r = Inr rg \<and> p = vpn_start_addr a (fst rg)))"
proof (cases "len = 0")
  case True
  with ok show ?thesis by (auto simp: alloc_mmap_area_def)
next
  case False
  have "\<exists>r' s'. alloc_mmap_area a va len perm fixed shared i offset s ph = Some (r', s', ph) \<and>
    placed a perm n s ph r' s' \<and> r' = map_sum id (\<lambda>rg. vpn_start_addr a (fst rg)) r"
    using place_chosen [OF ok r(2),
      where mk = "\<lambda>rg. area_new_mmap (vpn_start_addr a (fst rg), vpn_start_addr a (snd rg)) perm shared (FileOf i) offset
                    (page_up (page_offset va + len))"
        and vf = "FileOf i" and sh = shared and perm = perm] False r(1)
    by (cases r) (simp_all add: alloc_mmap_area_def Let_def area_new_mmap_def)
  then show ?thesis by (cases r) auto
qed

lemma choose_free:
  assumes ok: "space_ok a ph s" and len: "len \<noteq> 0" "unat va mod 4096 + unat len \<le> unat (USER_STACK_TOP a)"
    and win: "lo \<le> hi" "unat hi \<le> unat (USER_STACK_TOP a)"
  shows "\<exists>r. choose_range a False w (page_up (page_offset va + len)) lo hi s = Some r \<and>
    chosen a ((unat va mod 4096 + unat len + 4095) div 4096) s r"
proof -
  note l = page_up_len [OF len]
  from choose_range_ok [OF ok win l(2,3), of w] show ?thesis unfolding chosen_def l(1) by blast
qed

lemma alloc_anon_placed:
  assumes ok: "space_ok a ph s" and len: "unat va mod 4096 + unat len \<le> unat (USER_STACK_TOP a)"
    and sh: "shm \<noteq> None \<longrightarrow> shared"
  shows "\<exists>r s'. alloc_anon_area a va len perm False shared shm s ph = Some (r, s', ph) \<and>
    placed a perm ((unat va mod 4096 + unat len + 4095) div 4096) s ph r s'"
proof (cases "len = 0")
  case False
  from choose_free [OF ok this len mmap_windows(3,4)] alloc_anon_chosen [OF ok sh] show ?thesis by meson
qed (use ok in \<open>auto simp: alloc_anon_area_def\<close>)

lemma alloc_mmap_placed:
  assumes ok: "space_ok a ph s" and len: "unat va mod 4096 + unat len \<le> unat (USER_STACK_TOP a)"
  shows "\<exists>r s'. alloc_mmap_area a va len perm False shared i offset s ph = Some (r, s', ph) \<and>
    placed a perm ((unat va mod 4096 + unat len + 4095) div 4096) s ph r s'"
proof (cases "len = 0")
  case False
  from choose_free [OF ok this len mmap_windows(1,2)] alloc_mmap_chosen [OF ok] show ?thesis by meson
qed (use ok in \<open>auto simp: alloc_mmap_area_def\<close>)

lemma shared_type: "f AND MAP_TYPE_MASK = MAP_SHARED \<Longrightarrow> has_flag f MAP_SHARED"
  unfolding has_flag_def MAP_TYPE_MASK_def MAP_SHARED_def
  by (metis (no_types, lifting) and.assoc and.idem and_numerals(1,2,3,4) and_one_eq)

lemma mmap_placed:
  assumes "space_ok a ph s" "unat va mod 4096 + unat len \<le> unat (USER_STACK_TOP a)"
    and "\<not> has_flag (mmap_flags_truncate flags) MAP_FIXED"
  shows "\<exists>r s'. sys_mmap a get_file new_shm va len prot flags fd offset s ph = Some (r, s', ph) \<and>
    placed a (perm_of_prot prot) ((unat va mod 4096 + unat len + 4095) div 4096) s ph r s'"
  using alloc_anon_placed [OF assms(1,2)] alloc_mmap_placed [OF assms(1,2)] assms(1,3) shared_type
  by (auto simp: sys_mmap_def Let_def split: sum.splits)

text \<open>
  \<^verbatim>\<open>MAP_FIXED\<close> first takes the area found in the range away and then asks for the range to be free.
\<close>

lemma choose_fixed:
  assumes inv: "rm_inv (vs_areas s)" and lo: "va_floor a va = lo" "va_ceil a (va_add a va len) = hi" "lo < hi"
    and n: "user_vpn a hi" "unat hi = unat lo + n"
  shows "\<exists>r. choose_range a True va len x y s = Some r \<and> chosen a n s r \<and> (\<forall>rg. r = Inr rg \<longrightarrow> rg = (lo, hi))"
proof (cases "rm_is_range_free (lo, hi) (vs_areas s)")
  case (Inr u)
  then have "\<not> rm_overlaps (lo, hi) (vs_areas s)" using rm_is_range_free_iff [OF inv, of lo hi] lo by auto
  then show ?thesis using Inr lo n unfolding rm_overlaps_abs [OF inv lo(3)]
    by (auto simp: choose_range_def page_attr_def chosen_def)
qed (use lo in \<open>simp add: choose_range_def chosen_def\<close>)

lemma alloc_fixed:
  assumes ok: "space_ok a ph s" and al: "page_offset addr = 0" and len: "len \<noteq> 0"
    and top: "unat addr + unat len \<le> unat (USER_STACK_TOP a)"
  shows "shm \<noteq> None \<longrightarrow> shared \<Longrightarrow>
      \<exists>r s'. alloc_anon_area a addr len perm True shared shm s ph = Some (r, s', ph) \<and>
        placed a perm ((unat len + 4095) div 4096) s ph r s' \<and> (\<forall>p. r = Inr p \<longrightarrow> p = addr)"
    and "\<exists>r s'. alloc_mmap_area a addr len perm True shared i offset s ph = Some (r, s', ph) \<and>
        placed a perm ((unat len + 4095) div 4096) s ph r s' \<and> (\<forall>p. r = Inr p \<longrightarrow> p = addr)"
proof -
  let ?lo = "va_floor a addr" and ?hi = "va_ceil a (va_add a addr len)" and ?n = "(unat len + 4095) div 4096"
  note ar = addr_range [OF len al top]
  have inv: "rm_inv (vs_areas s)" using ok by (simp add: space_ok_def)
  have "unat ?lo \<le> unat ?hi" using ar(2) by (simp add: word_less_nat_alt)
  moreover have "unat ?hi - unat ?lo = ?n"
    using ceil_page_diff(1) [of "unat addr" "unat len"] al unat_page_offset [of addr] unfolding ar(6,7) by simp
  ultimately have n: "unat ?hi = unat ?lo + ?n" by simp
  have ch: "\<exists>r. choose_range a True addr (page_up (page_offset addr + len)) x y s = Some r \<and> chosen a ?n s r \<and>
    (\<forall>rg. r = Inr rg \<longrightarrow> rg = (?lo, ?hi))" for x y
    using choose_fixed [OF inv _ _ ar(2,1) n, of addr "page_up len" x y] ar(5) al by simp
  show "\<exists>r s'. alloc_anon_area a addr len perm True shared shm s ph = Some (r, s', ph) \<and>
      placed a perm ?n s ph r s' \<and> (\<forall>p. r = Inr p \<longrightarrow> p = addr)" if sh: "shm \<noteq> None \<longrightarrow> shared"
  proof -
    from ch obtain r where r: "choose_range a True addr (page_up (page_offset addr + len)) (USER_SHARE_BEG a) (USER_SHARE_END a) s = Some r"
      "chosen a ?n s r" "\<forall>rg. r = Inr rg \<longrightarrow> rg = (?lo, ?hi)" by blast
    from alloc_anon_chosen [OF ok sh, of True addr len r ?n perm] r ar(3) show ?thesis by fastforce
  qed
  from ch obtain r where r: "choose_range a True addr (page_up (page_offset addr + len)) (USER_FILE_BEG a) (USER_FILE_END a) s = Some r"
    "chosen a ?n s r" "\<forall>rg. r = Inr rg \<longrightarrow> rg = (?lo, ?hi)" by blast
  from alloc_mmap_chosen [OF ok r(1,2), of perm shared i offset] r(3) ar(3)
  show "\<exists>r s'. alloc_mmap_area a addr len perm True shared i offset s ph = Some (r, s', ph) \<and>
      placed a perm ?n s ph r s' \<and> (\<forall>p. r = Inr p \<longrightarrow> p = addr)" by fastforce
qed

lemma mmap_fixed:
  fixes a addr len
  assumes ok: "space_ok a ph s" and cov: "covered K s ph" and al: "page_offset addr = 0"
    and top: "unat addr + unat len \<le> unat (USER_STACK_TOP a)" and fl: "has_flag (mmap_flags_truncate flags) MAP_FIXED"
  defines "lo \<equiv> va_floor a addr" and "hi \<equiv> va_ceil a (va_add a addr len)"
  shows "\<exists>r s' ph'. sys_mmap a get_file new_shm addr len prot flags fd offset s ph = Some (r, s', ph') \<and>
    local_step a K s ph [s'] ph' \<and> ph_data ph' = ph_data ph \<and> (\<forall>p. r = Inr p \<longrightarrow> p = addr) \<and>
    ((\<forall>k. lo \<le> k \<longrightarrow> k < hi \<longrightarrow> page_attr (vs_areas s) k = None) \<longrightarrow> r = Inl EINVAL)"
proof (cases "len = 0 \<or> addr = 0 \<or> offset mod PAGE_SIZE \<noteq> 0")
  case True
  then have "sys_mmap a get_file new_shm addr len prot flags fd offset s ph = Some (Inl EINVAL, s, ph)"
    using fl by (elim disjE) (simp_all add: sys_mmap_def Let_def)
  with local_step_refl [OF ok] show ?thesis by auto
next
  case False
  then have len: "len \<noteq> 0" by simp
  have ne: "va_floor a addr < va_ceil a (va_add a addr len)" by (rule addr_range(2) [OF len al top])
  from space_unmap_spec [OF ok ne, folded lo_def hi_def] show ?thesis
  proof (elim disjE exE conjE)
    fix m' assume m: "space_unmap a addr len s = Some (Inl EINVAL, s\<lparr>vs_areas := m'\<rparr>)" "space_ok a ph (s\<lparr>vs_areas := m'\<rparr>)"
    from m(1) False fl have "sys_mmap a get_file new_shm addr len prot flags fd offset s ph =
      Some (Inl EINVAL, s\<lparr>vs_areas := m'\<rparr>, ph)" by (simp add: sys_mmap_def Let_def)
    with local_step_regroup [OF m(2)] show ?thesis by auto
  next
    fix mid s1 e k assume u: "space_unmap a addr len s = Some (Inr mid, s1)" "e \<le> hi" "unmapped a ph s lo e mid s1"
      and k: "lo \<le> k" "k < e" "page_attr (vs_areas s) k \<noteq> None"
    let ?ph = "area_drop mid ph"
    have st: "local_step a K s ph [s1] ?ph" by (rule drop_local(1) [OF ok cov u(3)])
    then have ok1: "space_ok a ?ph s1" by (simp add: local_step_def)
    note fx = alloc_fixed [OF ok1 al len top]
    define Q where "Q x \<longleftrightarrow> (\<exists>r s'. x = Some (r, s', ?ph) \<and> local_step a K s1 ?ph [s'] ?ph \<and> (\<forall>p. r = Inr p \<longrightarrow> p = addr))"
      for x :: "((sys_error + virt_addr) \<times> vm_space \<times> phys) option"
    have q: "Q (alloc_anon_area a addr len perm True shared shm s1 ?ph)" if "shm \<noteq> None \<longrightarrow> shared" for perm shared shm
      using fx(1) [OF that, of perm] unfolding placed_def Q_def by blast
    have q2: "Q (alloc_mmap_area a addr len perm True shared i offset s1 ?ph)" for perm shared i
      using fx(2) [of perm shared i offset] unfolding placed_def Q_def by blast
    have q3: "Q (Some (Inl e, s1, ?ph))" for e using local_step_refl [OF ok1] by (simp add: Q_def)
    have "Q (sys_mmap a get_file new_shm addr len prot flags fd offset s ph)"
      using u(1) False fl shared_type q q2 q3 by (simp add: sys_mmap_def Let_def split: sum.split)
    then obtain r s' where r: "sys_mmap a get_file new_shm addr len prot flags fd offset s ph = Some (r, s', ?ph)"
      "local_step a K s1 ?ph [s'] ?ph" "\<forall>p. r = Inr p \<longrightarrow> p = addr" unfolding Q_def by blast
    from k u(2) have "\<not> (\<forall>k. lo \<le> k \<longrightarrow> k < hi \<longrightarrow> page_attr (vs_areas s) k = None)" by (meson less_le_trans)
    with r(1,3) local_step_trans [OF st r(2)] drop_owners(2) [of mid ph] show ?thesis by blast
  qed
qed

lemma mprotect_spec:
  fixes a addr len
  assumes ok: "space_ok a ph s" and cov: "covered K s ph" and len: "len \<noteq> 0" "unat len mod 4096 = 0"
    and al: "page_offset addr = 0" and top: "unat addr + unat len \<le> unat (USER_STACK_TOP a)"
    and n: "unat len div 4096 + 2 \<le> rounds"
  defines "lo \<equiv> va_floor a addr" and "hi \<equiv> va_ceil a (va_add a addr len)"
  shows "\<exists>s'. sys_mprotect a rounds addr len prot s ph = Some (Some (Inr 0, s', ph)) \<and>
    local_step a K s ph [s'] ph \<and> (\<forall>v. map_option v_ppn (vs_pt s' v) = map_option v_ppn (vs_pt s v)) \<and>
    (\<forall>k. lo \<le> k \<longrightarrow> k < hi \<longrightarrow> page_attr (vs_areas s) k \<noteq> None \<longrightarrow>
      page_attr (vs_areas s') k = prot_attr (perm_of_prot prot) (page_attr (vs_areas s) k)) \<and>
    (\<forall>k. k < lo \<or> hi \<le> k \<longrightarrow> page_attr (vs_areas s') k = page_attr (vs_areas s) k)"
proof -
  note ar = addr_range [OF len(1) al top, folded lo_def hi_def]
  have pu: "page_up len = len"
  proof -
    have "unat len \<le> 2 ^ 63" using top unfolding user_stack_top by (cases a) simp_all
    moreover obtain q where "unat len = 4096 * q" using len(2) by (metis dvd_def mod_0_imp_dvd)
    ultimately have "unat (page_up len) = unat len" using unat_page_up [OF len(1)] by simp
    then show ?thesis by (simp add: word_unat_eq_iff)
  qed
  have "unat addr mod 4096 = 0" using al unat_page_offset [of addr] by simp
  from ceil_page_diff(1) [OF this, of "unat len"] div_le_mono [of "unat len + 4095" "unat len + 4096" 4096] n
  have "unat hi - unat lo < rounds" unfolding ar(6,7) by simp
  from mprotect_loop_ok [OF ok cov ar(1) less_imp_le [OF ar(2)] this, of "perm_of_prot prot"]
  have ex: "\<exists>s'. mprotect_loop a rounds (perm_of_prot prot) lo hi len s ph = Some (Some (s', ph)) \<and>
    local_step a K s ph [s'] ph \<and> (\<forall>v. map_option v_ppn (vs_pt s' v) = map_option v_ppn (vs_pt s v)) \<and>
    (\<forall>k. lo \<le> k \<longrightarrow> k < hi \<longrightarrow> page_attr (vs_areas s) k \<noteq> None \<longrightarrow>
      page_attr (vs_areas s') k = prot_attr (perm_of_prot prot) (page_attr (vs_areas s) k)) \<and>
    (\<forall>k. k < lo \<or> hi \<le> k \<longrightarrow> page_attr (vs_areas s') k = page_attr (vs_areas s) k)"
    using ar(4) pu by simp
  have "len mod PAGE_SIZE = 0" using len(2) by (simp add: PAGE_SIZE_def word_unat_eq_iff unat_mod)
  with ex len(1) al show ?thesis unfolding sys_mprotect_def lo_def hi_def by auto
qed

end
