(* ===== verification/Vm_Isolation.thy ===== *)
theory Vm_Isolation
  imports Vm_Syscall
begin

text \<open>
  The system of all address spaces: what one space can do (take a page fault, store, \<^verbatim>\<open>mmap\<close>, \<^verbatim>\<open>munmap\<close>,
  \<^verbatim>\<open>mprotect\<close>, \<^verbatim>\<open>fork\<close>, exit) and what the kernel does to the frames it keeps for itself. Every reachable
  state satisfies the invariant, and an action of one space on private memory is invisible to the others.
\<close>

section \<open>Actions\<close>

text \<open>A store of the program: the hardware refuses it unless the leaf is writable.\<close>

definition user_write :: "virt_page_num \<Rightarrow> nat \<Rightarrow> u8 \<Rightarrow> vm_space \<Rightarrow> phys \<Rightarrow> phys option" where
  "user_write vpn i b s ph =
     (case vs_pt s vpn of
        Some e \<Rightarrow> if perm_w (v_perm e)
                  then Some (ph\<lparr>ph_data := (ph_data ph)(v_ppn e := (ph_data ph (v_ppn e))(i := b))\<rparr>) else None
      | None \<Rightarrow> None)"

datatype vm_call =
    Fault virt_addr access_type
  | Store virt_page_num nat u8
  | Mmap virt_addr usize "32 word" "32 word" usize usize
  | Munmap virt_addr usize
  | Mprotect virt_addr usize "32 word"
  | Fork
  | Exit

text \<open>
  The spaces a call leaves in place of the caller's, and the memory. \<^verbatim>\<open>rounds\<close> bounds the loops of
  \<^verbatim>\<open>munmap\<close> and \<^verbatim>\<open>mprotect\<close>. Dropping a space at exit drops the frames of its areas.
\<close>

fun run_call ::
  "arch \<Rightarrow> vm_env \<Rightarrow> (usize \<Rightarrow> sys_error + nat) \<Rightarrow> usize option \<Rightarrow> nat \<Rightarrow> vm_call \<Rightarrow> vm_space \<Rightarrow> phys \<Rightarrow>
     (vm_space list \<times> phys) option" where
  "run_call a env get_file shm rounds (Fault va acc) s ph =
     map_option (\<lambda>(_, s, ph). ([s], ph)) (handle_page_fault a env va acc s ph)"
| "run_call a env get_file shm rounds (Store vpn i b) s ph = map_option (\<lambda>ph. ([s], ph)) (user_write vpn i b s ph)"
| "run_call a env get_file shm rounds (Mmap addr len prot flags fd offset) s ph =
     map_option (\<lambda>(_, s, ph). ([s], ph)) (sys_mmap a get_file shm addr len prot flags fd offset s ph)"
| "run_call a env get_file shm rounds (Munmap addr len) s ph =
     Option.bind (sys_munmap a rounds addr len s ph) (map_option (\<lambda>(_, s, ph). ([s], ph)))"
| "run_call a env get_file shm rounds (Mprotect addr len prot) s ph =
     Option.bind (sys_mprotect a rounds addr len prot s ph) (map_option (\<lambda>(_, s, ph). ([s], ph)))"
| "run_call a env get_file shm rounds Fork s ph = map_option (\<lambda>(s, c, ph). ([s, c], ph)) (from_existed a s ph)"
| "run_call a env get_file shm rounds Exit s ph = Some ([], snd (space_clear s ph))"

text \<open>
  The calls of a well-behaved program: page aligned addresses and ranges that end below the stack top.
  \<^verbatim>\<open>private_call\<close> excludes stores to shared mappings, whose purpose is to be seen elsewhere.
\<close>

fun call_ok :: "arch \<Rightarrow> nat \<Rightarrow> vm_call \<Rightarrow> bool" where
  "call_ok a rounds (Munmap addr len) \<longleftrightarrow> page_offset addr = 0 \<and> unat addr + unat len \<le> unat (USER_STACK_TOP a) \<and>
     unat len div 4096 + 2 \<le> rounds"
| "call_ok a rounds (Mprotect addr len prot) \<longleftrightarrow> unat addr + unat len \<le> unat (USER_STACK_TOP a) \<and>
     unat len div 4096 + 2 \<le> rounds"
| "call_ok a rounds (Mmap addr len prot flags fd offset) \<longleftrightarrow>
     page_offset addr = 0 \<and> unat addr + unat len \<le> unat (USER_STACK_TOP a)"
| "call_ok a rounds _ \<longleftrightarrow> True"

fun private_call :: "vm_space \<Rightarrow> vm_call \<Rightarrow> bool" where
  "private_call s (Store vpn i b) \<longleftrightarrow> (case rm_get vpn (vs_areas s) of Some ar \<Rightarrow> \<not> map_shared ar | None \<Rightarrow> False)"
| "private_call s _ \<longleftrightarrow> True"

section \<open>Stores\<close>

lemma space_ok_data [simp]: "space_ok a (ph\<lparr>ph_data := d\<rparr>) s = space_ok a ph s"
  by (simp add: space_ok_def area_ok_def page_ok_def)

lemma store_local:
  assumes ok: "space_ok a ph s" and cov: "covered K s ph" and w: "user_write vpn i b s ph = Some ph'"
    and priv: "private_call s (Store vpn i b)"
  shows "local_step a K s ph [s] ph'"
proof -
  have inv: "rm_inv (vs_areas s)" using ok by (simp add: space_ok_def)
  from w obtain e where e: "vs_pt s vpn = Some e" "perm_w (v_perm e)"
    "ph' = ph\<lparr>ph_data := (ph_data ph)(v_ppn e := (ph_data ph (v_ppn e))(i := b))\<rparr>"
    by (auto simp: user_write_def split: option.splits if_splits)
  from priv obtain ar where ar: "rm_get vpn (vs_areas s) = Some ar" "\<not> map_shared ar" by (auto split: option.splits)
  from rm_get_node [OF inv ar(1)] obtain st n where
    n: "(st, n) \<in> set (vs_areas s)" "st \<le> vpn" "vpn < node_end n" "node_value n = ar" .
  from area_of_page(2) [OF ok n(1-3) e(1)] e ar(2) n(4) have one: "ph_owners ph (v_ppn e) = 1"
    by (auto simp: page_ok_def)
  have "0 < refs (vs_pt s) (v_ppn e)" using e(1) unfolding refs_pos by blast
  with one have "\<not> refs (vs_pt s) (v_ppn e) < ph_owners ph (v_ppn e)" by simp
  then show ?thesis using ok unfolding local_step_def e(3) by auto
qed

section \<open>Exit\<close>

definition all_frames :: "(virt_page_num, vm_area) range_map \<Rightarrow> phys_page_num list" where
  "all_frames m = concat (map (\<lambda>p. map snd (frames (node_value (snd p)))) m)"

lemma clear_owners:
  "ph_owners (snd (space_clear s ph)) f = ph_owners ph f - count_list (all_frames (vs_areas s)) f"
  "ph_data (snd (space_clear s ph)) = ph_data ph"
proof -
  have "ph_owners (fold (\<lambda>(_, n). area_drop (node_value n)) m ph) f = ph_owners ph f - count_list (all_frames m) f \<and>
    ph_data (fold (\<lambda>(_, n). area_drop (node_value n)) m ph) = ph_data ph" for m
    by (induction m arbitrary: ph) (auto simp: all_frames_def drop_owners)
  then show "ph_owners (snd (space_clear s ph)) f = ph_owners ph f - count_list (all_frames (vs_areas s)) f"
    "ph_data (snd (space_clear s ph)) = ph_data ph" by (simp_all add: space_clear_def)
qed

lemma refs_cong: "(\<And>v. map_option v_ppn (pt v) = map_option v_ppn (pt' v)) \<Longrightarrow> refs pt f = refs pt' f"
proof -
  assume h: "\<And>v. map_option v_ppn (pt v) = map_option v_ppn (pt' v)"
  have "(\<exists>e. p = Some e \<and> v_ppn e = f) \<longleftrightarrow> map_option v_ppn p = Some f" for p :: "pte_view option"
    by (cases p) auto
  then show ?thesis unfolding refs_def by (simp only: h)
qed

lemma refs_all_frames:
  assumes ok: "space_ok a ph s"
  shows "refs (vs_pt s) f = count_list (all_frames (vs_areas s)) f"
proof -
  let ?l = "mapped_leaf ph" and ?m = "vs_areas s"
  have inv: "rm_inv ?m" and sh: "\<forall>st n. (st, n) \<in> set ?m \<longrightarrow> area_shape a st n"
    using ok area_ok_shape unfolding space_ok_def by blast+
  have d: "distinct (map fst (area_leaves ?l ?m))" by (rule area_leaves_distinct [OF inv sh])
  have "map_option v_ppn (vs_pt s v) = map_option v_ppn (map_of (area_leaves ?l ?m) v)" for v
  proof (cases "vs_pt s v")
    case (Some e)
    with ok obtain st n where "(st, n) \<in> set ?m" "(v, v_ppn e) \<in> set (frames (node_value n))"
      unfolding space_ok_def by blast
    then have "(v, ?l (node_value n) (v_ppn e)) \<in> set (area_leaves ?l ?m)" unfolding area_leaves_set by blast
    with d Some show ?thesis by simp
  next
    case None
    have "v \<notin> fst ` set (area_leaves ?l ?m)"
    proof
      assume "v \<in> fst ` set (area_leaves ?l ?m)"
      then obtain e where "(v, e) \<in> set (area_leaves ?l ?m)" by force
      then obtain st n g where "(st, n) \<in> set ?m" "(v, g) \<in> set (frames (node_value n))" unfolding area_leaves_set by blast
      with ok None show False unfolding space_ok_def area_ok_def page_ok_def by fastforce
    qed
    with None show ?thesis by (simp add: map_of_eq_None_iff [THEN iffD2])
  qed
  then have "refs (vs_pt s) f = refs (map_of (area_leaves ?l ?m)) f" by (rule refs_cong)
  also have "\<dots> = count_list (map (v_ppn \<circ> snd) (area_leaves ?l ?m)) f" by (rule refs_map_of [OF d])
  also have "map (v_ppn \<circ> snd) (area_leaves ?l ?m) = all_frames ?m"
    by (simp add: area_leaves_def all_frames_def map_concat comp_def split_beta)
  finally show ?thesis .
qed

lemma exit_local:
  assumes ok: "space_ok a ph s" and cov: "covered K s ph"
  shows "local_step a K s ph [] (snd (space_clear s ph))"
  using covered_mono [OF cov] refs_all_frames [OF ok] by (simp add: local_step_def clear_owners)

section \<open>One call\<close>

lemma mprotect_local:
  assumes ok: "space_ok a ph s" and cov: "covered K s ph" and c: "call_ok a rounds (Mprotect addr len prot)"
  shows "\<exists>r s'. sys_mprotect a rounds addr len prot s ph = Some (Some (r, s', ph)) \<and> local_step a K s ph [s'] ph"
proof (cases "page_offset addr \<noteq> 0 \<or> len = 0 \<or> len mod PAGE_SIZE \<noteq> 0")
  case True
  with local_step_refl [OF ok] show ?thesis by (auto simp: sys_mprotect_def)
next
  case False
  then have h: "len \<noteq> 0" "page_offset addr = 0" "unat (len mod PAGE_SIZE) = 0" by simp_all
  then have m: "unat len mod 4096 = 0" by (simp add: PAGE_SIZE_def unat_mod)
  from mprotect_spec [OF ok cov h(1) m h(2), of rounds prot] c show ?thesis by auto
qed

lemma mmap_local:
  assumes ok: "space_ok a ph s" and cov: "covered K s ph" and c: "call_ok a rounds (Mmap addr len prot flags fd offset)"
  shows "\<exists>r s' ph'. sys_mmap a get_file shm addr len prot flags fd offset s ph = Some (r, s', ph') \<and>
    local_step a K s ph [s'] ph'"
proof (cases "has_flag (mmap_flags_truncate flags) MAP_FIXED")
  case True
  from mmap_fixed [OF ok cov _ _ True, of addr len get_file shm prot fd offset] c show ?thesis by auto
next
  case False
  have "unat addr mod 4096 = 0" using c unat_page_offset [of addr] by simp
  with mmap_placed [OF ok _ False, of addr len get_file shm prot fd offset] c show ?thesis by (auto simp: placed_def)
qed

lemma munmap_local:
  assumes ok: "space_ok a ph s" and cov: "covered K s ph" and c: "call_ok a rounds (Munmap addr len)"
  shows "\<exists>r s' ph'. sys_munmap a rounds addr len s ph = Some (Some (r, s', ph')) \<and> local_step a K s ph [s'] ph'"
proof (cases "len = 0")
  case True
  with local_step_refl [OF ok] show ?thesis by (auto simp: sys_munmap_def)
next
  case False
  from munmap_spec [OF ok cov False, of addr rounds] c show ?thesis by auto
qed

lemma call_local:
  assumes ok: "space_ok a ph s" and cov: "covered K s ph" and env: "env_ok K ph env"
    and c: "call_ok a rounds call" "private_call s call" and r: "run_call a env get_file shm rounds call s ph = Some (ts, ph')"
  shows "local_step a K s ph ts ph'"
proof (cases call)
  case (Fault va acc)
  with r fault_spec [OF ok cov env] show ?thesis by auto
next
  case (Store vpn i b)
  with r c(2) store_local [OF ok cov] show ?thesis by auto
next
  case (Mmap addr len prot flags fd offset)
  from mmap_local [OF ok cov c(1) [unfolded Mmap], of get_file shm] r Mmap show ?thesis by auto
next
  case (Munmap addr len)
  from munmap_local [OF ok cov c(1) [unfolded Munmap]] r Munmap show ?thesis by auto
next
  case (Mprotect addr len prot)
  from mprotect_local [OF ok cov c(1) [unfolded Mprotect]] r Mprotect show ?thesis by auto
next
  case Fork
  with r fork_vm_spec [OF ok cov] show ?thesis by auto
next
  case Exit
  with r exit_local [OF ok cov] show ?thesis by auto
qed

fun touches_hardware :: "vm_call \<Rightarrow> bool" where
  "touches_hardware (Fault _ _) \<longleftrightarrow> True"
| "touches_hardware (Store _ _ _) \<longleftrightarrow> True"
| "touches_hardware _ \<longleftrightarrow> False"

lemma call_returns:
  assumes ok: "space_ok a ph s" and cov: "covered K s ph" and c: "call_ok a rounds call" "\<not> touches_hardware call"
  shows "\<exists>ts ph'. run_call a env get_file shm rounds call s ph = Some (ts, ph')"
proof (cases call)
  case (Mmap addr len prot flags fd offset)
  from mmap_local [OF ok cov c(1) [unfolded Mmap], of get_file shm] Mmap show ?thesis by auto
next
  case (Munmap addr len)
  from munmap_local [OF ok cov c(1) [unfolded Munmap]] Munmap show ?thesis by auto
next
  case (Mprotect addr len prot)
  from mprotect_local [OF ok cov c(1) [unfolded Mprotect]] Mprotect show ?thesis by auto
next
  case Fork
  with fork_vm_spec [OF ok cov] show ?thesis by auto
qed (use c(2) in simp_all)

section \<open>The system\<close>

text \<open>
  The kernel gives itself a free frame (the zero page, a page of a file, of shared memory) and
  lets one go; a new program starts with an empty space; a space makes a call.
\<close>

inductive vm_step :: "arch \<Rightarrow> vm_sys \<Rightarrow> vm_sys \<Rightarrow> bool" for a where
  keep: "ph_owners (mem v) f = 0 \<Longrightarrow>
    vm_step a v (v\<lparr>mem := (mem v)\<lparr>ph_owners := (ph_owners (mem v))(f := 1), ph_data := (ph_data (mem v))(f := d)\<rparr>,
      kept := insert f (kept v)\<rparr>)"
| release: "f \<in> kept v \<Longrightarrow>
    vm_step a v (v\<lparr>mem := (mem v)\<lparr>ph_owners := (ph_owners (mem v))(f := ph_owners (mem v) f - 1)\<rparr>, kept := kept v - {f}\<rparr>)"
| exec: "vm_step a v (v\<lparr>sp := sp v @ [space_new]\<rparr>)"
| call: "sp v = xs @ s # zs \<Longrightarrow> env_ok (kept v) (mem v) env \<Longrightarrow> call_ok a rounds c \<Longrightarrow>
    run_call a env get_file shm rounds c s (mem v) = Some (ts, ph) \<Longrightarrow>
    vm_step a v (v\<lparr>sp := xs @ ts @ zs, mem := ph\<rparr>)"

inductive_cases vm_stepE: "vm_step a v v'"

definition vm_init :: vm_sys where
  "vm_init = \<lparr>sp = [], mem = \<lparr>ph_data = (\<lambda>_ _. 0), ph_owners = (\<lambda>_. 0), ph_dirty = (\<lambda>_. False)\<rparr>, kept = {}\<rparr>"

lemma space_new_ok [simp]: "space_ok a ph space_new"
  by (simp add: space_ok_def space_new_def rm_new_def rm_inv_def)

lemma store_step_ok:
  assumes "vm_ok a v" "user_write vpn i b s (mem v) = Some ph"
  shows "vm_ok a (v\<lparr>mem := ph\<rparr>)"
  using assms by (auto simp: vm_ok_def user_write_def split: option.splits if_splits)

lemma keep_ok:
  assumes ok: "vm_ok a v" and f: "ph_owners (mem v) f = 0"
  shows "vm_ok a (v\<lparr>mem := (mem v)\<lparr>ph_owners := (ph_owners (mem v))(f := 1), ph_data := d\<rparr>, kept := insert f (kept v)\<rparr>)"
proof -
  have own: "(\<Sum>s\<leftarrow>sp v. refs (vs_pt s) g) + (if g \<in> kept v then 1 else 0) \<le> ph_owners (mem v) g" for g
    using ok unfolding vm_ok_def by blast
  have none: "refs (vs_pt s) f = 0" if "s \<in> set (sp v)" for s
    using own [of f] f ref_le_sum [OF that, of "\<lambda>s. refs (vs_pt s) f"] by linarith
  have "space_ok a ((mem v)\<lparr>ph_owners := (ph_owners (mem v))(f := 1)\<rparr>) s" if "s \<in> set (sp v)" for s
    by (rule space_ok_owners [of a "mem v"]) (use ok that none in \<open>auto simp: vm_ok_def\<close>)
  moreover have "(\<Sum>s\<leftarrow>sp v. refs (vs_pt s) g) + (if g \<in> insert f (kept v) then 1 else 0) \<le> ((ph_owners (mem v))(f := 1)) g" for g
    using own [of g] own [of f] f by (auto split: if_splits)
  ultimately show ?thesis by (simp add: vm_ok_def)
qed

lemma release_ok:
  assumes ok: "vm_ok a v" and f: "f \<in> kept v"
  shows "vm_ok a (v\<lparr>mem := (mem v)\<lparr>ph_owners := (ph_owners (mem v))(f := ph_owners (mem v) f - 1)\<rparr>, kept := kept v - {f}\<rparr>)"
proof -
  have own: "(\<Sum>s\<leftarrow>sp v. refs (vs_pt s) g) + (if g \<in> kept v then 1 else 0) \<le> ph_owners (mem v) g" for g
    using ok unfolding vm_ok_def by blast
  have two: "refs (vs_pt s) f + 1 \<le> ph_owners (mem v) f" if "s \<in> set (sp v)" for s
    using own [of f] f ref_le_sum [OF that, of "\<lambda>s. refs (vs_pt s) f"] by simp
  have "space_ok a ((mem v)\<lparr>ph_owners := (ph_owners (mem v))(f := ph_owners (mem v) f - 1)\<rparr>) s" if "s \<in> set (sp v)" for s
    by (rule space_ok_owners [of a "mem v"]) (use ok that two [OF that] in \<open>auto simp: vm_ok_def\<close>)
  moreover have "(\<Sum>s\<leftarrow>sp v. refs (vs_pt s) g) + (if g \<in> kept v - {f} then 1 else 0)
      \<le> ((ph_owners (mem v))(f := ph_owners (mem v) f - 1)) g" for g
    using own [of g] f by (auto split: if_splits)
  ultimately show ?thesis by (simp add: vm_ok_def)
qed

lemma vm_step_ok:
  assumes st: "vm_step a v v'" and ok: "vm_ok a v"
  shows "vm_ok a v'"
  using st
proof (cases rule: vm_step.cases)
  case (keep f d)
  with keep_ok [OF ok keep(2)] show ?thesis by simp
next
  case (release f)
  with release_ok [OF ok release(2)] show ?thesis by simp
next
  case exec
  moreover have "vs_pt space_new = (\<lambda>_. None)" by (simp add: space_new_def)
  ultimately show ?thesis using ok by (simp add: vm_ok_def ball_Un)
next
  case (call xs s zs env rounds c get_file shm ts ph)
  have s: "space_ok a (mem v) s" "covered (kept v) s (mem v)" using vm_ok_covered [OF ok, of s] call(2) by auto
  show ?thesis
  proof (cases "private_call s c")
    case True
    from local_step_system(1) [OF ok call(2) call_local [OF s call(3,4) True call(5)], of "xs @ ts @ zs"] call(1)
    show ?thesis by (simp add: ac_simps)
  next
    case False
    then obtain vpn i b where "c = Store vpn i b" by (cases c) auto
    with call(5) have "ts = [s]" "user_write vpn i b s (mem v) = Some ph" by auto
    with store_step_ok [OF ok this(2)] call(1,2) show ?thesis by (cases v) simp
  qed
qed

lemma vm_reachable_ok: "(vm_step a)\<^sup>*\<^sup>* vm_init v \<Longrightarrow> vm_ok a v"
proof (induction rule: rtranclp_induct)
  case base
  show ?case by (simp add: vm_init_def vm_ok_def)
qed (rule vm_step_ok)

lemma vm_isolation:
  assumes ok: "vm_ok a v" and c: "sp v = xs @ s # zs" "env_ok (kept v) (mem v) env" "call_ok a rounds c" "private_call s c"
    and r: "run_call a env get_file shm rounds c s (mem v) = Some (ts, ph)" and t: "t \<in> set (xs @ zs)"
  shows "user_read t ph = user_read t (mem v)"
proof -
  have s: "space_ok a (mem v) s" "covered (kept v) s (mem v)" using vm_ok_covered [OF ok, of s] c(1) by auto
  from local_step_system(2) [OF ok c(1) call_local [OF s c(2-4) r] _ t, of "xs @ ts @ zs"] show ?thesis by (simp add: ac_simps)
qed

section \<open>A system with one program\<close>

definition demo_area :: vm_area where
  "demo_area = (area_new_mmap (0x10000, 0x12000) perm_ruw False NoFile 0x10000 0x2000)\<lparr>frames := [(16, 5)]\<rparr>"

definition demo_space :: vm_space where
  "demo_space = \<lparr>vs_pt = [16 \<mapsto> leaf 5 perm_ruw], vs_areas = [(16, \<lparr>node_end = 18, node_value = demo_area\<rparr>)],
     heap_bottom_va = 0x20000\<rparr>"

definition demo_other :: vm_space where
  "demo_other = demo_space\<lparr>vs_pt := [16 \<mapsto> leaf 6 perm_ruw],
     vs_areas := [(16, \<lparr>node_end = 18, node_value = demo_area\<lparr>frames := [(16, 6)]\<rparr>\<rparr>)]\<rparr>"

definition demo_phys :: phys where
  "demo_phys = \<lparr>ph_data = (\<lambda>_ _. 0), ph_owners = (\<lambda>_. 0)(1 := 1, 5 := 1, 6 := 1), ph_dirty = (\<lambda>_. False)\<rparr>"

definition demo_sys :: vm_sys where
  "demo_sys = \<lparr>sp = [demo_space, demo_other], mem = demo_phys, kept = {1}\<rparr>"

definition demo_env :: vm_env where
  "demo_env = \<lparr>e_alloc = Some 7, e_zero = 1, e_inode = (\<lambda>_. False), e_page = (\<lambda>_ _. None), e_shm = (\<lambda>_ _. None)\<rparr>"

lemmas demo_defs = demo_area_def demo_space_def demo_other_def demo_phys_def demo_sys_def demo_env_def

lemma demo_refs: "refs (vs_pt demo_space) f = (if f = 5 then 1 else 0)" "refs (vs_pt demo_other) f = (if f = 6 then 1 else 0)"
  using refs_map_new [of "\<lambda>_. None" 16 "leaf 5 perm_ruw" f] refs_map_new [of "\<lambda>_. None" 16 "leaf 6 perm_ruw" f]
  by (simp_all add: demo_other_def demo_space_def leaf_def)

lemma demo_ok:
  "space_ok a demo_phys demo_space" "covered {1} demo_space demo_phys" "vm_ok a demo_sys" "env_ok {1} demo_phys demo_env"
proof -
  have r: "range_vpn a (demo_area\<lparr>frames := fs\<rparr>) = (16, 18)" "demo_area\<lparr>frames := [(16, 5)]\<rparr> = demo_area" for fs
    by (cases a; simp add: demo_area_def area_new_mmap_def range_vpn_def va_floor_def va_ceil_def const_defs)+
  show ok: "space_ok a demo_phys demo_space"
    using r(1) [of "[(16, 5)]"] unfolding r(2)
    by (cases a) (auto simp: space_ok_def demo_space_def demo_phys_def area_ok_def page_ok_def rm_inv_def leaf_def
      demo_area_def area_new_mmap_def const_defs perm_ruw_def)
  have ok2: "space_ok a demo_phys demo_other"
    using r(1) [of "[(16, 6)]"]
    by (cases a) (auto simp: space_ok_def demo_other_def demo_space_def demo_phys_def area_ok_def page_ok_def rm_inv_def
      leaf_def demo_area_def area_new_mmap_def const_defs perm_ruw_def)
  show "covered {1} demo_space demo_phys" by (simp add: covered_def demo_refs demo_phys_def)
  from ok ok2 show "vm_ok a demo_sys" by (simp add: vm_ok_def demo_sys_def demo_refs demo_phys_def)
  show "env_ok {1} demo_phys demo_env" by (simp add: env_ok_def demo_env_def demo_phys_def)
qed

section \<open>Properties\<close>











text \<open>
  C4. \<^verbatim>\<open>munmap\<close> of a page-aligned range below the stack top returns 0 and removes exactly the pages of the range, mapped
  or not, from the areas and from the page table; every other page keeps its area and its entry, no contents
  change, and every frame loses as many owners as pages of it were unmapped.
\<close>

theorem munmap_correct:
  assumes "space_ok a ph s" "covered K s ph" "len \<noteq> 0" "page_offset addr = 0"
    and "unat addr + unat len \<le> unat (USER_STACK_TOP a)" "unat len div 4096 + 2 \<le> rounds"
  shows "\<exists>s' ph'. sys_munmap a rounds addr len s ph = Some (Some (Inr 0, s', ph')) \<and> local_step a K s ph [s'] ph' \<and>
    (\<forall>v. vs_pt s' v = (if va_floor a addr \<le> v \<and> v < va_ceil a (va_add a addr len) then None else vs_pt s v)) \<and>
    (\<forall>k. page_attr (vs_areas s') k =
      (if va_floor a addr \<le> k \<and> k < va_ceil a (va_add a addr len) then None else page_attr (vs_areas s) k)) \<and>
    ph_data ph' = ph_data ph"
  by (rule munmap_spec [OF assms])

theorem munmap_correct_witness:
  "\<exists>s' ph'. sys_munmap Riscv64 3 0x10000 0x1000 demo_space demo_phys = Some (Some (Inr 0, s', ph')) \<and>
     vs_pt s' 16 = None \<and> page_attr (vs_areas s') 16 = None \<and>
     page_attr (vs_areas s') 17 = page_attr (vs_areas demo_space) 17"
proof -
  have "va_floor Riscv64 0x10000 = 16" "va_ceil Riscv64 (va_add Riscv64 0x10000 0x1000) = 17"
    by (simp_all add: va_floor_def va_ceil_def va_add_def va_from_def const_defs)
  with munmap_correct [OF demo_ok(1,2), of "0x1000" "0x10000" Riscv64 3] show ?thesis
    by (auto simp: page_offset_def const_defs)
qed


lemma demo_attr:
  "page_attr (vs_areas demo_space) k = (if 16 \<le> k \<and> k < 18 then Some (perm_ruw, False, VMmap, NoFile) else None)"
  by (auto simp: page_attr_def demo_defs area_new_mmap_def rm_abs_def)




text \<open>
  Unmapping nothing at the start of an area splits the area into an empty one, which is returned, and itself.
\<close>

definition demo_rest :: vm_space where
  "demo_rest = demo_space\<lparr>vs_pt := \<lambda>_. None,
     vs_areas := [(17, \<lparr>node_end = 18, node_value = area_new_mmap (0x11000, 0x12000) perm_ruw False NoFile 0x11000 0x1000\<rparr>)]\<rparr>"

lemmas demo_eval = space_unmap_def try_union_def unmap_find_def area_split_off_def demo_space_def demo_area_def
  area_new_mmap_def va_floor_def va_ceil_def va_add_def va_from_def vpn_add_def vpn_from_def vpn_start_addr_def const_defs
  rm_get_def rm_get_key_value_def bt_last_le_def bt_last_lt_def last_opt_def range_vpn_def rng_is_empty_def rm_force_remove_one_def
  rm_set_value_def rm_try_insert_def bt_split_off_def area_unmap_def bt_get_def
  bt_get_mut_def bt_remove_def Let_def

lemma demo_unmaps:
  "\<exists>mid. space_unmap Riscv64 0x10000 0x1000 demo_space = Some (Inr mid, demo_rest) \<and> range_vpn Riscv64 mid = (16, 17)"
  "\<exists>mid. space_unmap Riscv64 0x11000 0 demo_rest = Some (Inr mid, demo_rest) \<and> range_vpn Riscv64 mid = (17, 17) \<and> frames mid = []"
  by (simp_all add: demo_eval demo_rest_def fun_eq_iff)

lemma demo_spins: "munmap_loop Riscv64 n 17 18 0 demo_rest ph = Some None"
proof (induction n)
  case (Suc n)
  have "vpn_start_addr Riscv64 17 = 0x11000" by (simp add: vpn_start_addr_def const_defs va_from_def)
  moreover obtain mid where "space_unmap Riscv64 0x11000 0 demo_rest = Some (Inr mid, demo_rest)"
    "range_vpn Riscv64 mid = (17, 17)" "frames mid = []" using demo_unmaps(2) by blast
  ultimately show ?case using Suc by (simp add: area_drop_def)
qed simp

text \<open>
  C20. \<^verbatim>\<open>munmap\<close> does not require a page-aligned address, and then its loop need not end: with \<open>0x10000\<close> to \<open>0x12000\<close>
  mapped, unmapping one page at \<open>0x10800\<close> spans two pages but subtracts only the rounded length; after the
  first page the remaining length is 0 and every further round unmaps nothing and does not advance.
\<close>

theorem munmap_unaligned_hangs:
  "\<forall>rounds. sys_munmap Riscv64 rounds 0x10800 0x1000 demo_space demo_phys = Some None"
proof
  fix rounds
  have v: "va_floor Riscv64 0x10800 = 16" "va_ceil Riscv64 (va_add Riscv64 0x10800 0x1000) = 18" "page_up 0x1000 = 0x1000"
    "vpn_start_addr Riscv64 16 = 0x10000"
    by (simp_all add: va_floor_def va_ceil_def va_add_def va_from_def vpn_start_addr_def const_defs page_up_def)
  obtain mid where m: "space_unmap Riscv64 0x10000 0x1000 demo_space = Some (Inr mid, demo_rest)"
    "range_vpn Riscv64 mid = (16, 17)" using demo_unmaps(1) by blast
  have "munmap_loop Riscv64 rounds 16 18 0x1000 demo_space demo_phys = Some None"
    using m v(4) demo_spins [of "rounds - 1"] by (cases rounds) (simp_all add: PAGE_SIZE_BITS_def)
  with v show "sys_munmap Riscv64 rounds 0x10800 0x1000 demo_space demo_phys = Some None"
    by (simp add: sys_munmap_def)
qed



end
