(* ===== verification/Futex.thy ===== *)
theory Futex
  imports Process User_Space
begin

text \<open>
  Futexes (\<^verbatim>\<open>os/src/syscall/futex.rs\<close>): the manager with its wait queues, the system call and, as a step
  relation, threads that wait on and post to futex words. \<^verbatim>\<open>FUTEX_WAIT\<close> suspends: it is cut into the part before the
  suspension and the part after it. The manager is behind one lock, and a section under the lock is one step.
\<close>

section \<open>Keys, waiters and the manager\<close>

datatype futex_op =
    FxWait | FxWake | FxFd | FxRequeue | FxCmpRequeue | FxWakeOp | FxLockPi | FxUnlockPi | FxTryLockPi
  | FxWaitBitset | FxWakeBitset | FxWaitBitsetPi | FxUndefined

definition futex_op_from :: "i32 \<Rightarrow> futex_op" where
  "futex_op_from v =
     (if v = 0 then FxWait else if v = 1 then FxWake else if v = 2 then FxFd else if v = 3 then FxRequeue
      else if v = 4 then FxCmpRequeue else if v = 5 then FxWakeOp else if v = 6 then FxLockPi
      else if v = 7 then FxUnlockPi else if v = 8 then FxTryLockPi else if v = 9 then FxWaitBitset
      else if v = 10 then FxWakeBitset else if v = 11 then FxWaitBitsetPi else FxUndefined)"

definition FUTEX_PRIVATE_FLAG_BITMASK :: i32 where "FUTEX_PRIVATE_FLAG_BITMASK = 0x80"
definition FUTEX_CLOCK_REALTIME_BITMASK :: i32 where "FUTEX_CLOCK_REALTIME_BITMASK = 0x100"
definition FUTEX_BITSET_MATCH_ANY :: u32 where "FUTEX_BITSET_MATCH_ANY = 0xFFFFFFFF"

datatype futex_key = FxShared phys_addr | FxPrivate usize virt_addr

text \<open>The waker of a task is named by the task's id.\<close>

record futex_waiter =
  fw_tid :: nat
  fw_waker :: nat
  fw_mask :: u32

text \<open>The hash map of the queues; nothing depends on its order.\<close>

type_synonym futexs = "futex_key \<Rightarrow> futex_waiter list option"

definition fm_new :: futexs where
  "fm_new = (\<lambda>_. None)"

definition add_waiter :: "futex_key \<Rightarrow> futex_waiter \<Rightarrow> futexs \<Rightarrow> futexs" where
  "add_waiter key w fm =
     (case fm key of
        Some waiters \<Rightarrow> fm(key \<mapsto> waiters @ [w])
      | None \<Rightarrow> fm(key \<mapsto> [w]))"

fun take_waiter :: "nat \<Rightarrow> futex_waiter list \<Rightarrow> futex_waiter option \<times> futex_waiter list" where
  "take_waiter tid [] = (None, [])"
| "take_waiter tid (w # ws) =
     (if fw_tid w = tid then (Some w, ws)
      else let (r, ws') = take_waiter tid ws in (r, w # ws'))"

definition remove_waiter :: "futex_key \<Rightarrow> nat \<Rightarrow> futexs \<Rightarrow> futex_waiter option \<times> futexs" where
  "remove_waiter key tid fm =
     (case fm key of
        Some waiters \<Rightarrow> let (r, ws) = take_waiter tid waiters in (r, fm(key \<mapsto> ws))
      | None \<Rightarrow> (None, fm))"

text \<open>The number of waiters woken, the wakers called, in order, and the manager.\<close>

definition fm_wake :: "futex_key \<Rightarrow> u32 \<Rightarrow> futexs \<Rightarrow> (sys_error + usize) \<times> nat list \<times> futexs" where
  "fm_wake key n fm =
     (case fm key of
        Some waiters \<Rightarrow>
          let k = min (unat n) (length waiters)
          in (Ok (of_nat k), map fw_waker (take k waiters), fm(key \<mapsto> drop k waiters))
      | None \<Rightarrow> (Err EINVAL, [], fm))"

text \<open>
  The loop of \<^verbatim>\<open>wake_bitset\<close> fixes the length before it removes waiters, looks at the queue from its back and
  removes from its front; an index beyond the shrunken queue panics.
\<close>

function wake_bitset_loop ::
  "nat \<Rightarrow> nat \<Rightarrow> u32 \<Rightarrow> nat \<Rightarrow> nat \<Rightarrow> futex_waiter list \<Rightarrow> nat list \<Rightarrow> (nat \<times> nat list \<times> futex_waiter list) option" where
  "wake_bitset_loop len max_count msk i cnt ws woken =
     (if i < len \<and> cnt < max_count then
        (if \<not> len - 1 - i < length ws then panic
         else if fw_mask (ws ! (len - 1 - i)) AND msk \<noteq> 0 then
           (if \<not> i < length ws then panic
            else wake_bitset_loop len max_count msk i (cnt + 1) (take i ws @ drop (i + 1) ws) (woken @ [fw_waker (ws ! i)]))
         else wake_bitset_loop len max_count msk (i + 1) cnt ws woken)
      else Some (cnt, woken, ws))"
  by pat_completeness auto
termination
  by (relation "measure (\<lambda>(len, max_count, msk, i, cnt, ws, woken). (len - i) + (max_count - cnt))") auto

declare wake_bitset_loop.simps [simp del]

definition fm_wake_bitset ::
  "futex_key \<Rightarrow> u32 \<Rightarrow> u32 \<Rightarrow> futexs \<Rightarrow> ((sys_error + usize) \<times> nat list \<times> futexs) option" where
  "fm_wake_bitset key n msk fm =
     (case fm key of
        Some waiters \<Rightarrow> do {
          (cnt, woken, ws) \<leftarrow> wake_bitset_loop (length waiters) (unat n) msk 0 0 waiters [];
          Some (Ok (of_nat cnt), woken, fm(key \<mapsto> ws)) }
      | None \<Rightarrow> Some (Err EINVAL, [], fm))"

definition requeue_waiters :: "futex_key \<Rightarrow> futex_key \<Rightarrow> usize \<Rightarrow> futexs \<Rightarrow> (sys_error + usize) \<times> futexs" where
  "requeue_waiters old new n_req fm =
     (case fm old of
        None \<Rightarrow> (Err EINVAL, fm)
      | Some old_waiters \<Rightarrow>
          let fm = fm(old := None);
              n = min (unat n_req) (length old_waiters);
              fm = (case fm new of
                      Some new_waiters \<Rightarrow> fm(new \<mapsto> new_waiters @ take n old_waiters)
                    | None \<Rightarrow> fm(new \<mapsto> take n old_waiters));
              old_waiters = drop n old_waiters
          in (Ok (of_nat n), if old_waiters \<noteq> [] then fm(old \<mapsto> old_waiters) else fm))"

section \<open>The system call\<close>

record timespec =
  tv_sec :: usize
  tv_nsec :: usize

definition timespec_is_valid :: "timespec \<Rightarrow> bool" where
  "timespec_is_valid ts \<longleftrightarrow> 0 \<le> sint (tv_sec ts) \<and> 0 \<le> sint (tv_nsec ts) \<and> tv_nsec ts < 1000000000"

text \<open>A duration is a number of nanoseconds.\<close>

definition timespec_duration :: "timespec \<Rightarrow> nat" where
  "timespec_duration ts = unat (tv_sec ts) * 1000000000 + unat (tv_nsec ts)"

text \<open>
  What the call finds outside of its own state: the address space's identity, the answers to a page fault, the time,
  the timeout it is given (none for a null pointer), the values its atomic loads return, and for every
  compare-exchange of \<^verbatim>\<open>FUTEX_WAKE_OP\<close> whether it succeeds (no value) or which value it finds instead.
\<close>

record futex_env =
  fe_mm :: usize
  fe_vm :: vm_env
  fe_now :: nat
  fe_timeout :: "timespec option"
  fe_first :: u32
  fe_locked :: u32
  fe_word2 :: u32
  fe_cas :: "nat \<Rightarrow> u32 option"

record futex_state =
  fx_fm :: futexs
  fx_task :: task
  fx_space :: vm_space
  fx_phys :: phys

datatype futex_out = FxReturn "sys_error + usize" | FxSleep "nat option"

record futex_result =
  fr_out :: futex_out
  fr_woken :: "nat list"
  fr_store :: "u32 option"
  fr_state :: futex_state

definition fx_ret :: "(sys_error + usize) \<Rightarrow> nat list \<Rightarrow> futex_state \<Rightarrow> futex_result" where
  "fx_ret r woken st = \<lparr>fr_out = FxReturn r, fr_woken = woken, fr_store = None, fr_state = st\<rparr>"

abbreviation acc_w :: access_type where
  "acc_w \<equiv> \<lparr>acc_read = False, acc_write = True, acc_exec = False\<rparr>"

text \<open>
  \<^verbatim>\<open>translate_uva_checked\<close> for a write access; an entry that is not valid has no flags and is refused, so the
  leaves of the page table are all that counts.
\<close>

definition translate_uva_checked ::
  "arch \<Rightarrow> vm_env \<Rightarrow> virt_addr \<Rightarrow> vm_space \<Rightarrow> phys \<Rightarrow> (phys_addr option \<times> vm_space \<times> phys) option" where
  "translate_uva_checked a env va s ph =
     (let fault = do {
        (r, s, ph) \<leftarrow> handle_page_fault a env va acc_w s ph;
        (case r of
           Inl _ \<Rightarrow> Some (None, s, ph)
         | Inr _ \<Rightarrow> do {
             ppn \<leftarrow> translate_vpn (va_floor a va) s;
             Some (Some (pa_add a (ppn_start_addr ppn) (page_offset va)), s, ph) }) }
      in case vs_pt s (va_floor a va) of
           Some pte \<Rightarrow>
             if can_access acc_w (v_perm pte)
             then Some (Some (pa_add a (ppn_start_addr (v_ppn pte)) (page_offset va)), s, ph)
             else fault
         | None \<Rightarrow> fault)"

definition futex_key_of ::
  "arch \<Rightarrow> futex_env \<Rightarrow> bool \<Rightarrow> usize \<Rightarrow> futex_state \<Rightarrow> ((sys_error + futex_key) \<times> futex_state) option" where
  "futex_key_of a env is_private uaddr st =
     (if is_private then Some (Ok (FxPrivate (fe_mm env) (va_from a uaddr)), st)
      else do {
        (r, s, ph) \<leftarrow> translate_uva_checked a (fe_vm env) (va_from a uaddr) (fx_space st) (fx_phys st);
        let st = st\<lparr>fx_space := s, fx_phys := ph\<rparr>;
        Some ((case r of None \<Rightarrow> Err EINVAL | Some paddr \<Rightarrow> Ok (FxShared paddr)), st) })"

definition add_awaiter :: "futex_key \<Rightarrow> u32 \<Rightarrow> futexs \<Rightarrow> task \<Rightarrow> (futexs \<times> task) option" where
  "add_awaiter key msk fm task = do {
     let task = task\<lparr>t_status := Interruptable\<rparr>;
     let task = task\<lparr>t_sig := (t_sig task)\<lparr>wake_sigs := NOT (blocked_sigs (t_sig task))\<rparr>\<rparr>;
     assert_that (t_waker task);
     Some (add_waiter key \<lparr>fw_tid = t_tid task, fw_waker = t_tid task, fw_mask = msk\<rparr> fm, task) }"

text \<open>The section of a wait under the manager's lock: the futex word is read again before the thread is queued.\<close>

definition futex_wait_locked ::
  "futex_key \<Rightarrow> u32 \<Rightarrow> u32 \<Rightarrow> u32 \<Rightarrow> futexs \<Rightarrow> task \<Rightarrow> ((sys_error + unit) \<times> futexs \<times> task) option" where
  "futex_wait_locked key msk val word fm task =
     (if word \<noteq> val then Some (Err EAGAIN, fm, task)
      else do {
        (fm, task) \<leftarrow> add_awaiter key msk fm task;
        Some (Ok (), fm, task) })"

text \<open>The end of a wait by a timeout or a signal: a waiter that is no longer queued has been woken.\<close>

definition futex_give_up ::
  "sys_error \<Rightarrow> futex_key \<Rightarrow> futexs \<Rightarrow> task \<Rightarrow> (sys_error + usize) \<times> futexs \<times> task" where
  "futex_give_up e key fm task =
     (let task = task\<lparr>t_status := Running\<rparr>;
          (r, fm) = remove_waiter key (t_tid task) fm
      in (if r = None then Ok 0 else Err e, fm, task))"

definition futex_wait ::
  "futex_env \<Rightarrow> bool \<Rightarrow> futex_key \<Rightarrow> u32 \<Rightarrow> u32 \<Rightarrow> futex_state \<Rightarrow> futex_result option" where
  "futex_wait env is_realtime key msk val st =
     (if fe_first env \<noteq> val then Some (fx_ret (Err EAGAIN) [] st)
      else do {
        (r, fm, task) \<leftarrow> futex_wait_locked key msk val (fe_locked env) (fx_fm st) (fx_task st);
        let st = st\<lparr>fx_fm := fm, fx_task := task\<rparr>;
        let sleep = (\<lambda>dur. \<lparr>fr_out = FxSleep dur, fr_woken = [], fr_store = None, fr_state = st\<rparr>);
        (case r of
           Inl e \<Rightarrow> Some (fx_ret (Err e) [] st)
         | Inr _ \<Rightarrow>
             (case fe_timeout env of
                None \<Rightarrow> Some (sleep None)
              | Some ts \<Rightarrow>
                  if \<not> timespec_is_valid ts then Some (fx_ret (Err EINVAL) [] st)
                  else
                    let timeout = timespec_duration ts
                    in if is_realtime then
                         if timeout \<le> fe_now env then
                           let (r, fm, task) = futex_give_up ETIMEOUT key fm task
                           in Some (fx_ret r [] (st\<lparr>fx_fm := fm, fx_task := task\<rparr>))
                         else Some (sleep (Some (timeout - fe_now env)))
                       else Some (sleep (Some timeout)))) })"

text \<open>After the suspension: \<open>timed_out\<close> if there was a timeout and no time is left of it.\<close>

definition futex_wait_resume :: "bool \<Rightarrow> futex_key \<Rightarrow> futexs \<Rightarrow> task \<Rightarrow> (sys_error + usize) \<times> futexs \<times> task" where
  "futex_wait_resume timed_out key fm task =
     (if timed_out then futex_give_up ETIMEOUT key fm task
      else if check_pending_flag (NOT (blocked_sigs (t_sig task))) (t_sig task)
      then futex_give_up EINTR key fm task
      else (Ok 0, fm, task\<lparr>t_status := Running\<rparr>))"

definition futex_requeue ::
  "arch \<Rightarrow> futex_env \<Rightarrow> bool \<Rightarrow> futex_key \<Rightarrow> u32 \<Rightarrow> usize \<Rightarrow> usize \<Rightarrow> futex_state \<Rightarrow> futex_result option" where
  "futex_requeue a env is_private key val timeout uaddr2 st =
     (let (n_woke, woken, fm) = fm_wake key val (fx_fm st);
          st = st\<lparr>fx_fm := fm\<rparr>
      in case n_woke of
           Inl e \<Rightarrow> Some (fx_ret (Err e) woken st)
         | Inr n \<Rightarrow> do {
             (new_key, st) \<leftarrow> futex_key_of a env is_private uaddr2 st;
             (case new_key of
                Inl e \<Rightarrow> Some (fx_ret (Err e) woken st)
              | Inr new_key \<Rightarrow>
                  let (r, fm) = requeue_waiters key new_key timeout (fx_fm st);
                      st = st\<lparr>fx_fm := fm\<rparr>
                  in Some (fx_ret (case r of Inl e \<Rightarrow> Err e | Inr _ \<Rightarrow> Ok n) woken st)) })"

definition wake_op_value :: "u32 \<Rightarrow> u32 \<Rightarrow> u32 \<Rightarrow> u32 option" where
  "wake_op_value op oparg oldval =
     (let op = op AND 7
      in if op = 0 then Some oparg
         else if op = 1 then Some (oldval + oparg)
         else if op = 2 then Some (oldval OR oparg)
         else if op = 3 then Some (oldval AND NOT oparg)
         else if op = 4 then Some (oldval XOR oparg)
         else panic)"

definition wake_op_check :: "u32 \<Rightarrow> u32 \<Rightarrow> u32 \<Rightarrow> bool option" where
  "wake_op_check cmp cmparg oldval =
     (if cmp = 0 then Some (oldval = cmparg)
      else if cmp = 1 then Some (oldval \<noteq> cmparg)
      else if cmp = 2 then Some (oldval < cmparg)
      else if cmp = 3 then Some (oldval \<le> cmparg)
      else if cmp = 4 then Some (oldval > cmparg)
      else if cmp = 5 then Some (oldval \<ge> cmparg)
      else panic)"

function cas_loop :: "u32 \<Rightarrow> u32 \<Rightarrow> (nat \<Rightarrow> u32 option) \<Rightarrow> nat \<Rightarrow> u32 \<Rightarrow> (sys_error + (u32 \<times> u32)) option" where
  "cas_loop op oparg cas spin_times oldval = do {
     newval \<leftarrow> wake_op_value op oparg oldval;
     (case cas spin_times of
        None \<Rightarrow> Some (Ok (oldval, newval))
      | Some v \<Rightarrow>
          if spin_times > 100000 then Some (Err EBUSY)
          else cas_loop op oparg cas (spin_times + 1) v) }"
  by pat_completeness auto
termination by (relation "measure (\<lambda>(_, _, _, spin_times, _). 100001 - spin_times)") auto

declare cas_loop.simps [simp del]

definition futex_wake_op ::
  "arch \<Rightarrow> futex_env \<Rightarrow> bool \<Rightarrow> futex_key \<Rightarrow> u32 \<Rightarrow> usize \<Rightarrow> usize \<Rightarrow> u32 \<Rightarrow> futex_state \<Rightarrow> futex_result option" where
  "futex_wake_op a env is_private key val timeout uaddr2 val3 st = do {
     let val2 = (ucast timeout :: u32);
     let op = drop_bit 28 val3 AND 0xF;
     let cmp = drop_bit 24 val3 AND 0xF;
     let oparg = drop_bit 12 val3 AND 0xFFF;
     let cmparg = val3 AND 0xFFF;
     let actual_oparg = (if op AND 8 \<noteq> 0 then push_bit (unat (oparg AND 31)) 1 else oparg);
     cas \<leftarrow> cas_loop op actual_oparg (fe_cas env) 0 (fe_word2 env);
     (case cas of
        Inl e \<Rightarrow> Some (fx_ret (Err e) [] st)
      | Inr (oldval, newval) \<Rightarrow>
          let (n_woke1, woken1, fm) = fm_wake key val (fx_fm st);
              st = st\<lparr>fx_fm := fm\<rparr>
          in case n_woke1 of
               Inl e \<Rightarrow> Some ((fx_ret (Err e) woken1 st)\<lparr>fr_store := Some newval\<rparr>)
             | Inr n1 \<Rightarrow> do {
                 check \<leftarrow> wake_op_check cmp cmparg oldval;
                 if check then do {
                   (key2, st) \<leftarrow> futex_key_of a env is_private uaddr2 st;
                   (case key2 of
                      Inl e \<Rightarrow> Some ((fx_ret (Err e) woken1 st)\<lparr>fr_store := Some newval\<rparr>)
                    | Inr _ \<Rightarrow>
                        let (n_woke2, woken2, fm) = fm_wake key val2 (fx_fm st);
                            st = st\<lparr>fx_fm := fm\<rparr>
                        in Some ((fx_ret (case n_woke2 of Inl e \<Rightarrow> Err e | Inr n2 \<Rightarrow> Ok (n1 + n2)) (woken1 @ woken2) st)
                             \<lparr>fr_store := Some newval\<rparr>)) }
                 else Some ((fx_ret (Ok n1) woken1 st)\<lparr>fr_store := Some newval\<rparr>) }) }"

definition sys_futex ::
  "arch \<Rightarrow> futex_env \<Rightarrow> usize \<Rightarrow> i32 \<Rightarrow> u32 \<Rightarrow> usize \<Rightarrow> usize \<Rightarrow> u32 \<Rightarrow> futex_state \<Rightarrow> futex_result option" where
  "sys_futex a env uaddr op val timeout uaddr2 val3 st = do {
     let is_private = (op AND FUTEX_PRIVATE_FLAG_BITMASK \<noteq> 0);
     let is_realtime = (op AND FUTEX_CLOCK_REALTIME_BITMASK \<noteq> 0);
     let op = futex_op_from (op AND NOT (FUTEX_PRIVATE_FLAG_BITMASK OR FUTEX_CLOCK_REALTIME_BITMASK));
     (key, st) \<leftarrow> futex_key_of a env is_private uaddr st;
     (case key of
        Inl e \<Rightarrow> Some (fx_ret (Err e) [] st)
      | Inr key \<Rightarrow>
          (case op of
             FxWait \<Rightarrow> futex_wait env is_realtime key FUTEX_BITSET_MATCH_ANY val st
           | FxWaitBitset \<Rightarrow>
               if val3 = 0 then Some (fx_ret (Err EINVAL) [] st)
               else futex_wait env is_realtime key val3 val st
           | FxWake \<Rightarrow>
               let (r, woken, fm) = fm_wake key val (fx_fm st) in Some (fx_ret r woken (st\<lparr>fx_fm := fm\<rparr>))
           | FxFd \<Rightarrow> Some (fx_ret (Err EINVAL) [] st)
           | FxRequeue \<Rightarrow> futex_requeue a env is_private key val timeout uaddr2 st
           | FxCmpRequeue \<Rightarrow>
               if fe_first env \<noteq> val3 then Some (fx_ret (Err EAGAIN) [] st)
               else futex_requeue a env is_private key val timeout uaddr2 st
           | FxWakeOp \<Rightarrow> futex_wake_op a env is_private key val timeout uaddr2 val3 st
           | FxWakeBitset \<Rightarrow>
               if val3 = 0 then Some (fx_ret (Err EINVAL) [] st)
               else do {
                 (r, woken, fm) \<leftarrow> fm_wake_bitset key val val3 (fx_fm st);
                 Some (fx_ret r woken (st\<lparr>fx_fm := fm\<rparr>)) }
           | _ \<Rightarrow> Some (fx_ret (Err EINVAL) [] st))) }"

section \<open>Threads that wait and post\<close>

text \<open>
  A thread waits by reading the word, and then, under the lock, reading it again and queueing itself; it posts by storing a
  new value and then waking all waiters. A sleeping thread runs again when it was woken, when its timeout is over or
  when a signal is pending. The word of a key is memory that every thread of the system shares.
\<close>

datatype fx_pc = FxIdle | FxChecked futex_key u32 u32 | FxAsleep futex_key u32 | FxWoken futex_key | FxPosted futex_key

record fx_sys =
  fs_mem :: "futex_key \<Rightarrow> u32"
  fs_fm :: futexs
  fs_task :: "nat \<Rightarrow> task"
  fs_pc :: "nat \<Rightarrow> fx_pc"

definition queue :: "futexs \<Rightarrow> futex_key \<Rightarrow> futex_waiter list" where
  "queue fm key = (case fm key of Some ws \<Rightarrow> ws | None \<Rightarrow> [])"

inductive fx_step :: "fx_sys \<Rightarrow> fx_sys \<Rightarrow> bool" where
  check: "fs_pc s t = FxIdle \<Longrightarrow> fs_mem s key = val \<Longrightarrow>
    fx_step s (s\<lparr>fs_pc := (fs_pc s)(t := FxChecked key val msk)\<rparr>)"
| enqueue: "fs_pc s t = FxChecked key val msk \<Longrightarrow>
    futex_wait_locked key msk val (fs_mem s key) (fs_fm s) (fs_task s t) = Some (Ok (), fm, task) \<Longrightarrow>
    fx_step s (s\<lparr>fs_fm := fm, fs_task := (fs_task s)(t := task), fs_pc := (fs_pc s)(t := FxAsleep key val)\<rparr>)"
| again: "fs_pc s t = FxChecked key val msk \<Longrightarrow>
    futex_wait_locked key msk val (fs_mem s key) (fs_fm s) (fs_task s t) = Some (Err e, fm, task) \<Longrightarrow>
    fx_step s (s\<lparr>fs_fm := fm, fs_task := (fs_task s)(t := task), fs_pc := (fs_pc s)(t := FxIdle)\<rparr>)"
| store: "fs_pc s t = FxIdle \<Longrightarrow>
    fx_step s (s\<lparr>fs_mem := (fs_mem s)(key := v), fs_pc := (fs_pc s)(t := FxPosted key)\<rparr>)"
| wake: "fs_pc s t = FxPosted key \<Longrightarrow> length (queue (fs_fm s) key) \<le> unat n \<Longrightarrow>
    fm_wake key n (fs_fm s) = (r, woken, fm) \<Longrightarrow>
    fx_step s (s\<lparr>fs_fm := fm,
      fs_pc := (\<lambda>u. if u = t then FxIdle else if u \<in> set woken then FxWoken key else fs_pc s u)\<rparr>)"
| give_up: "fs_pc s t = FxAsleep key val \<or> fs_pc s t = FxWoken key \<Longrightarrow>
    timed_out \<or> check_pending_flag (NOT (blocked_sigs (t_sig (fs_task s t)))) (t_sig (fs_task s t)) \<Longrightarrow>
    futex_wait_resume timed_out key (fs_fm s) (fs_task s t) = (r, fm, task) \<Longrightarrow>
    fx_step s (s\<lparr>fs_fm := fm, fs_task := (fs_task s)(t := task), fs_pc := (fs_pc s)(t := FxIdle)\<rparr>)"
| resume: "fs_pc s t = FxWoken key \<Longrightarrow> futex_wait_resume False key (fs_fm s) (fs_task s t) = (r, fm, task) \<Longrightarrow>
    fx_step s (s\<lparr>fs_fm := fm, fs_task := (fs_task s)(t := task), fs_pc := (fs_pc s)(t := FxIdle)\<rparr>)"

definition fx_init :: "fx_sys \<Rightarrow> bool" where
  "fx_init s \<longleftrightarrow> fs_fm s = fm_new \<and> (\<forall>t. fs_pc s t = FxIdle \<and> t_tid (fs_task s t) = t \<and> t_waker (fs_task s t))"

definition fx_inv :: "fx_sys \<Rightarrow> bool" where
  "fx_inv s \<longleftrightarrow>
     (\<forall>t. t_tid (fs_task s t) = t) \<and>
     (\<forall>key. distinct (map fw_tid (queue (fs_fm s) key)) \<and> (\<forall>w \<in> set (queue (fs_fm s) key). fw_waker w = fw_tid w)) \<and>
     (\<forall>key t. t \<in> fw_tid ` set (queue (fs_fm s) key) \<longleftrightarrow> (\<exists>v. fs_pc s t = FxAsleep key v)) \<and>
     (\<forall>t key v. fs_pc s t = FxAsleep key v \<longrightarrow> fs_mem s key = v \<or> (\<exists>u. fs_pc s u = FxPosted key))"

section \<open>Queues\<close>

lemma queue_upd: "queue (fm(k \<mapsto> ws)) key = (if key = k then ws else queue fm key)"
  by (simp add: queue_def)

lemma queue_add [simp]: "queue (add_waiter k w fm) key = (if key = k then queue fm key @ [w] else queue fm key)"
  by (auto simp: add_waiter_def queue_def split: option.splits)

lemma take_waiter_spec:
  assumes "distinct (map fw_tid ws)"
  shows "snd (take_waiter tid ws) = filter (\<lambda>w. fw_tid w \<noteq> tid) ws"
    and "fst (take_waiter tid ws) = None \<longleftrightarrow> tid \<notin> fw_tid ` set ws"
  using assms by (induction ws) (auto simp: split_beta image_iff intro!: filter_True [symmetric] dest: sym)

lemma queue_remove:
  assumes "distinct (map fw_tid (queue fm k))"
  shows "queue (snd (remove_waiter k tid fm)) key =
      (if key = k then filter (\<lambda>w. fw_tid w \<noteq> tid) (queue fm k) else queue fm key)"
    and "fst (remove_waiter k tid fm) = None \<longleftrightarrow> tid \<notin> fw_tid ` set (queue fm k)"
  using assms take_waiter_spec [of "queue fm k" tid]
  by (auto simp: remove_waiter_def queue_def split_beta split: option.splits)

lemma fm_wake_all:
  assumes "length (queue fm k) \<le> unat n" "fm_wake k n fm = (r, woken, fm')"
  shows "woken = map fw_waker (queue fm k)" "queue fm' key = (if key = k then [] else queue fm key)"
  using assms by (auto simp: fm_wake_def queue_def Let_def split: option.splits)

lemma fx_invD:
  assumes "fx_inv s"
  shows "t_tid (fs_task s t) = t" "distinct (map fw_tid (queue (fs_fm s) key))"
    "w \<in> set (queue (fs_fm s) key) \<Longrightarrow> fw_waker w = fw_tid w"
    "t \<in> fw_tid ` set (queue (fs_fm s) key) \<longleftrightarrow> (\<exists>v. fs_pc s t = FxAsleep key v)"
    "fs_pc s t = FxAsleep key v \<Longrightarrow> fs_mem s key = v \<or> (\<exists>u. fs_pc s u = FxPosted key)"
  using assms by (simp_all add: fx_inv_def)

lemma fx_invI:
  assumes "\<And>t. t_tid (fs_task s t) = t" "\<And>key. distinct (map fw_tid (queue (fs_fm s) key))"
    "\<And>key w. w \<in> set (queue (fs_fm s) key) \<Longrightarrow> fw_waker w = fw_tid w"
    "\<And>t key. t \<in> fw_tid ` set (queue (fs_fm s) key) \<longleftrightarrow> (\<exists>v. fs_pc s t = FxAsleep key v)"
    "\<And>t key v. fs_pc s t = FxAsleep key v \<Longrightarrow> fs_mem s key = v \<or> (\<exists>u. fs_pc s u = FxPosted key)"
  shows "fx_inv s"
  using assms unfolding fx_inv_def by simp

section \<open>The invariant\<close>

lemma enqueue_inv:
  assumes inv: "fx_inv s" and pc: "fs_pc s t = FxChecked key val msk"
    and w: "futex_wait_locked key msk val (fs_mem s key) (fs_fm s) (fs_task s t) = Some (Ok (), fm, task)"
  shows "fx_inv (s\<lparr>fs_fm := fm, fs_task := (fs_task s)(t := task), fs_pc := (fs_pc s)(t := FxAsleep key val)\<rparr>)"
proof -
  note i = fx_invD [OF inv]
  from w have m: "fs_mem s key = val" "t_tid task = t"
    "fm = add_waiter key \<lparr>fw_tid = t, fw_waker = t, fw_mask = msk\<rparr> (fs_fm s)"
    using i(1) [of t] by (auto simp: futex_wait_locked_def add_awaiter_def Let_def bind_eq_Some_conv split: if_splits)
  have "t \<notin> fw_tid ` set (queue (fs_fm s) k)" for k using i(4) [of t k] pc by simp
  moreover have "fs_mem s k = v \<or> (\<exists>u. u \<noteq> t \<and> fs_pc s u = FxPosted k)" if "fs_pc s u = FxAsleep k v" for u k v
    using i(5) [OF that] pc by force
  ultimately show ?thesis using i(1-4) m pc unfolding fx_inv_def by (auto split: if_splits) blast
qed

lemma leave_inv:
  assumes inv: "fx_inv s" and q: "\<And>k. queue fm k = filter (\<lambda>w. fw_tid w \<noteq> t) (queue (fs_fm s) k)"
    and task: "t_tid task = t" and pc: "\<forall>k. fs_pc s t \<noteq> FxPosted k"
  shows "fx_inv (s\<lparr>fs_fm := fm, fs_task := (fs_task s)(t := task), fs_pc := (fs_pc s)(t := FxIdle)\<rparr>)"
proof -
  note i = fx_invD [OF inv]
  have tids: "u \<in> fw_tid ` set (queue fm k) \<longleftrightarrow> u \<noteq> t \<and> (\<exists>v. fs_pc s u = FxAsleep k v)" for u k
    unfolding q i(4) [of u k, symmetric] by auto
  have post: "fs_mem s k = v \<or> (\<exists>u. u \<noteq> t \<and> fs_pc s u = FxPosted k)" if "fs_pc s u = FxAsleep k v" for u k v
    using i(5) [OF that] pc by metis
  show ?thesis (is "fx_inv ?s")
  proof (rule fx_invI)
    fix u k v assume "fs_pc ?s u = FxAsleep k v"
    with post [of u k v] show "fs_mem ?s k = v \<or> (\<exists>u. fs_pc ?s u = FxPosted k)" by (auto split: if_splits)
  qed (use i(1-3) task tids in \<open>auto simp: q distinct_map_filter split: if_splits\<close>)
qed

lemma resume_queue:
  assumes inv: "fx_inv s" and pc: "fs_pc s t = FxAsleep key val \<or> fs_pc s t = FxWoken key"
    and r: "futex_wait_resume timed_out key (fs_fm s) (fs_task s t) = (r, fm, task)"
    and c: "fs_pc s t = FxWoken key \<or> timed_out \<or>
      check_pending_flag (NOT (blocked_sigs (t_sig (fs_task s t)))) (t_sig (fs_task s t))"
  shows "queue fm k = filter (\<lambda>w. fw_tid w \<noteq> t) (queue (fs_fm s) k)" "t_tid task = t"
proof -
  note i = fx_invD [OF inv]
  have other: "filter (\<lambda>w. fw_tid w \<noteq> t) (queue (fs_fm s) k) = queue (fs_fm s) k" if "\<nexists>v. fs_pc s t = FxAsleep k v" for k
    using that unfolding i(4) [of t k, symmetric] by (auto simp: filter_id_conv)
  have give: "queue fm k = filter (\<lambda>w. fw_tid w \<noteq> t) (queue (fs_fm s) k) \<and> t_tid task = t"
    if "futex_give_up e key (fs_fm s) (fs_task s t) = (r, fm, task)" for e
    using that queue_remove(1) [OF i(2), of key t k] other [of k] pc i(1) [of t]
    by (auto simp: futex_give_up_def Let_def split_beta)
  show "queue fm k = filter (\<lambda>w. fw_tid w \<noteq> t) (queue (fs_fm s) k)" "t_tid task = t"
    using r c give other [of k] i(1) [of t] pc by (auto simp: futex_wait_resume_def split: if_splits)
qed

lemma wake_inv:
  assumes inv: "fx_inv s" and pc: "fs_pc s t = FxPosted key" and n: "length (queue (fs_fm s) key) \<le> unat n"
    and w: "fm_wake key n (fs_fm s) = (r, woken, fm)"
  shows "fx_inv (s\<lparr>fs_fm := fm,
      fs_pc := (\<lambda>u. if u = t then FxIdle else if u \<in> set woken then FxWoken key else fs_pc s u)\<rparr>)"
proof -
  note i = fx_invD [OF inv] and a = fm_wake_all [OF n w]
  have woken: "u \<in> set woken \<longleftrightarrow> (\<exists>v. fs_pc s u = FxAsleep key v)" for u
    unfolding a(1) i(4) [of u key, symmetric] using i(3) by force
  have asleep: "fs_pc s u = FxAsleep k v \<Longrightarrow> k \<noteq> key \<Longrightarrow> fs_mem s k = v \<or> (\<exists>u. u \<noteq> t \<and> u \<notin> set woken \<and> fs_pc s u = FxPosted k)" for u k v
    using i(5) [of u k v] pc woken by force
  have tids: "u \<in> fw_tid ` set (queue fm k) \<longleftrightarrow> k \<noteq> key \<and> (\<exists>v. fs_pc s u = FxAsleep k v)" for u k
    using a(2) [of k] i(4) [of u k] by simp
  show ?thesis (is "fx_inv ?s")
  proof (rule fx_invI)
    fix u k v assume "fs_pc ?s u = FxAsleep k v"
    then have "fs_pc s u = FxAsleep k v" "k \<noteq> key" using woken [of u] by (auto split: if_splits)
    with asleep [of u k v] show "fs_mem ?s k = v \<or> (\<exists>u. fs_pc ?s u = FxPosted k)" by auto
  next
    fix u k
    show "u \<in> fw_tid ` set (queue (fs_fm ?s) k) \<longleftrightarrow> (\<exists>v. fs_pc ?s u = FxAsleep k v)"
      using tids [of u k] woken [of u] pc by auto
  qed (use i(1-3) a(2) in \<open>auto split: if_splits\<close>)
qed

lemma fx_step_inv: "fx_step s s' \<Longrightarrow> fx_inv s \<Longrightarrow> fx_inv s'"
proof (induction rule: fx_step.induct)
  case (check s t key val msk)
  note i = fx_invD [OF check(3)]
  have post: "\<exists>u. u \<noteq> t \<and> fs_pc s u = FxPosted k" if "fs_pc s u = FxPosted k" for u k using that check(1) by force
  show ?case (is "fx_inv ?s")
  proof (rule fx_invI)
    fix u k v assume "fs_pc ?s u = FxAsleep k v"
    with i(5) [of u k v] post [of _ k] show "fs_mem ?s k = v \<or> (\<exists>u. fs_pc ?s u = FxPosted k)" by (auto split: if_splits)
  qed (use i(1-4) check(1) in \<open>auto split: if_splits\<close>)
next
  case (enqueue s t key val msk fm task)
  then show ?case by (blast intro: enqueue_inv)
next
  case (again s t key val msk e fm task)
  note i = fx_invD [OF again(3)]
  have f: "fm = fs_fm s" "task = fs_task s t"
    using again(2) by (auto simp: futex_wait_locked_def bind_eq_Some_conv split: if_splits)
  have "filter (\<lambda>w. fw_tid w \<noteq> t) (queue (fs_fm s) k) = queue (fs_fm s) k" for k
    using i(4) [of t k] again(1) by (auto simp: filter_id_conv)
  with leave_inv [OF again(3), of fm t task] f i(1) [of t] again(1) show ?case by simp
next
  case (store s t key v)
  note i = fx_invD [OF store(2)]
  have post: "\<exists>u. u \<noteq> t \<and> fs_pc s u = FxPosted k" if "fs_pc s u = FxPosted k" for u k using that store(1) by force
  show ?case (is "fx_inv ?s")
  proof (rule fx_invI)
    fix u k w assume "fs_pc ?s u = FxAsleep k w"
    with i(5) [of u k w] post [of _ k] show "fs_mem ?s k = w \<or> (\<exists>u. fs_pc ?s u = FxPosted k)" by (auto split: if_splits)
  qed (use i(1-4) store(1) in \<open>auto split: if_splits\<close>)
next
  case (wake s t key n r woken fm)
  then show ?case by (blast intro: wake_inv)
next
  case (give_up s t key val timed_out r fm task)
  from resume_queue [OF give_up(4,1,3)] give_up(2) have
    "\<And>k. queue fm k = filter (\<lambda>w. fw_tid w \<noteq> t) (queue (fs_fm s) k)" "t_tid task = t" by blast+
  from leave_inv [OF give_up(4) this] give_up(1) show ?case by force
next
  case (resume s t key r fm task)
  from resume_queue [OF resume(3) disjI2 [OF resume(1)] resume(2) disjI1 [OF resume(1)]] have
    "\<And>k. queue fm k = filter (\<lambda>w. fw_tid w \<noteq> t) (queue (fs_fm s) k)" "t_tid task = t" by blast+
  from leave_inv [OF resume(3) this] resume(1) show ?case by simp
qed

lemma fx_reach_inv: "fx_step\<^sup>*\<^sup>* s s' \<Longrightarrow> fx_init s \<Longrightarrow> fx_inv s'"
proof (induction rule: rtranclp_induct)
  case base
  then show ?case by (intro fx_invI) (simp_all add: fx_init_def queue_def fm_new_def)
qed (blast intro: fx_step_inv)

section \<open>Properties\<close>


definition demo_task :: "nat \<Rightarrow> task" where
  "demo_task t = \<lparr>t_tid = t, t_group = t, t_status = Running, t_exit_code = 0, t_sig = sm_new, t_waker = True,
     t_woken = False, t_files = 0\<rparr>"

definition demo_fx :: fx_sys where
  "demo_fx = \<lparr>fs_mem = (\<lambda>_. 5), fs_fm = fm_new, fs_task = demo_task, fs_pc = (\<lambda>_. FxIdle)\<rparr>"

definition demo_waiter :: "nat \<Rightarrow> u32 \<Rightarrow> futex_waiter" where
  "demo_waiter t msk = \<lparr>fw_tid = t, fw_waker = t, fw_mask = msk\<rparr>"


text \<open>
  C29. Requeueing moves the first waiters, as many as asked for and present, in their order behind the waiters of the new key
  and leaves the rest in place; no other queue changes. Requeueing a key onto itself instead drops the waiters it
  should have moved, unless it moves all of them.
\<close>

theorem futex_requeue_correct:
  assumes "fm old = Some ws"
  shows "(old \<noteq> new \<longrightarrow> fst (requeue_waiters old new n fm) = Ok (of_nat (min (unat n) (length ws))) \<and>
      (\<forall>k. queue (snd (requeue_waiters old new n fm)) k =
        (if k = old then drop (unat n) ws else if k = new then queue fm new @ take (unat n) ws else queue fm k))) \<and>
    (unat n < length ws \<longrightarrow> queue (snd (requeue_waiters old old n fm)) old = drop (unat n) ws)"
  using assms by (auto simp: requeue_waiters_def queue_def Let_def min_def split: option.splits)

theorem futex_requeue_correct_witness:
  "queue (snd (requeue_waiters (FxPrivate 0 64) (FxPrivate 0 68) 1
     (fm_new(FxPrivate 0 64 \<mapsto> [demo_waiter 1 1, demo_waiter 2 1])))) (FxPrivate 0 68) = [demo_waiter 1 1] \<and>
   queue (snd (requeue_waiters (FxPrivate 0 64) (FxPrivate 0 64) 1
     (fm_new(FxPrivate 0 64 \<mapsto> [demo_waiter 1 1, demo_waiter 2 1])))) (FxPrivate 0 64) = [demo_waiter 2 1]"
  using futex_requeue_correct [of "fm_new(FxPrivate 0 64 \<mapsto> [demo_waiter 1 1, demo_waiter 2 1])" "FxPrivate 0 64"
    "[demo_waiter 1 1, demo_waiter 2 1]" "FxPrivate 0 68" 1]
  by (simp add: queue_def fm_new_def)


definition demo_fx_env :: futex_env where
  "demo_fx_env = \<lparr>fe_mm = 0, fe_vm = \<lparr>e_alloc = None, e_zero = 1, e_inode = (\<lambda>_. False), e_page = (\<lambda>_ _. None), e_shm = (\<lambda>_ _. None)\<rparr>,
     fe_now = 0, fe_timeout = Some \<lparr>tv_sec = 0, tv_nsec = -1\<rparr>, fe_first = 5, fe_locked = 5, fe_word2 = 0, fe_cas = (\<lambda>_. None)\<rparr>"

definition demo_fx_state :: futex_state where
  "demo_fx_state = \<lparr>fx_fm = fm_new, fx_task = demo_task 1, fx_space = space_new,
     fx_phys = \<lparr>ph_data = (\<lambda>_ _. 0), ph_owners = (\<lambda>_. 0), ph_dirty = (\<lambda>_. False)\<rparr>\<rparr>"


text \<open>
  A thread can stay queued after its wait returned: a wait with an invalid timeout fails with \<^verbatim>\<open>EINVAL\<close> after the
  thread was queued and marked interruptible, and a thread resumed by anything but a wake-up, a signal or its own timeout
  (a timer left over from an earlier wait, say) returns 0 without leaving the queue. A later wake-up of one waiter
  is then spent on it.
\<close>

theorem futex_stale_waiter:
  assumes "fe_first env = val" "fe_locked env = val" "fe_timeout env = Some ts" "\<not> timespec_is_valid ts"
    and "t_waker (fx_task st)" "\<not> check_pending_flag (NOT (blocked_sigs (t_sig task))) (t_sig task)"
  shows "(\<exists>r. futex_wait env realtime key msk val st = Some r \<and> fr_out r = FxReturn (Err EINVAL) \<and>
      t_status (fx_task (fr_state r)) = Interruptable \<and>
      t_tid (fx_task st) \<in> fw_tid ` set (queue (fx_fm (fr_state r)) key)) \<and>
    futex_wait_resume False key fm task = (Ok 0, fm, task\<lparr>t_status := Running\<rparr>)"
  using assms
  by (simp add: futex_wait_def futex_wait_locked_def add_awaiter_def futex_wait_resume_def fx_ret_def Let_def)

theorem futex_stale_waiter_witness:
  "(\<exists>r. futex_wait demo_fx_env False (FxPrivate 0 64) 1 5 demo_fx_state = Some r \<and> fr_out r = FxReturn (Err EINVAL) \<and>
     1 \<in> fw_tid ` set (queue (fx_fm (fr_state r)) (FxPrivate 0 64))) \<and>
   futex_wait_resume False (FxPrivate 0 64) (fm_new(FxPrivate 0 64 \<mapsto> [demo_waiter 1 1])) (demo_task 1) =
     (Ok 0, fm_new(FxPrivate 0 64 \<mapsto> [demo_waiter 1 1]), (demo_task 1)\<lparr>t_status := Running\<rparr>)"
proof -
  have "\<not> timespec_is_valid \<lparr>tv_sec = 0, tv_nsec = -1\<rparr>" by (simp add: timespec_is_valid_def)
  moreover have "\<not> check_pending_flag (NOT (blocked_sigs (t_sig (demo_task 1)))) (t_sig (demo_task 1))"
    by (simp add: demo_task_def sm_new_def check_pending_flag_def rt_expected_def)
  ultimately show ?thesis
    using futex_stale_waiter [of demo_fx_env 5 "\<lparr>tv_sec = 0, tv_nsec = -1\<rparr>" demo_fx_state "demo_task 1" False "FxPrivate 0 64" 1
      "fm_new(FxPrivate 0 64 \<mapsto> [demo_waiter 1 1])"]
    by (auto simp: demo_fx_env_def demo_fx_state_def demo_task_def)
qed

end
