(* ===== verification/Robust_List.thy ===== *)
theory Robust_List
  imports Futex User_Mem
begin

text \<open>
  The memory a dying thread leaves behind (\<^verbatim>\<open>mm_release\<close> of \<^verbatim>\<open>os/src/task/task.rs\<close>): the word that tells a joining thread
  of its end is cleared and its futex woken, and the robust list, a list of held locks in user memory, is walked so
  that every lock the thread owned is marked and one waiter of it woken. User memory is bytes with the addresses a
  page fault can make readable and writable.
\<close>

unbundle bit_operations_syntax

definition FUTEX_WAITERS :: u32 where "FUTEX_WAITERS = 0x80000000"
definition FUTEX_OWNER_DIED :: u32 where "FUTEX_OWNER_DIED = 0x40000000"
definition FUTEX_TID_MASK :: u32 where "FUTEX_TID_MASK = 0x3fffffff"

definition ROBUST_LIST_HEAD_SIZE :: nat where "ROBUST_LIST_HEAD_SIZE = 24"

text \<open>
  What the exit of a thread works on: user memory, the futex queues, the wakers called so far, the registered list
  head and the address to clear. \<^verbatim>\<open>re_paddr\<close> is the answer of \<^verbatim>\<open>translate_uva_checked\<close>; \<^verbatim>\<open>re_races\<close> the values that the
  exchanges on a word find instead of the expected one before they succeed.
\<close>

record robust_env =
  re_tid :: nat
  re_mm :: usize
  re_paddr :: "usize \<Rightarrow> phys_addr option"
  re_readable :: "usize \<Rightarrow> bool"
  re_races :: "usize \<Rightarrow> u32 list"

record robust_state =
  rs_mem :: umem
  rs_fm :: futexs
  rs_woken :: "nat list"
  rs_head :: usize
  rs_clear_tid :: "usize option"

definition ensure_read :: "usize \<Rightarrow> nat \<Rightarrow> robust_env \<Rightarrow> bool" where
  "ensure_read a n env = list_all (\<lambda>i. re_readable env (a + of_nat i)) [0 ..< n]"

definition task_futex_wake :: "arch \<Rightarrow> robust_env \<Rightarrow> usize \<Rightarrow> bool \<Rightarrow> robust_state \<Rightarrow> robust_state" where
  "task_futex_wake a env addr shared st =
     (case (if shared then map_option FxShared (re_paddr env addr) else Some (FxPrivate (re_mm env) (va_from a addr))) of
        None \<Rightarrow> st
      | Some key \<Rightarrow>
          let (_, woken, fm) = fm_wake key 1 (rs_fm st)
          in st\<lparr>rs_fm := fm, rs_woken := rs_woken st @ woken\<rparr>)"

datatype death = DeathPending | DeathNotOwner | DeathMarked u32

fun death_loop :: "nat \<Rightarrow> bool \<Rightarrow> bool \<Rightarrow> u32 list \<Rightarrow> u32 \<Rightarrow> death" where
  "death_loop tid pi pending_op races old_val =
     (let owner = old_val AND FUTEX_TID_MASK
      in if pending_op \<and> \<not> pi \<and> owner = 0 then DeathPending
         else if unat owner \<noteq> tid then DeathNotOwner
         else (case races of [] \<Rightarrow> DeathMarked old_val | v # vs \<Rightarrow> death_loop tid pi pending_op vs v))"

declare death_loop.simps [simp del]

definition death_value :: "u32 \<Rightarrow> u32" where
  "death_value old_val = (old_val AND FUTEX_WAITERS) OR FUTEX_OWNER_DIED"

definition handle_futex_death ::
  "arch \<Rightarrow> robust_env \<Rightarrow> usize \<Rightarrow> bool \<Rightarrow> bool \<Rightarrow> robust_state \<Rightarrow> (unit + unit) \<times> robust_state" where
  "handle_futex_death a env addr pi pending_op st =
     (if \<not> ensure_write addr 4 (rs_mem st) then (Inl (), st)
      else
        (case death_loop (re_tid env) pi pending_op (re_races env addr) (load_word addr (um_bytes (rs_mem st))) of
           DeathPending \<Rightarrow> (Inr (), task_futex_wake a env addr True st)
         | DeathNotOwner \<Rightarrow> (Inr (), st)
         | DeathMarked old_val \<Rightarrow>
             let mem = rs_mem st;
                 st = st\<lparr>rs_mem := mem\<lparr>um_bytes := store_word addr (death_value old_val) (um_bytes mem)\<rparr>\<rparr>
             in (Inr (), if \<not> pi \<and> old_val AND FUTEX_WAITERS \<noteq> 0 then task_futex_wake a env addr True st else st)))"

definition fetch_robust_entry :: "robust_env \<Rightarrow> usize \<Rightarrow> umem \<Rightarrow> (usize \<times> bool) option" where
  "fetch_robust_entry env head mem =
     (if \<not> ensure_read head 8 env then None
      else let uentry = load_word head (um_bytes mem) :: usize in Some (uentry AND NOT 1, uentry AND 1 \<noteq> 0))"

text \<open>
  The walk over the list: \<^verbatim>\<open>limit\<close> entries at most, since the list is user memory and may be circular.
  The result also names the entries visited.
\<close>

fun robust_loop ::
  "arch \<Rightarrow> robust_env \<Rightarrow> usize \<Rightarrow> usize \<Rightarrow> usize \<Rightarrow> nat \<Rightarrow> usize \<Rightarrow> bool \<Rightarrow> robust_state \<Rightarrow>
     (unit + unit) \<times> usize list \<times> robust_state" where
  "robust_loop a env head futex_offset pending limit entry pi st =
     (if entry = head then (Inr (), [], st)
      else
        (case fetch_robust_entry env entry (rs_mem st) of
           None \<Rightarrow> (Inl (), [], st)
         | Some (next_entry, next_pi) \<Rightarrow>
             let (r, st) = (if entry \<noteq> pending then handle_futex_death a env (entry + futex_offset) pi False st
                            else (Inr (), st))
             in case r of
                  Inl _ \<Rightarrow> (Inl (), [entry], st)
                | Inr _ \<Rightarrow>
                    (case limit of
                       Suc (Suc n) \<Rightarrow>
                         let (r, visited, st) = robust_loop a env head futex_offset pending (Suc n) next_entry next_pi st
                         in (r, entry # visited, st)
                     | _ \<Rightarrow> (Inr (), [entry], st))))"

declare robust_loop.simps [simp del]

definition exit_robust_list :: "arch \<Rightarrow> robust_env \<Rightarrow> robust_state \<Rightarrow> (unit + unit) \<times> usize list \<times> robust_state" where
  "exit_robust_list a env st =
     (let head = rs_head st
      in if \<not> ensure_read head ROBUST_LIST_HEAD_SIZE env then (Inl (), [], st)
         else
           let st = st\<lparr>rs_head := 0\<rparr>
           in case fetch_robust_entry env head (rs_mem st) of
                None \<Rightarrow> (Inl (), [], st)
              | Some (entry, pi) \<Rightarrow>
                  let futex_offset = load_word (head + 8) (um_bytes (rs_mem st))
                  in case fetch_robust_entry env (head + 16) (rs_mem st) of
                       None \<Rightarrow> (Inl (), [], st)
                     | Some (pending, pip) \<Rightarrow>
                         let (r, visited, st) = robust_loop a env head futex_offset pending 2048 entry pi st
                         in case r of
                              Inl _ \<Rightarrow> (Inl (), visited, st)
                            | Inr _ \<Rightarrow>
                                if pending = 0 then (Inr (), visited, st)
                                else if \<not> ensure_read pending 8 env then (Inl (), visited, st)
                                else let (r, st) = handle_futex_death a env (pending + futex_offset) pip True st
                                     in (r, visited, st))"

definition mm_release :: "arch \<Rightarrow> robust_env \<Rightarrow> robust_state \<Rightarrow> robust_state" where
  "mm_release a env st =
     (let st = (case rs_clear_tid st of
                  Some addr \<Rightarrow>
                    if addr \<noteq> 0 \<and> addr AND 3 = 0 then
                      let mem = rs_mem st;
                          st = (if ensure_write addr 4 mem
                                then st\<lparr>rs_mem := mem\<lparr>um_bytes := store_word addr (0 :: u32) (um_bytes mem)\<rparr>\<rparr> else st);
                          st = task_futex_wake a env addr False st;
                          st = task_futex_wake a env addr True st
                      in st\<lparr>rs_clear_tid := None\<rparr>
                    else st
                | None \<Rightarrow> st);
          (_, _, st) = exit_robust_list a env st
      in st)"

definition sys_set_robust_list :: "usize \<Rightarrow> usize \<Rightarrow> robust_state \<Rightarrow> (sys_error + usize) \<times> robust_state" where
  "sys_set_robust_list head len st =
     (if len \<noteq> of_nat ROBUST_LIST_HEAD_SIZE then (Err EINVAL, st) else (Ok 0, st\<lparr>rs_head := head\<rparr>))"

text \<open>\<^verbatim>\<open>heads\<close> is the registered head of every task, \<^verbatim>\<open>current\<close> the one of the caller.\<close>

definition sys_get_robust_list ::
  "(nat \<Rightarrow> usize option) \<Rightarrow> usize \<Rightarrow> i32 \<Rightarrow> usize \<Rightarrow> usize \<Rightarrow> bytes \<Rightarrow> (sys_error + usize) \<times> bytes" where
  "sys_get_robust_list heads current pid head_ptr len_ptr m =
     (case (if pid \<noteq> 0 then heads (unat (scast pid :: usize)) else Some current) of
        None \<Rightarrow> (Err ESRCH, m)
      | Some head \<Rightarrow> (Ok 0, store_word len_ptr (of_nat ROBUST_LIST_HEAD_SIZE :: usize) (store_word head_ptr head m)))"

section \<open>Walking the list\<close>

text \<open>
  A well-formed list: each entry's link points to the next, the last one back to the head, and the bytes of
  the lock words overlap neither the links nor each other.
\<close>

fun robust_chain :: "bytes \<Rightarrow> usize \<Rightarrow> usize \<Rightarrow> usize list \<Rightarrow> bool" where
  "robust_chain m head l [] \<longleftrightarrow> load_word l m = head"
| "robust_chain m head l (e # es) \<longleftrightarrow> load_word l m = e \<and> e \<noteq> head \<and> e AND 1 = 0 \<and> robust_chain m head e es"

definition apart :: "usize \<Rightarrow> nat \<Rightarrow> usize \<Rightarrow> nat \<Rightarrow> bool" where
  "apart a n b k \<longleftrightarrow> (\<forall>i<n. \<forall>j<k. a + of_nat i \<noteq> b + of_nat j)"

lemma store_word_outside:
  assumes "\<forall>j<LENGTH('a) div 8. x \<noteq> b + of_nat j"
  shows "store_word b (w :: 'a::len word) m x = m x"
proof -
  have "x = b + of_nat (unat (x - b))" by simp
  with assms have "\<not> unat (x - b) < LENGTH('a) div 8" by blast
  then show ?thesis by (simp add: store_word_def)
qed

lemma load_store_apart:
  assumes "apart a (LENGTH('a) div 8) b (LENGTH('b) div 8)"
  shows "(load_word a (store_word b (w :: 'b::len word) m) :: 'a::len word) = load_word a m"
  by (rule load_word_cong) (use assms in \<open>auto simp: apart_def intro!: store_word_outside\<close>)

lemma wake_mem [simp]: "rs_mem (task_futex_wake a env addr shared st) = rs_mem st"
  by (auto simp: task_futex_wake_def Let_def split_beta split: option.splits)

abbreviation word_at :: "usize \<Rightarrow> robust_state \<Rightarrow> u32" where
  "word_at w st \<equiv> load_word w (um_bytes (rs_mem st))"

lemma death_mem:
  assumes "ensure_write w 4 (rs_mem st)"
  shows "fst (handle_futex_death a env w pi po st) = Inr ()"
    "um_writable (rs_mem (snd (handle_futex_death a env w pi po st))) = um_writable (rs_mem st)"
    "um_bytes (rs_mem (snd (handle_futex_death a env w pi po st))) =
      (case death_loop (re_tid env) pi po (re_races env w) (word_at w st) of
         DeathMarked old \<Rightarrow> store_word w (death_value old) (um_bytes (rs_mem st)) | _ \<Rightarrow> um_bytes (rs_mem st))"
  using assms by (auto simp: handle_futex_death_def Let_def split: death.splits)

lemma death_apart:
  assumes "ensure_write w 4 (rs_mem st)" "apart l (LENGTH('a) div 8) w 4"
  shows "(load_word l (um_bytes (rs_mem (snd (handle_futex_death a env w pi po st)))) :: 'a::len word) =
    load_word l (um_bytes (rs_mem st))"
  unfolding death_mem(3) [OF assms(1)] using load_store_apart [of l w, where 'a = 'a and 'b = 32] assms(2)
  by (simp split: death.splits)

definition bury :: "arch \<Rightarrow> robust_env \<Rightarrow> usize \<Rightarrow> usize \<Rightarrow> robust_state \<Rightarrow> robust_state" where
  "bury a env off e st = snd (handle_futex_death a env (e + off) False False st)"

lemma robust_chain_cong:
  "(\<And>x. x \<in> set (l # es) \<Longrightarrow> (load_word x m :: usize) = load_word x m') \<Longrightarrow> robust_chain m head l es = robust_chain m' head l es"
  by (induction es arbitrary: l) auto

lemma head_even: "robust_chain m head l es \<Longrightarrow> head AND 1 = 0 \<Longrightarrow> (load_word l m :: usize) AND 1 = 0"
  by (cases es) auto

lemma even_and_not: "(x :: usize) AND 1 = 0 \<Longrightarrow> x AND NOT 1 = x"
proof (rule bit_eqI)
  fix n assume h: "x AND 1 = 0" and n: "possible_bit TYPE(usize) n"
  have "\<not> bit x 0" using arg_cong [OF h, of "\<lambda>w. bit w 0"] by (simp add: bit_and_iff bit_1_iff)
  then show "bit (x AND NOT 1) n = bit x n" using n by (cases n) (auto simp: bit_simps)
qed

lemma robust_loop_chain:
  assumes "robust_chain (um_bytes (rs_mem st)) head l es" "head AND 1 = 0" "length es \<le> limit"
    and "\<forall>e \<in> set es. e \<noteq> 0 \<and> ensure_read e 8 env \<and> ensure_write (e + off) 4 (rs_mem st)"
    and "\<forall>e \<in> set es. \<forall>x \<in> set (head # es). apart x 8 (e + off) 4"
  shows "robust_loop a env head off 0 limit (load_word l (um_bytes (rs_mem st))) False st =
    (Inr (), es, fold (bury a env off) es st)"
  using assms
proof (induction es arbitrary: l limit st)
  case Nil
  then show ?case by (subst robust_loop.simps) simp
next
  case (Cons e es)
  let ?st = "bury a env off e st"
  have e: "load_word l (um_bytes (rs_mem st)) = e" "e \<noteq> head" "robust_chain (um_bytes (rs_mem st)) head e es"
    using Cons.prems(1) by simp_all
  have w: "ensure_write (e + off) 4 (rs_mem st)" using Cons.prems(4) by simp
  have same: "(load_word x (um_bytes (rs_mem ?st)) :: usize) = load_word x (um_bytes (rs_mem st))" if "x \<in> set (e # es)" for x
  proof -
    have "apart x (LENGTH(64) div 8) (e + off) 4" using Cons.prems(5) that by auto
    from death_apart [OF w this] show ?thesis unfolding bury_def .
  qed
  have chain: "robust_chain (um_bytes (rs_mem ?st)) head e es"
    using robust_chain_cong [of e es "um_bytes (rs_mem ?st)"] same e(3) by blast
  have wr: "um_writable (rs_mem ?st) = um_writable (rs_mem st)" unfolding bury_def by (rule death_mem(2) [OF w])
  have ew: "ensure_write x 4 (rs_mem ?st) = ensure_write x 4 (rs_mem st)" for x by (simp add: ensure_write_def wr)
  have next_e: "(load_word e (um_bytes (rs_mem st)) :: usize) AND 1 = 0" by (rule head_even [OF e(3) Cons.prems(2)])
  have fetch: "fetch_robust_entry env e (rs_mem st) = Some (load_word e (um_bytes (rs_mem st)), False)"
    using Cons.prems(4) next_e even_and_not by (simp add: fetch_robust_entry_def Let_def)
  have death: "handle_futex_death a env (e + off) False False st = (Inr (), ?st)"
    using death_mem(1) [OF w, of a env False False] unfolding bury_def by (metis prod.collapse)
  obtain n where n: "limit = Suc n" using Cons.prems(3) by (cases limit) auto
  show ?case
  proof (cases n)
    case 0
    with Cons.prems(3) n have "es = []" by simp
    with e(1,2) fetch death Cons.prems(4) n 0 show ?thesis by (subst robust_loop.simps) simp
  next
    case (Suc k)
    have "robust_loop a env head off 0 (Suc k) (load_word e (um_bytes (rs_mem ?st))) False ?st =
      (Inr (), es, fold (bury a env off) es ?st)"
      by (rule Cons.IH [OF chain Cons.prems(2)]) (use Cons.prems(3-5) n Suc ew in auto)
    with same [of e] e(1,2) fetch death Cons.prems(4) n Suc show ?thesis by (subst robust_loop.simps) simp
  qed
qed

lemma bury_word:
  assumes w: "ensure_write (e + off) 4 (rs_mem st)" and nr: "re_races env (e + off) = []"
  shows "word_at (e + off) (bury a env off e st) =
    (if unat (word_at (e + off) st AND FUTEX_TID_MASK) = re_tid env then death_value (word_at (e + off) st)
     else word_at (e + off) st)"
  unfolding bury_def death_mem(3) [OF w] nr
  using load_store_word [of "e + off" "death_value (word_at (e + off) st)" "um_bytes (rs_mem st)"]
  by (subst death_loop.simps) (simp add: Let_def)

lemma bury_all:
  assumes "distinct es" "\<forall>e \<in> set es. ensure_write (e + off) 4 (rs_mem st) \<and> re_races env (e + off) = []"
    and "\<forall>e \<in> set es. \<forall>x \<in> set es. e \<noteq> x \<longrightarrow> apart (x + off) 4 (e + off) 4" and "e \<in> set es"
  shows "word_at (e + off) (fold (bury a env off) es st) =
    (if unat (word_at (e + off) st AND FUTEX_TID_MASK) = re_tid env then death_value (word_at (e + off) st)
     else word_at (e + off) st)"
  using assms
proof (induction es arbitrary: st)
  case (Cons x es)
  let ?st = "bury a env off x st"
  have w: "ensure_write (x + off) 4 (rs_mem st)" using Cons.prems(2) by simp
  have ew: "ensure_write y 4 (rs_mem ?st) = ensure_write y 4 (rs_mem st)" for y
    unfolding bury_def using death_mem(2) [OF w] by (simp add: ensure_write_def)
  have other: "word_at (y + off) ?st = word_at (y + off) st" if "y \<in> set es" for y
  proof -
    have "apart (y + off) (LENGTH(32) div 8) (x + off) 4" using Cons.prems(1,3) that by auto
    from death_apart [OF w this] show ?thesis unfolding bury_def .
  qed
  show ?case
  proof (cases "e = x")
    case True
    have rest: "word_at (x + off) (fold (bury a env off) ys s) = word_at (x + off) s"
      if "set ys \<subseteq> set es" "\<forall>y \<in> set ys. ensure_write (y + off) 4 (rs_mem s)" for ys s
      using that
    proof (induction ys arbitrary: s)
      case (Cons y ys)
      have wy: "ensure_write (y + off) 4 (rs_mem s)" using Cons.prems(2) by simp
      have "apart (x + off) (LENGTH(32) div 8) (y + off) 4"
        using Cons.prems(1) \<open>distinct (x # es)\<close> \<open>\<forall>e \<in> set (x # es). \<forall>y \<in> set (x # es). e \<noteq> y \<longrightarrow> apart (y + off) 4 (e + off) 4\<close>
        by auto
      from death_apart [OF wy this] have "word_at (x + off) (bury a env off y s) = word_at (x + off) s" unfolding bury_def .
      moreover have "ensure_write z 4 (rs_mem (bury a env off y s)) = ensure_write z 4 (rs_mem s)" for z
        unfolding bury_def using death_mem(2) [OF wy] by (simp add: ensure_write_def)
      ultimately show ?case using Cons.IH [of "bury a env off y s"] Cons.prems by simp
    qed simp
    have "word_at (x + off) (fold (bury a env off) es ?st) = word_at (x + off) ?st"
      by (rule rest) (use Cons.prems(2) ew in auto)
    then show ?thesis using bury_word [OF w, of env a] Cons.prems(2) True by simp
  next
    case False
    with Cons.prems(4) have "e \<in> set es" by simp
    with Cons.IH [of ?st] Cons.prems(1-3) ew other [of e] show ?thesis by simp
  qed
qed simp

lemma robust_loop_bound: "length (fst (snd (robust_loop a env head off pending limit entry pi st))) \<le> max 1 limit"
proof (induction limit arbitrary: entry pi st)
  case 0
  show ?case by (subst robust_loop.simps) (auto simp: Let_def split: option.splits prod.splits sum.splits)
next
  case (Suc limit)
  show ?case
  proof (cases limit)
    case 0
    then show ?thesis by (subst robust_loop.simps) (auto simp: Let_def split: option.splits prod.splits sum.splits)
  next
    case (Suc n)
    have "length (fst (snd (robust_loop a env head off pending (Suc n) e p s))) \<le> Suc n" for e p s
      using Suc.IH [of e p s] Suc by simp
    then show ?thesis using Suc
      by (subst robust_loop.simps) (auto simp: Let_def split_beta split: option.splits sum.splits)
  qed
qed

lemma exit_bound: "length (fst (snd (exit_robust_list a env st))) \<le> 2048"
proof -
  have "length (fst (snd (robust_loop a env h off p 2048 e pi s))) \<le> 2048" for h off p e pi s
    using robust_loop_bound [of a env h off p 2048 e pi s] by simp
  then show ?thesis by (auto simp: exit_robust_list_def Let_def split_beta split: option.splits sum.splits)
qed

lemma ensure_read_part: "ensure_read h n env \<Longrightarrow> i + k \<le> n \<Longrightarrow> ensure_read (h + of_nat i) k env"
  unfolding ensure_read_def list_all_iff by (auto simp: ac_simps simp flip: of_nat_add)

text \<open>A well-formed list of held locks without a pending operation, as the registered head describes it.\<close>

definition robust_ok :: "robust_env \<Rightarrow> usize list \<Rightarrow> robust_state \<Rightarrow> bool" where
  "robust_ok env es st \<longleftrightarrow>
     (let head = rs_head st; off = load_word (head + 8) (um_bytes (rs_mem st))
      in robust_chain (um_bytes (rs_mem st)) head head es \<and> head AND 1 = 0 \<and> length es \<le> 2048 \<and> distinct es \<and>
         (load_word (head + 16) (um_bytes (rs_mem st)) :: usize) = 0 \<and> ensure_read head ROBUST_LIST_HEAD_SIZE env \<and>
         (\<forall>e \<in> set es. e \<noteq> 0 \<and> ensure_read e 8 env \<and> ensure_write (e + off) 4 (rs_mem st) \<and> re_races env (e + off) = []) \<and>
         (\<forall>e \<in> set es. \<forall>x \<in> set (head # es). apart x 8 (e + off) 4) \<and>
         (\<forall>e \<in> set es. \<forall>x \<in> set es. e \<noteq> x \<longrightarrow> apart (x + off) 4 (e + off) 4))"

text \<open>
  C23. The robust list of a dying thread: whatever is in user memory, at most 2048 entries are visited. On a well-formed list
  without interference every entry is visited once, in order; the word of every lock the thread owned then says that
  its owner died and keeps the bit for waiters, and the words of other locks are unchanged.
\<close>

theorem robust_exit_correct:
  assumes "robust_ok env es st"
  defines "off \<equiv> load_word (rs_head st + 8) (um_bytes (rs_mem st))"
  shows "(\<exists>st'. exit_robust_list a env st = (Inr (), es, st') \<and> rs_head st' = 0 \<and>
      (\<forall>e \<in> set es. word_at (e + off) st' =
        (if unat (word_at (e + off) st AND FUTEX_TID_MASK) = re_tid env then death_value (word_at (e + off) st)
         else word_at (e + off) st))) \<and>
    (\<forall>env' s. length (fst (snd (exit_robust_list a env' s))) \<le> 2048)"
proof (rule conjI)
  let ?head = "rs_head st" and ?st = "st\<lparr>rs_head := 0\<rparr>"
  note ok = assms(1) [unfolded robust_ok_def Let_def, folded off_def]
  have rd: "ensure_read ?head 8 env" "ensure_read (?head + 16) 8 env"
    using ensure_read_part [of ?head 24 env 0 8] ensure_read_part [of ?head 24 env 16 8] ok
    by (simp_all add: ROBUST_LIST_HEAD_SIZE_def)
  have f1: "fetch_robust_entry env ?head (rs_mem st) = Some (load_word ?head (um_bytes (rs_mem st)), False)"
    using rd head_even [of _ ?head ?head es] ok even_and_not by (simp add: fetch_robust_entry_def Let_def)
  have f2: "fetch_robust_entry env (?head + 16) (rs_mem st) = Some (0, False)"
    using rd ok by (simp add: fetch_robust_entry_def Let_def)
  have loop: "robust_loop a env ?head off 0 2048 (load_word ?head (um_bytes (rs_mem ?st))) False ?st =
    (Inr (), es, fold (bury a env off) es ?st)"
    by (rule robust_loop_chain) (use ok in auto)
  have hd: "rs_head (fold (bury a env off) es s) = rs_head s" for s
  proof -
    have "rs_head (task_futex_wake a env w b s) = rs_head s" for w b s
      by (auto simp: task_futex_wake_def Let_def split_beta split: option.splits)
    then have "rs_head (bury a env off e s) = rs_head s" for e s
      by (auto simp: bury_def handle_futex_death_def Let_def split: death.splits)
    then show ?thesis by (induction es arbitrary: s) auto
  qed
  have "word_at (e + off) (fold (bury a env off) es ?st) =
      (if unat (word_at (e + off) st AND FUTEX_TID_MASK) = re_tid env then death_value (word_at (e + off) st)
       else word_at (e + off) st)" if "e \<in> set es" for e
    using bury_all [of es off ?st env e a] ok that by simp
  moreover have "exit_robust_list a env st = (Inr (), es, fold (bury a env off) es ?st)"
    using ok f1 f2 loop by (simp add: exit_robust_list_def Let_def off_def)
  ultimately show "\<exists>st'. exit_robust_list a env st = (Inr (), es, st') \<and> rs_head st' = 0 \<and>
      (\<forall>e \<in> set es. word_at (e + off) st' =
        (if unat (word_at (e + off) st AND FUTEX_TID_MASK) = re_tid env then death_value (word_at (e + off) st)
         else word_at (e + off) st))" using hd by simp
qed (simp add: exit_bound)

definition demo_robust :: robust_state where
  "demo_robust = \<lparr>rs_mem = \<lparr>um_bytes = store_word 0x2010 (0x80000007 :: u32) (store_word 0x2000 (0x1000 :: usize)
       (store_word 0x1008 (0x10 :: usize) (store_word 0x1000 (0x2000 :: usize) (\<lambda>_. 0)))), um_writable = (\<lambda>_. True)\<rparr>,
     rs_fm = fm_new, rs_woken = [], rs_head = 0x1000, rs_clear_tid = None\<rparr>"

definition demo_robust_env :: robust_env where
  "demo_robust_env = \<lparr>re_tid = 7, re_mm = 0, re_paddr = (\<lambda>_. None), re_readable = (\<lambda>_. True), re_races = (\<lambda>_. [])\<rparr>"

lemma apartI:
  assumes "unat a + n \<le> unat b \<or> unat b + k \<le> unat a" "unat a + n < 2 ^ 64" "unat b + k < 2 ^ 64"
  shows "apart a n b k"
  unfolding apart_def
proof (intro allI impI notI)
  fix i j assume i: "i < n" and j: "j < k" and e: "a + of_nat i = b + of_nat j"
  have "unat (a + of_nat i) = unat a + i" "unat (b + of_nat j) = unat b + j"
    using i j assms(2,3) by (simp_all add: unat_word_ariths unat_of_nat)
  with e i j assms(1) show False by auto
qed

lemma demo_robust_loads:
  "(load_word 0x1000 (um_bytes (rs_mem demo_robust)) :: usize) = 0x2000"
  "(load_word 0x1008 (um_bytes (rs_mem demo_robust)) :: usize) = 0x10"
  "(load_word 0x1010 (um_bytes (rs_mem demo_robust)) :: usize) = 0"
  "(load_word 0x2000 (um_bytes (rs_mem demo_robust)) :: usize) = 0x1000"
  "word_at 0x2010 demo_robust = 0x80000007"
proof -
  have z: "(load_word x (\<lambda>_. 0) :: usize) = 0" for x
    by (rule bit_word_eqI) (simp add: bit_load_word)
  show "(load_word 0x1000 (um_bytes (rs_mem demo_robust)) :: usize) = 0x2000"
    "(load_word 0x1008 (um_bytes (rs_mem demo_robust)) :: usize) = 0x10"
    "(load_word 0x1010 (um_bytes (rs_mem demo_robust)) :: usize) = 0"
    "(load_word 0x2000 (um_bytes (rs_mem demo_robust)) :: usize) = 0x1000"
    "word_at 0x2010 demo_robust = 0x80000007"
    by (simp_all add: demo_robust_def load_store_apart load_store_word apartI z)
qed

theorem robust_exit_correct_witness:
  "\<exists>st'. exit_robust_list Riscv64 demo_robust_env demo_robust = (Inr (), [0x2000], st') \<and> word_at 0x2010 st' = 0xC0000000"
proof -
  have "rs_head demo_robust = 0x1000" "ensure_write 0x2010 4 (rs_mem demo_robust)" "\<And>x n. ensure_read x n demo_robust_env"
    "re_tid demo_robust_env = 7" "\<And>w. re_races demo_robust_env w = []"
    by (simp_all add: demo_robust_def demo_robust_env_def ensure_write_def ensure_read_def list_all_iff)
  note d = this demo_robust_loads
  have ok: "robust_ok demo_robust_env [0x2000] demo_robust" by (simp add: robust_ok_def Let_def d apartI)
  from robust_exit_correct [OF ok, of Riscv64] show ?thesis
    by (auto simp: d FUTEX_TID_MASK_def death_value_def FUTEX_WAITERS_def FUTEX_OWNER_DIED_def)
qed

end
