(* ===== verification/Locks.thy ===== *)
theory Locks
  imports Chronix_Prelude
begin

text \<open>
  The spin locks of the kernel (\<^verbatim>\<open>os/src/sync/mutex\<close>) and the interrupt guard they use
  (\<^verbatim>\<open>hal/src/util/sie_guard.rs\<close>). The operations are cut at their atomic accesses: one step of a
  hart performs one load, store or exchange of the lock word. Interrupt handlers are further
  contexts of a hart that run on top of the interrupted one. Accesses to one lock word are
  sequentially consistent, which coherence of a single location gives on both targets.
\<close>

unbundle bit_operations_syntax

section \<open>The interrupt guard and the two kinds of support\<close>

text \<open>The interrupt enable flag of a hart in; the new flag and the guard (the old flag) out.\<close>

definition sie_guard_new :: "bool \<Rightarrow> bool \<times> bool" where
  "sie_guard_new sie = (False, sie)"

definition sie_guard_drop :: "bool \<Rightarrow> bool \<Rightarrow> bool" where
  "sie_guard_drop g sie = (if g then True else sie)"

datatype mutex_support = Spin | SpinNoIrq

text \<open>\<^verbatim>\<open>Spin\<close> has the unit guard, whose drop does nothing, as a guard with the flag off does.\<close>

fun before_lock :: "mutex_support \<Rightarrow> bool \<Rightarrow> bool \<times> bool" where
  "before_lock Spin sie = (sie, False)"
| "before_lock SpinNoIrq sie = sie_guard_new sie"

section \<open>SpinMutex\<close>

definition MAX_PROCESSORS :: usize where "MAX_PROCESSORS = 4"
definition UNLOCKED :: usize where "UNLOCKED = 0xFFFFFFFFFFFFFFFF"
definition TRY_LIMIT :: nat where "TRY_LIMIT = 0x1000000"

text \<open>
  Where a context is: outside, before the check of the loop in \<^verbatim>\<open>lock\<close>, in the loop of \<^verbatim>\<open>wait_unlock\<close>
  with its count, before the exchange, holding the guard, or between the store that unlocks
  and the drop of the support guard. A holder carries the value of the data it last saw or wrote.
\<close>

datatype 'd lock_pc =
    Outside
  | AtCheck bool
  | AtWait bool nat
  | AtCas bool
  | Holding bool 'd
  | Unlocking bool
  | SelfDeadlock
  | BadOwner
  | TimedOut

text \<open>One load of the owner in \<^verbatim>\<open>wait_unlock\<close>, with the tries so far.\<close>

definition wait_unlock :: "usize \<Rightarrow> bool \<Rightarrow> nat \<Rightarrow> 'd lock_pc" where
  "wait_unlock cur_owner g try_count =
     (if cur_owner = UNLOCKED then AtCas g
      else if MAX_PROCESSORS \<le> cur_owner then BadOwner
      else if try_count + 1 = TRY_LIMIT then TimedOut
      else AtWait g (try_count + 1))"

text \<open>One atomic access of \<^verbatim>\<open>lock\<close> by the hart with id \<open>tp\<close>: the next place and the new owner word.\<close>

fun lock_step :: "usize \<Rightarrow> 'd \<Rightarrow> usize \<Rightarrow> 'd lock_pc \<Rightarrow> 'd lock_pc \<times> usize" where
  "lock_step tp d owner (AtCheck g) = ((if owner = tp then SelfDeadlock else AtWait g 0), owner)"
| "lock_step tp d owner (AtWait g n) = (wait_unlock owner g n, owner)"
| "lock_step tp d owner (AtCas g) =
     (if owner = UNLOCKED then ((if tp < MAX_PROCESSORS then Holding g d else BadOwner), tp)
      else (AtCheck g, owner))"
| "lock_step tp d owner pc = (pc, owner)"

definition unlock_owner :: usize where
  "unlock_owner = UNLOCKED"

section \<open>Harts and interrupts\<close>

record 'd lock_state =
  ls_owner :: usize
  ls_data :: 'd
  ls_sie :: "nat \<Rightarrow> bool"
  ls_ctx :: "nat \<Rightarrow> 'd lock_pc list"

definition spin_mutex_new :: "'d \<Rightarrow> 'd lock_state" where
  "spin_mutex_new d = \<lparr> ls_owner = UNLOCKED, ls_data = d, ls_sie = (\<lambda>_. True), ls_ctx = (\<lambda>_. [Outside]) \<rparr>"

definition set_ctx :: "nat \<Rightarrow> 'd lock_pc list \<Rightarrow> 'd lock_state \<Rightarrow> 'd lock_state" where
  "set_ctx h cs s = s\<lparr> ls_ctx := (ls_ctx s)(h := cs) \<rparr>"

definition set_sie :: "nat \<Rightarrow> bool \<Rightarrow> 'd lock_state \<Rightarrow> 'd lock_state" where
  "set_sie h b s = s\<lparr> ls_sie := (ls_sie s)(h := b) \<rparr>"

text \<open>
  The steps of the system. A context outside may call \<^verbatim>\<open>lock\<close>; a holder may write the data through
  its guard or drop it; a hart with interrupts on may take one, whose handler may use the
  same lock, and which returns when the handler is outside again.
\<close>

inductive lk_step :: "mutex_support \<Rightarrow> 'd lock_state \<Rightarrow> 'd lock_state \<Rightarrow> bool"
  for sp :: mutex_support where
  call: "\<lbrakk> h < 4; ls_ctx s h = Outside # cs; before_lock sp (ls_sie s h) = (sie', g) \<rbrakk> \<Longrightarrow>
    lk_step sp s (set_sie h sie' (set_ctx h (AtCheck g # cs) s))"
| access: "\<lbrakk> h < 4; ls_ctx s h = pc # cs; lock_step (of_nat h) (ls_data s) (ls_owner s) pc = (pc', w) \<rbrakk> \<Longrightarrow>
    lk_step sp s (set_ctx h (pc' # cs) (s\<lparr> ls_owner := w \<rparr>))"
| modify: "\<lbrakk> h < 4; ls_ctx s h = Holding g d # cs \<rbrakk> \<Longrightarrow>
    lk_step sp s (set_ctx h (Holding g d' # cs) (s\<lparr> ls_data := d' \<rparr>))"
| unlock: "\<lbrakk> h < 4; ls_ctx s h = Holding g d # cs \<rbrakk> \<Longrightarrow>
    lk_step sp s (set_ctx h (Unlocking g # cs) (s\<lparr> ls_owner := unlock_owner \<rparr>))"
| release: "\<lbrakk> h < 4; ls_ctx s h = Unlocking g # cs \<rbrakk> \<Longrightarrow>
    lk_step sp s (set_sie h (sie_guard_drop g (ls_sie s h)) (set_ctx h (Outside # cs) s))"
| irq: "\<lbrakk> h < 4; ls_sie s h \<rbrakk> \<Longrightarrow>
    lk_step sp s (set_sie h False (set_ctx h (Outside # ls_ctx s h) s))"
| iret: "\<lbrakk> h < 4; ls_ctx s h = Outside # c # cs \<rbrakk> \<Longrightarrow>
    lk_step sp s (set_sie h True (set_ctx h (c # cs) s))"

inductive lk_reach :: "mutex_support \<Rightarrow> 'd \<Rightarrow> 'd lock_state \<Rightarrow> bool"
  for sp :: mutex_support and d0 :: 'd where
  start: "lk_reach sp d0 (spin_mutex_new d0)"
| step: "lk_reach sp d0 s \<Longrightarrow> lk_step sp s s' \<Longrightarrow> lk_reach sp d0 s'"

lemmas lock_upd = set_ctx_def set_sie_def

section \<open>Mutual exclusion\<close>

text \<open>The guard of a context, and whether it is between the call and the end of the drop.\<close>

fun guard_of :: "'d lock_pc \<Rightarrow> bool" where
  "guard_of (AtCheck g) = g"
| "guard_of (AtWait g n) = g"
| "guard_of (AtCas g) = g"
| "guard_of (Holding g d) = g"
| "guard_of (Unlocking g) = g"
| "guard_of pc = False"

fun is_holding :: "'d lock_pc \<Rightarrow> bool" where
  "is_holding (Holding g d) = True"
| "is_holding pc = False"

text \<open>
  Without interrupts switched off, the owner word still names a hart with a holder and
  every other hart has none; each hart has at most one holder among its contexts.
\<close>

definition holders :: "'d lock_pc list \<Rightarrow> nat" where
  "holders cs = length (filter is_holding cs)"

definition excl_inv :: "'d lock_state \<Rightarrow> bool" where
  "excl_inv s \<longleftrightarrow>
     (if ls_owner s = UNLOCKED then \<forall>h. holders (ls_ctx s h) = 0
      else \<exists>o'<4. ls_owner s = of_nat o' \<and> holders (ls_ctx s o') = 1 \<and>
             (\<forall>h. h \<noteq> o' \<longrightarrow> holders (ls_ctx s h) = 0)) \<and>
     (\<forall>h g d. Holding g d \<in> set (ls_ctx s h) \<longrightarrow> d = ls_data s) \<and>
     (\<forall>h. BadOwner \<notin> set (ls_ctx s h))"

lemma holders_simps [simp]:
  "holders [] = 0"
  "holders (c # cs) = (if is_holding c then Suc (holders cs) else holders cs)"
  by (auto simp: holders_def)

lemma holders_Outside: "set cs \<subseteq> {Outside} \<Longrightarrow> holders cs = 0"
  by (induction cs) auto

lemma of_nat_hart_eq: "a < 4 \<Longrightarrow> b < 4 \<Longrightarrow> (of_nat a :: usize) = of_nat b \<longleftrightarrow> a = b"
  by (auto simp: word_unat_eq_iff unat_of_nat)

lemma of_nat_hart_less: "a < 4 \<Longrightarrow> (of_nat a :: usize) < MAX_PROCESSORS"
  by (simp add: word_less_nat_alt unat_of_nat MAX_PROCESSORS_def)

lemma hart_not_UNLOCKED: "a < 4 \<Longrightarrow> (of_nat a :: usize) \<noteq> UNLOCKED"
  using of_nat_hart_less [of a] by (auto simp: MAX_PROCESSORS_def UNLOCKED_def)

text \<open>A step that leaves the owner, the data and the number of holders of each hart alone keeps the invariant.\<close>

lemma excl_inv_quiet:
  assumes "excl_inv s" "ls_owner s' = ls_owner s" "ls_data s' = ls_data s"
    "\<And>k. holders (ls_ctx s' k) = holders (ls_ctx s k)"
    "\<And>k. \<forall>c\<in>set (ls_ctx s' k). c \<in> set (ls_ctx s k) \<or> (\<not> is_holding c \<and> c \<noteq> BadOwner)"
  shows "excl_inv s'"
proof -
  have h: "d = ls_data s" if "Holding g d \<in> set (ls_ctx s' k)" for k g d
    using that assms(1,5)[unfolded excl_inv_def] by force
  have b: "BadOwner \<notin> set (ls_ctx s' k)" for k
    using assms(1,5)[unfolded excl_inv_def] by force
  show ?thesis
    using assms(1) h b by (auto simp: excl_inv_def assms(2-4) split: if_splits)
qed

lemma excl_inv_owner_less: "excl_inv s \<Longrightarrow> ls_owner s \<noteq> UNLOCKED \<Longrightarrow> ls_owner s < MAX_PROCESSORS"
  using of_nat_hart_less by (auto simp: excl_inv_def)

lemma lock_step_quiet:
  assumes "lock_step tp d w pc = (pc', w')" "w \<noteq> UNLOCKED \<Longrightarrow> w < MAX_PROCESSORS"
    "\<not> (w = UNLOCKED \<and> (\<exists>g. pc = AtCas g))"
  shows "w' = w \<and> (pc' = pc \<or> (\<not> is_holding pc' \<and> \<not> is_holding pc \<and> pc' \<noteq> BadOwner))"
  using assms by (cases pc) (auto simp: wait_unlock_def split: if_splits)

lemma excl_inv_acquire:
  assumes "excl_inv s" "h < 4" "ls_ctx s h = AtCas g # cs" "ls_owner s = UNLOCKED"
  shows "excl_inv (set_ctx h (Holding g (ls_data s) # cs) (s\<lparr> ls_owner := of_nat h \<rparr>))"
proof -
  have z: "holders (ls_ctx s k) = 0" for k
    using assms(1,4) by (simp add: excl_inv_def)
  have c: "holders cs = 0"
    using z [of h] assms(3) by simp
  have d: "Holding g' d \<in> set (ls_ctx s k) \<Longrightarrow> d = ls_data s" "BadOwner \<notin> set (ls_ctx s k)" for k g' d
    using assms(1) by (auto simp: excl_inv_def)
  have b: "BadOwner \<notin> set cs"
    using d(2) [of h] assms(3) by simp
  have e: "Holding g' d \<in> set cs \<Longrightarrow> d = ls_data s" for g' d
    using d(1) [of g' d h] assms(3) by simp
  show ?thesis
    using assms(2) z c d b e by (auto simp: excl_inv_def lock_upd hart_not_UNLOCKED)
qed

lemma excl_inv_holder:
  assumes "excl_inv s" "h < 4" "ls_ctx s h = Holding g d # cs"
  shows "ls_owner s = of_nat h" "holders cs = 0" "k \<noteq> h \<Longrightarrow> holders (ls_ctx s k) = 0"
proof -
  have "ls_owner s \<noteq> UNLOCKED"
  proof
    assume "ls_owner s = UNLOCKED"
    then have "holders (ls_ctx s h) = 0"
      using assms(1) by (simp add: excl_inv_def)
    then show False
      using assms(3) by simp
  qed
  then obtain o' where o: "o' < 4" "ls_owner s = of_nat o'" "holders (ls_ctx s o') = 1"
    "\<forall>k. k \<noteq> o' \<longrightarrow> holders (ls_ctx s k) = 0"
    using assms(1) by (auto simp: excl_inv_def)
  have "h = o'"
    using o(4) assms(3) by (cases "h = o'") auto
  then show "ls_owner s = of_nat h" "holders cs = 0" "k \<noteq> h \<Longrightarrow> holders (ls_ctx s k) = 0"
    using o assms(3) by auto
qed

lemma holders_0_no_Holding: "holders cs = 0 \<Longrightarrow> Holding g d \<notin> set cs"
  by (induction cs) (auto split: if_splits)

lemma excl_inv_modify:
  assumes "excl_inv s" "h < 4" "ls_ctx s h = Holding g d # cs"
  shows "excl_inv (set_ctx h (Holding g d' # cs) (s\<lparr> ls_data := d' \<rparr>))"
    and "excl_inv (set_ctx h (Unlocking g # cs) (s\<lparr> ls_owner := unlock_owner \<rparr>))"
proof -
  note H = excl_inv_holder [OF assms]
  have b: "BadOwner \<notin> set (ls_ctx s k)" for k
    using assms(1) by (auto simp: excl_inv_def)
  have bc: "BadOwner \<notin> set cs"
    using b [of h] assms(3) by simp
  have n: "Holding g' e \<notin> set (ls_ctx s k)" if "k \<noteq> h" for g' e k
    using holders_0_no_Holding [OF H(3) [OF that]] .
  have nc: "Holding g' e \<notin> set cs" for g' e
    using holders_0_no_Holding [OF H(2)] .
  show "excl_inv (set_ctx h (Holding g d' # cs) (s\<lparr> ls_data := d' \<rparr>))"
    using assms(2) H b bc n nc by (auto simp: excl_inv_def lock_upd hart_not_UNLOCKED)
  show "excl_inv (set_ctx h (Unlocking g # cs) (s\<lparr> ls_owner := unlock_owner \<rparr>))"
    using assms(2) H b bc n nc by (auto simp: excl_inv_def lock_upd unlock_owner_def)
qed

lemma excl_inv_step: "lk_step sp s s' \<Longrightarrow> excl_inv s \<Longrightarrow> excl_inv s'"
proof (induction rule: lk_step.induct)
  case (call h s cs sie' g)
  show ?case
    using call.hyps by (intro excl_inv_quiet [OF call.prems]) (auto simp: lock_upd)
next
  case (access h s pc cs pc' w)
  show ?case
  proof (cases "ls_owner s = UNLOCKED \<and> (\<exists>g. pc = AtCas g)")
    case True
    then obtain g where g: "pc = AtCas g" "ls_owner s = UNLOCKED"
      by blast
    then have "pc' = Holding g (ls_data s)" "w = of_nat h"
      using access.hyps(1,3) of_nat_hart_less [of h] by auto
    then show ?thesis
      using excl_inv_acquire [OF access.prems access.hyps(1)] access.hyps(2) g by simp
  next
    case False
    then have "w = ls_owner s \<and> (pc' = pc \<or> (\<not> is_holding pc' \<and> \<not> is_holding pc \<and> pc' \<noteq> BadOwner))"
      using lock_step_quiet [OF access.hyps(3)] excl_inv_owner_less [OF access.prems] by blast
    then show ?thesis
      using access.hyps(2) by (intro excl_inv_quiet [OF access.prems]) (auto simp: lock_upd)
  qed
next
  case (modify h s g d cs d')
  show ?case
    by (rule excl_inv_modify(1) [OF modify.prems modify.hyps])
next
  case (unlock h s g d cs)
  show ?case
    by (rule excl_inv_modify(2) [OF unlock.prems unlock.hyps])
next
  case (release h s g cs)
  show ?case
    using release.hyps by (intro excl_inv_quiet [OF release.prems]) (auto simp: lock_upd)
next
  case (irq h s)
  show ?case
    by (intro excl_inv_quiet [OF irq.prems]) (auto simp: lock_upd)
next
  case (iret h s c cs)
  show ?case
    using iret.hyps by (intro excl_inv_quiet [OF iret.prems]) (auto simp: lock_upd)
qed

lemma excl_inv_reach: "lk_reach sp d0 s \<Longrightarrow> excl_inv s"
proof (induction rule: lk_reach.induct)
  case start
  show ?case
    by (auto simp: excl_inv_def spin_mutex_new_def)
next
  case (step s s')
  then show ?case
    using excl_inv_step by blast
qed

section \<open>Interrupts\<close>

definition irq_inv :: "'d lock_state \<Rightarrow> bool" where
  "irq_inv s \<longleftrightarrow>
     (\<forall>h. \<exists>c cs. ls_ctx s h = c # cs \<and> (cs = [] \<or> cs = [Outside]) \<and>
        (ls_sie s h \<longrightarrow> c = Outside \<and> cs = []) \<and> (guard_of c \<longrightarrow> cs = []) \<and> c \<noteq> SelfDeadlock)"

lemma irq_invD:
  assumes "irq_inv s" "ls_ctx s h = c # cs"
  shows "cs = [] \<or> cs = [Outside]" "ls_sie s h \<Longrightarrow> c = Outside \<and> cs = []" "guard_of c \<Longrightarrow> cs = []"
    "c \<noteq> SelfDeadlock"
proof -
  obtain c' cs' where *: "ls_ctx s h = c' # cs'" "cs' = [] \<or> cs' = [Outside]"
      "ls_sie s h \<longrightarrow> c' = Outside \<and> cs' = []" "guard_of c' \<longrightarrow> cs' = []" "c' \<noteq> SelfDeadlock"
    using assms(1) unfolding irq_inv_def by blast
  with assms(2) show "cs = [] \<or> cs = [Outside]" "ls_sie s h \<Longrightarrow> c = Outside \<and> cs = []" "guard_of c \<Longrightarrow> cs = []"
    "c \<noteq> SelfDeadlock"
    by auto
qed

text \<open>Only the hart that moves has to be looked at again.\<close>

lemma irq_inv_local:
  assumes "irq_inv s" "\<And>k. k \<noteq> h \<Longrightarrow> ls_ctx s' k = ls_ctx s k \<and> ls_sie s' k = ls_sie s k"
    "ls_ctx s' h = c # cs" "cs = [] \<or> cs = [Outside]"
    "ls_sie s' h \<longrightarrow> c = Outside \<and> cs = []" "guard_of c \<longrightarrow> cs = []" "c \<noteq> SelfDeadlock"
  shows "irq_inv s'"
  unfolding irq_inv_def
proof
  fix k
  show "\<exists>c cs. ls_ctx s' k = c # cs \<and> (cs = [] \<or> cs = [Outside]) \<and>
        (ls_sie s' k \<longrightarrow> c = Outside \<and> cs = []) \<and> (guard_of c \<longrightarrow> cs = []) \<and> c \<noteq> SelfDeadlock"
  proof (cases "k = h")
    case True
    then show ?thesis
      using assms(3-7) by auto
  next
    case False
    then show ?thesis
      using assms(1,2) by (simp add: irq_inv_def)
  qed
qed

lemma lock_step_guard:
  "lock_step tp d w pc = (pc', w') \<Longrightarrow> guard_of pc' \<Longrightarrow> guard_of pc"
  by (cases pc) (auto simp: wait_unlock_def split: if_splits)

lemma lock_step_moves: "lock_step tp d w pc = (pc', w') \<Longrightarrow> pc' = Outside \<longleftrightarrow> pc = Outside"
  by (cases pc) (auto simp: wait_unlock_def split: if_splits)

lemma lock_step_SelfDeadlock:
  "lock_step tp d w pc = (SelfDeadlock, w') \<Longrightarrow> pc = SelfDeadlock \<or> ((\<exists>g. pc = AtCheck g) \<and> w = tp)"
  by (cases pc) (auto simp: wait_unlock_def split: if_splits)

lemma no_self_deadlock:
  assumes "excl_inv s" "irq_inv s" "h < 4" "ls_ctx s h = pc # cs"
    "lock_step (of_nat h) d (ls_owner s) pc = (pc', w)"
  shows "pc' \<noteq> SelfDeadlock"
proof
  assume "pc' = SelfDeadlock"
  then have "pc = SelfDeadlock \<or> ((\<exists>g. pc = AtCheck g) \<and> ls_owner s = of_nat h)"
    using lock_step_SelfDeadlock [of "of_nat h" d "ls_owner s" pc w] assms(5) by simp
  then obtain g where g: "pc = AtCheck g" "ls_owner s = of_nat h"
    using irq_invD(4) [OF assms(2,4)] by blast
  have "ls_owner s \<noteq> UNLOCKED"
    using g(2) hart_not_UNLOCKED [OF assms(3)] by simp
  then obtain o' where o: "o' < 4" "ls_owner s = of_nat o'" "holders (ls_ctx s o') = 1"
    using assms(1) by (auto simp: excl_inv_def)
  have "h = o'"
    using of_nat_hart_eq [OF assms(3) o(1)] o(2) g(2) by simp
  then show False
    using o(3) irq_invD(1) [OF assms(2,4)] assms(4) g(1) by auto
qed

lemma irq_inv_step: "lk_step SpinNoIrq s s' \<Longrightarrow> excl_inv s \<Longrightarrow> irq_inv s \<Longrightarrow> irq_inv s'"
proof (induction rule: lk_step.induct)
  case (call h s cs sie' g)
  note D = irq_invD [OF call.prems(2) call.hyps(2)]
  show ?case
    using D call.hyps
    by (intro irq_inv_local [OF call.prems(2), where h = h and c = "AtCheck g" and cs = cs])
      (auto simp: lock_upd sie_guard_new_def)
next
  case (access h s pc cs pc' w)
  note D = irq_invD [OF access.prems(2) access.hyps(2)]
  show ?case
    using D access.hyps lock_step_guard [OF access.hyps(3)] lock_step_moves [OF access.hyps(3)]
      no_self_deadlock [OF access.prems access.hyps]
    by (intro irq_inv_local [OF access.prems(2), where h = h and c = pc' and cs = cs]) (auto simp: lock_upd)
next
  case (modify h s g d cs d')
  note D = irq_invD [OF modify.prems(2) modify.hyps(2)]
  show ?case
    using D modify.hyps
    by (intro irq_inv_local [OF modify.prems(2), where h = h and c = "Holding g d'" and cs = cs]) (auto simp: lock_upd)
next
  case (unlock h s g d cs)
  note D = irq_invD [OF unlock.prems(2) unlock.hyps(2)]
  show ?case
    using D unlock.hyps
    by (intro irq_inv_local [OF unlock.prems(2), where h = h and c = "Unlocking g" and cs = cs]) (auto simp: lock_upd)
next
  case (release h s g cs)
  note D = irq_invD [OF release.prems(2) release.hyps(2)]
  show ?case
    using D release.hyps
    by (intro irq_inv_local [OF release.prems(2), where h = h and c = Outside and cs = cs])
      (auto simp: lock_upd sie_guard_drop_def)
next
  case (irq h s)
  obtain c cs where c: "ls_ctx s h = c # cs"
    using irq.prems(2) unfolding irq_inv_def by blast
  note D = irq_invD [OF irq.prems(2) c]
  show ?case
    using D irq.hyps c
    by (intro irq_inv_local [OF irq.prems(2), where h = h and c = Outside and cs = "[Outside]"]) (auto simp: lock_upd)
next
  case (iret h s c cs)
  note D = irq_invD [OF iret.prems(2) iret.hyps(2)]
  show ?case
    using D iret.hyps
    by (intro irq_inv_local [OF iret.prems(2), where h = h and c = c and cs = cs]) (auto simp: lock_upd)
qed

lemma irq_inv_reach: "lk_reach SpinNoIrq d0 s \<Longrightarrow> irq_inv s"
proof (induction rule: lk_reach.induct)
  case start
  show ?case
    by (auto simp: irq_inv_def spin_mutex_new_def)
next
  case (step s s')
  show ?case
    by (rule irq_inv_step [OF step.hyps(2) excl_inv_reach [OF step.hyps(1)] step.IH])
qed

section \<open>The readers-writer lock\<close>

definition WRITER_MASK :: usize where "WRITER_MASK = 0x8000000000000000"
definition READER_MASK :: usize where "READER_MASK = 0x7FFFFFFFFFFFFFFF"

text \<open>
  \<^verbatim>\<open>SpinRwMutex\<close>, cut the same way: the wait loops of \<^verbatim>\<open>rlock\<close> and \<^verbatim>\<open>wlock\<close>, the load after
  them, the exchange with the loaded value, and the guards. \<^verbatim>\<open>upgrade\<close> gives the read guard up when
  it fails.
\<close>

datatype rw_pc =
    RwOutside | RdWait nat | RdLoad | RdCas usize | Reading | RdDrop
  | WrWait nat | WrLoad | WrCas usize | Writing | UpCas usize | RwTimedOut

definition rw_wait :: "bool \<Rightarrow> nat \<Rightarrow> (nat \<Rightarrow> rw_pc) \<Rightarrow> rw_pc \<Rightarrow> rw_pc" where
  "rw_wait blocked n again next' =
     (if blocked then (if n + 1 = TRY_LIMIT then RwTimedOut else again (n + 1)) else next')"

text \<open>One access of \<^verbatim>\<open>rlock\<close>.\<close>

fun rlock_step :: "usize \<Rightarrow> rw_pc \<Rightarrow> rw_pc \<times> usize" where
  "rlock_step st (RdWait n) = (rw_wait (st AND WRITER_MASK \<noteq> 0) n RdWait RdLoad, st)"
| "rlock_step st RdLoad = ((if st AND READER_MASK = READER_MASK then RdWait 0 else RdCas st), st)"
| "rlock_step st (RdCas oldval) = (if st = oldval then (Reading, oldval + 1) else (RdWait 0, st))"
| "rlock_step st pc = (pc, st)"

text \<open>One access of \<^verbatim>\<open>wlock\<close>.\<close>

fun wlock_step :: "usize \<Rightarrow> rw_pc \<Rightarrow> rw_pc \<times> usize" where
  "wlock_step st (WrWait n) =
     (rw_wait (st AND WRITER_MASK \<noteq> 0 \<or> st AND READER_MASK \<noteq> 0) n WrWait WrLoad, st)"
| "wlock_step st WrLoad = (WrCas st, st)"
| "wlock_step st (WrCas oldval) = (if st = oldval then (Writing, oldval OR WRITER_MASK) else (WrWait 0, st))"
| "wlock_step st pc = (pc, st)"

text \<open>One access of \<^verbatim>\<open>upgrade\<close>.\<close>

fun upgrade_step :: "usize \<Rightarrow> rw_pc \<Rightarrow> rw_pc \<times> usize" where
  "upgrade_step st Reading =
     ((if (st AND READER_MASK) > 1 \<or> st AND WRITER_MASK \<noteq> 0 then RdDrop else UpCas st), st)"
| "upgrade_step st (UpCas oldval) = (if st = oldval then (Writing, WRITER_MASK) else (RdDrop, st))"
| "upgrade_step st pc = (pc, st)"

definition read_drop :: "usize \<Rightarrow> usize" where
  "read_drop st = st - 1"

definition write_drop :: "usize \<Rightarrow> usize" where
  "write_drop st = st AND NOT WRITER_MASK"

record rw_state =
  rw_status :: usize
  rw_ctx :: "nat \<Rightarrow> rw_pc"

definition spin_rw_new :: rw_state where
  "spin_rw_new = \<lparr> rw_status = 0, rw_ctx = (\<lambda>_. RwOutside) \<rparr>"

inductive rw_step :: "rw_state \<Rightarrow> rw_state \<Rightarrow> bool" where
  rd_call: "rw_ctx s h = RwOutside \<Longrightarrow> rw_step s (s\<lparr> rw_ctx := (rw_ctx s)(h := RdWait 0) \<rparr>)"
| wr_call: "rw_ctx s h = RwOutside \<Longrightarrow> rw_step s (s\<lparr> rw_ctx := (rw_ctx s)(h := WrWait 0) \<rparr>)"
| rd_access: "rlock_step (rw_status s) (rw_ctx s h) = (pc, st) \<Longrightarrow>
    rw_step s (s\<lparr> rw_status := st, rw_ctx := (rw_ctx s)(h := pc) \<rparr>)"
| wr_access: "wlock_step (rw_status s) (rw_ctx s h) = (pc, st) \<Longrightarrow>
    rw_step s (s\<lparr> rw_status := st, rw_ctx := (rw_ctx s)(h := pc) \<rparr>)"
| up_access: "upgrade_step (rw_status s) (rw_ctx s h) = (pc, st) \<Longrightarrow>
    rw_step s (s\<lparr> rw_status := st, rw_ctx := (rw_ctx s)(h := pc) \<rparr>)"
| rd_drop: "rw_ctx s h = Reading \<or> rw_ctx s h = RdDrop \<Longrightarrow>
    rw_step s (s\<lparr> rw_status := read_drop (rw_status s), rw_ctx := (rw_ctx s)(h := RwOutside) \<rparr>)"
| wr_drop: "rw_ctx s h = Writing \<Longrightarrow>
    rw_step s (s\<lparr> rw_status := write_drop (rw_status s), rw_ctx := (rw_ctx s)(h := RwOutside) \<rparr>)"

inductive rw_reach :: "rw_state \<Rightarrow> bool" where
  rw_start: "rw_reach spin_rw_new"
| rw_next: "rw_reach s \<Longrightarrow> rw_step s s' \<Longrightarrow> rw_reach s'"

section \<open>Properties\<close>

lemma two_holders:
  assumes "excl_inv s" "Holding g d \<in> set (ls_ctx s h)" "Holding g' d' \<in> set (ls_ctx s k)"
  shows "h = k \<and> holders (ls_ctx s h) = 1"
proof -
  have h: "holders (ls_ctx s h) \<noteq> 0" "holders (ls_ctx s k) \<noteq> 0"
    using holders_0_no_Holding assms(2,3) by metis+
  then have "ls_owner s \<noteq> UNLOCKED"
    using assms(1) by (auto simp: excl_inv_def)
  then obtain o' where "holders (ls_ctx s o') = 1" "\<forall>j. j \<noteq> o' \<longrightarrow> holders (ls_ctx s j) = 0"
    using assms(1) by (auto simp: excl_inv_def)
  then show ?thesis
    using h by metis
qed


lemma lk_access:
  "lk_reach sp d0 s \<Longrightarrow> h < 4 \<Longrightarrow> ls_ctx s h = pc # cs \<Longrightarrow>
    lock_step (of_nat h) (ls_data s) (ls_owner s) pc = (pc', w) \<Longrightarrow>
    s' = set_ctx h (pc' # cs) (s\<lparr> ls_owner := w \<rparr>) \<Longrightarrow> lk_reach sp d0 s'"
  by (simp add: lk_reach.step lk_step.access)

lemma lk_take:
  assumes r: "lk_reach sp d0 s" and h: "h < 4" and c: "ls_ctx s h = Outside # cs" and u: "ls_owner s = UNLOCKED"
    and b: "before_lock sp (ls_sie s h) = (sie', g)"
  shows "lk_reach sp d0 (set_sie h sie' (set_ctx h (Holding g (ls_data s) # cs) (s\<lparr> ls_owner := of_nat h \<rparr>)))"
proof -
  let ?at = "\<lambda>pc. set_sie h sie' (set_ctx h (pc # cs) s)"
  have n: "UNLOCKED \<noteq> of_nat h"
    using hart_not_UNLOCKED [OF h] by simp
  have 1: "lk_reach sp d0 (?at (AtCheck g))"
    by (rule lk_reach.step [OF r lk_step.call [OF h c b]])
  have 2: "lk_reach sp d0 (?at (AtWait g 0))"
    by (rule lk_access [OF 1 h, where pc = "AtCheck g" and cs = cs and w = UNLOCKED and pc' = "AtWait g 0"])
      (use u n in \<open>cases s; simp add: lock_upd\<close>)+
  have 3: "lk_reach sp d0 (?at (AtCas g))"
    by (rule lk_access [OF 2 h, where pc = "AtWait g 0" and cs = cs and w = UNLOCKED and pc' = "AtCas g"])
      (use u n in \<open>cases s; simp add: lock_upd wait_unlock_def\<close>)+
  show ?thesis
    by (rule lk_access [OF 3 h, where pc = "AtCas g" and cs = cs and w = "of_nat h" and pc' = "Holding g (ls_data s)"])
      (use u n of_nat_hart_less [OF h] in \<open>cases s; simp add: lock_upd\<close>)+
qed


text \<open>
  The plain \<^verbatim>\<open>SpinLock\<close> leaves interrupts on: a handler that uses the lock its hart holds ends in
  the panic for a lock taken twice.
\<close>

lemma spin_without_guard_deadlocks:
  "\<exists>s. lk_reach Spin d0 s \<and> SelfDeadlock \<in> set (ls_ctx s 0)"
proof -
  let ?i = "spin_mutex_new d0"
  let ?s = "set_sie 0 True (set_ctx 0 [Holding False (ls_data ?i)] (?i\<lparr> ls_owner := of_nat 0 \<rparr>))"
  let ?q = "set_sie 0 False (set_ctx 0 (Outside # ls_ctx ?s 0) ?s)"
  let ?c = "set_sie 0 False (set_ctx 0 (AtCheck False # ls_ctx ?s 0) ?q)"
  have "lk_reach Spin d0 ?s"
    by (rule lk_take [OF lk_reach.start]) (simp_all add: spin_mutex_new_def)
  then have "lk_reach Spin d0 ?q"
    by (rule lk_reach.step [OF _ lk_step.irq]) (simp_all add: lock_upd)
  then have c: "lk_reach Spin d0 ?c"
    by (rule lk_reach.step [OF _ lk_step.call]) (simp_all add: lock_upd)
  have "lk_reach Spin d0 (set_ctx 0 (SelfDeadlock # ls_ctx ?s 0) (?c\<lparr> ls_owner := 0 \<rparr>))"
    by (rule lk_access [OF c, where h = 0 and pc = "AtCheck False" and cs = "ls_ctx ?s 0" and pc' = SelfDeadlock and w = 0])
      (simp_all add: lock_upd)
  moreover have "SelfDeadlock \<in> set (ls_ctx (set_ctx 0 (SelfDeadlock # ls_ctx ?s 0) (?c\<lparr> ls_owner := 0 \<rparr>)) 0)"
    by (simp add: lock_upd)
  ultimately show ?thesis
    by blast
qed

text \<open>States of two harts, for the runs below.\<close>

definition rw_two :: "usize \<Rightarrow> rw_pc \<Rightarrow> rw_pc \<Rightarrow> rw_state" where
  "rw_two st a b = \<lparr> rw_status = st, rw_ctx = (\<lambda>_. RwOutside)(0 := a, 1 := b) \<rparr>"

lemma rw_two_start: "rw_reach (rw_two 0 RwOutside RwOutside)"
proof -
  have "rw_two 0 RwOutside RwOutside = spin_rw_new"
    by (auto simp: rw_two_def spin_rw_new_def)
  then show ?thesis
    using rw_start by simp
qed

lemma rw_two_call:
  "rw_reach (rw_two st RwOutside b) \<Longrightarrow> rw_reach (rw_two st (WrWait 0) b)"
  "rw_reach (rw_two st a RwOutside) \<Longrightarrow> rw_reach (rw_two st a (WrWait 0))"
  "rw_reach (rw_two st a RwOutside) \<Longrightarrow> rw_reach (rw_two st a (RdWait 0))"
  using rw_next [OF _ wr_call [of "rw_two st RwOutside b" 0]] rw_next [OF _ wr_call [of "rw_two st a RwOutside" 1]]
    rw_next [OF _ rd_call [of "rw_two st a RwOutside" 1]]
  by (auto simp: rw_two_def fun_upd_twist)

lemma rw_two_access:
  "rw_reach (rw_two st a b) \<Longrightarrow> wlock_step st a = (pc, st') \<Longrightarrow> rw_reach (rw_two st' pc b)"
  "rw_reach (rw_two st a b) \<Longrightarrow> wlock_step st b = (pc, st') \<Longrightarrow> rw_reach (rw_two st' a pc)"
  "rw_reach (rw_two st a b) \<Longrightarrow> rlock_step st b = (pc, st') \<Longrightarrow> rw_reach (rw_two st' a pc)"
  using rw_next [OF _ wr_access [of "rw_two st a b" 0 pc st']] rw_next [OF _ wr_access [of "rw_two st a b" 1 pc st']]
    rw_next [OF _ rd_access [of "rw_two st a b" 1 pc st']]
  by (auto simp: rw_two_def fun_upd_twist)

lemmas rw_eval = WRITER_MASK_def READER_MASK_def rw_wait_def

text \<open>
  C40. The readers-writer lock does not exclude. \<^verbatim>\<open>wlock\<close> and \<^verbatim>\<open>rlock\<close> wait until the lock looks
  free, load the status again and exchange whatever they loaded; when a writer comes in
  between, the exchange of its status succeeds. Two writers, and a reader beside a writer,
  are reachable.
\<close>
theorem rw_lock_not_exclusive:
  "(\<exists>s. rw_reach s \<and> rw_ctx s 0 = Writing \<and> rw_ctx s 1 = Writing) \<and>
   (\<exists>s. rw_reach s \<and> rw_ctx s 0 = Writing \<and> rw_ctx s 1 = Reading)"
proof -
  have a: "rw_reach (rw_two 0 WrLoad RwOutside)"
    by (rule rw_two_access(1) [OF rw_two_call(1) [OF rw_two_start]]) (simp add: rw_eval)
  have b: "rw_reach (rw_two 0 WrLoad WrLoad)"
    by (rule rw_two_access(2) [OF rw_two_call(2) [OF a]]) (simp add: rw_eval)
  have c: "rw_reach (rw_two 0 WrLoad RdLoad)"
    by (rule rw_two_access(3) [OF rw_two_call(3) [OF a]]) (simp add: rw_eval)
  have w: "rw_reach (rw_two WRITER_MASK Writing x)" if "rw_reach (rw_two 0 WrLoad x)" for x
    by (rule rw_two_access(1) [OF rw_two_access(1) [OF that]]) (simp add: rw_eval)+
  have "rw_reach (rw_two WRITER_MASK Writing Writing)"
    by (rule rw_two_access(2) [OF rw_two_access(2) [OF w [OF b]]]) (simp add: rw_eval)+
  moreover have "rw_reach (rw_two (WRITER_MASK + 1) Writing Reading)"
    by (rule rw_two_access(3) [OF rw_two_access(3) [OF w [OF c]]]) (simp add: rw_eval)+
  ultimately show ?thesis
    by (intro conjI exI [of _ "rw_two WRITER_MASK Writing Writing"] exI [of _ "rw_two (WRITER_MASK + 1) Writing Reading"])
      (simp_all add: rw_two_def)
qed

end
