(* ===== verification/Spec2Isabelle.thy ===== *)
theory Spec2Isabelle
  imports Range_Map Range_Set Pipe Page_Table Sig_Delivery Vm_Isolation Robust_List Locks
begin

text \<open>
  \<^bold>\<open>Chronix: a verification of the kernel's data structures, address spaces, descriptors,
  pipes, signals and processes.\<close>

  Chronix is a Unix-like kernel in Rust for RISC-V 64 and LoongArch 64. The hardware layer
  (\<^verbatim>\<open>hal/\<close>) gives addresses, page tables and trap contexts; the kernel (\<^verbatim>\<open>os/src\<close>) builds address
  spaces, tasks, signals, files and system calls on it, with a few container crates under
  \<^verbatim>\<open>utils/\<close>. System calls run as asynchronous functions on a per-core executor; shared objects
  are behind spin locks, so that a section under one lock is one atomic step of the models.

  \<^bold>\<open>Conventions.\<close> The kernel is built in release mode: machine integers wrap and
  \<^verbatim>\<open>debug_assert!\<close> is absent, while \<^verbatim>\<open>assert!\<close>, \<^verbatim>\<open>unwrap\<close> on nothing and an index out of bounds
  panic. An operation that can panic has an option type with \<^const>\<open>None\<close> for the panic; a Rust
  \<^verbatim>\<open>Result\<close> is a sum whose left side is the error. \<^verbatim>\<open>&mut self\<close> is the old value in and the new
  value out. \<^verbatim>\<open>usize\<close> addresses, page-table entries and bit sets are 64-bit words; lengths and
  indexes of collections are natural numbers, since no collection reaches the word size.

  \<^bold>\<open>The theories.\<close>

  \<^item> \<open>Chronix_Prelude\<close>: type names, panics and the list, option and word lemmas shared below.
  \<^item> \<open>Ordered_Map\<close>: \<^verbatim>\<open>BTreeMap\<close> as a strictly sorted association list, with the locale of its laws.
  \<^item> \<open>Range_Map\<close> (\<^verbatim>\<open>utils/range-map\<close>): the map from disjoint ranges to values in which an address
    space keeps its areas: insertion, lookup, splitting, resizing and the search for a free
    range, with a locale for the abstract map from points to values.
  \<^item> \<open>Range_Set\<close> (\<^verbatim>\<open>utils/segment-tree\<close>): the lazily expanded segment tree as a set of indexes.
  \<^item> \<open>Ring_Buffer\<close> (\<^verbatim>\<open>utils/ringbuffer\<close>) and \<open>Pipe\<close> (\<^verbatim>\<open>os/src/fs/pipefs.rs\<close>): the byte queue and
    the pipe on it; reader and writer are interleaved by an inductive step relation, which
    gives integrity of the stream and that no wake-up is lost.
  \<^item> \<open>Addr\<close>, \<open>Page_Table_Entry\<close>, \<open>Page_Table\<close> (\<^verbatim>\<open>hal\<close>): virtual and physical addresses and page
    numbers, the entry formats of both targets, and the radix tables with \<^verbatim>\<open>map\<close>, \<^verbatim>\<open>unmap\<close> and
    translation over a memory of frames. The frame allocator is a parameter; what the table
    needs of it (a fresh frame) is a named hypothesis, with a concrete allocator in the witnesses.
  \<^item> \<open>Sys_Error\<close>, \<open>Fd_Table\<close> (\<^verbatim>\<open>os/src/task/fs.rs\<close> and the descriptor calls of \<^verbatim>\<open>os/src/syscall/fs.rs\<close>):
    error numbers and the descriptor table.
  \<^item> \<open>Signal\<close> (\<^verbatim>\<open>os/src/signal\<close>): signal sets, actions and the signal manager with its queues.

  \<^item> \<open>Process\<close>, \<open>Process_Life\<close> (\<^verbatim>\<open>os/src/task\<close>, \<^verbatim>\<open>os/src/syscall/process.rs\<close>, \<^verbatim>\<open>signal.rs\<close>): tasks, thread groups,
    parents and children, the managers, and fork, exit, group exit, wait and kill on them, with
    one well-formedness invariant that the operations keep.
  \<^item> \<open>User_Mem\<close>, \<open>Sig_Delivery\<close> (\<^verbatim>\<open>hal/src/component/{trap,signal}\<close>, \<^verbatim>\<open>os/src/task/signal.rs\<close>): words in user memory, trap
    contexts, and signal delivery with the frame on the user stack, the kernel's own handlers
    and the return from a handler. The loop of \<^verbatim>\<open>check_and_handle\<close> has a bound on its rounds, which
    no theorem depends on: the claims hold for every bound.
  \<^item> \<open>User_Area\<close>, \<open>User_Space\<close>, \<open>Vm_Syscall\<close> (\<^verbatim>\<open>os/src/mm/vm\<close>, \<^verbatim>\<open>os/src/syscall/mm.rs\<close>): the areas of a user program with
    their page fault handlers, the address space (loading, heap, fork, placement, unmapping, access checks) and
    the memory calls. The page table is seen through its leaves and frames are counted by owners, as \<^verbatim>\<open>StrongArc\<close>
    does; the frame allocator, the page cache and shared memory answer through an argument (\<^verbatim>\<open>vm_env\<close>), of which
    the theorems ask that a frame said to be free is free and that cached pages are kept by the kernel.
    \<^verbatim>\<open>munmap\<close> and \<^verbatim>\<open>mprotect\<close> loop until the range is done: the model bounds the rounds, two more than the pages
    asked for are shown to be enough for aligned addresses and no number is enough for some others.
  \<^item> \<open>Vm_Invariant\<close>, \<open>Vm_Unmap\<close>, \<open>Vm_Isolation\<close>: the invariant of all address spaces over one memory, the local steps
    that keep it, and the step relation of the whole system with copy-on-write isolation.
  \<^item> \<open>Futex\<close>, \<open>Robust_List\<close> (\<^verbatim>\<open>os/src/syscall/futex.rs\<close>, \<^verbatim>\<open>mm_release\<close> of \<^verbatim>\<open>os/src/task/task.rs\<close>): the wait queues, the futex call, threads that
    wait and post as an inductive step relation, and the walk over the locks of a dying thread.

  \<^bold>\<open>Interfaces.\<close> Each locale is interpreted on the model's own definitions: the ordered map on
  the association list, the interval map on the range map, the byte queue on the ring buffer,
  and the entry operations and the radix table on both page-table formats.

  \<^bold>\<open>Not modelled.\<close> Device drivers, the interrupt and trap assembly, the boot code, the user
  programs under \<^verbatim>\<open>user/\<close>, and the file systems that delegate to foreign crates: what they do is
  register and memory traffic or calls of code that is not part of the repository.
\<close>

end
